(* ===== verification/Prelude.thy ===== *)
theory Prelude
  imports Main "HOL-Library.Word" "HOL-Library.Multiset" "HOL-Library.Monad_Syntax"
begin

text \<open>
  Shared vocabulary of the development: names for the C integer types and for byte
  strings, and the generic facts about lists, buckets and bit masks that several
  components use.  Nothing in this theory models code of the repository.
\<close>

unbundle bit_operations_syntax

type_synonym u8 = "8 word"
type_synonym u16 = "16 word"
type_synonym u32 = "32 word"
type_synonym u64 = "64 word"
type_synonym bytes = "u8 list"

named_theorems laws "facts an interface promises about the operations of a component"
named_theorems inv_intros "introduction rules for the representation invariants"

section \<open>Masks\<close>

lemma nat_and_le_right [simp]: "(a AND m :: nat) \<le> m"
proof -
  have "int a AND int m \<le> int m" by (rule AND_upper2) simp
  then show ?thesis by (metis of_nat_and_eq of_nat_le_iff)
qed

lemma nat_and_mask_less: "0 < n \<Longrightarrow> (a AND (n - 1) :: nat) < n"
  using nat_and_le_right [of a "n - 1"] by linarith

section \<open>Buckets\<close>

text \<open>The elements of a list of buckets as a multiset, and the effect of writing one bucket.\<close>

lemma mset_concat_update:
  assumes "i < length xss"
  shows "mset (concat (xss[i := ys])) + mset (xss ! i) = mset (concat xss) + mset ys"
  using assms
proof (induction xss arbitrary: i)
  case (Cons a xss)
  then show ?case
    by (cases i) (force simp: algebra_simps)+
qed simp

lemma length_concat_update:
  assumes "i < length xss"
  shows "length (concat (xss[i := ys])) + length (xss ! i) = length (concat xss) + length ys"
  using arg_cong [OF mset_concat_update [OF assms, of ys], of size] by simp

lemma set_concat_nth: "i < length xss \<Longrightarrow> x \<in> set (xss ! i) \<Longrightarrow> x \<in> set (concat xss)"
  by auto

lemma concat_eq_NilD: "concat xss = [] \<Longrightarrow> i < length xss \<Longrightarrow> xss ! i = []"
  by (auto simp: concat_eq_Nil_conv)

lemma concat_replicate_Nil [simp]: "concat (replicate n []) = []"
  by (induction n) auto

lemma nth_update_Nil: "xss ! i = [] \<Longrightarrow> xss[j := []] ! i = []"
  by (cases "i = j"; cases "j < length xss") (simp_all add: list_update_beyond)

lemma mset_remove_nth:
  "p < length xs \<Longrightarrow> mset xs = add_mset (xs ! p) (mset (take p xs @ drop (p + 1) xs))"
  by (subst id_take_nth_drop [of p xs]) simp_all

lemma mset_swap_one:
  fixes D D' C C' :: "'a multiset"
  assumes "D' + C = D + C'" and "C' + {#e#} = C + {#e'#}"
  shows "D' + {#e#} = D + {#e'#}"
proof -
  have "D' + {#e#} + C = D + (C' + {#e#})" using assms(1) by (simp add: ac_simps)
  also have "\<dots> = D + {#e'#} + C" unfolding assms(2) by (simp add: ac_simps)
  finally show ?thesis by simp
qed

lemma mset_drop_one:
  fixes D D' C C' :: "'a multiset"
  assumes "D' + C = D + C'" and "C = add_mset e C'"
  shows "D = add_mset e D'"
  using assms by simp

section \<open>Association lists with distinct keys\<close>

lemma map_of_mset_eq:
  assumes "mset xs = mset ys" and "distinct (map fst xs)"
  shows "map_of xs = map_of ys"
proof -
  have "mset (map fst xs) = mset (map fst ys)" using assms(1) by simp
  then have "distinct (map fst ys)" using assms(2) mset_eq_imp_distinct_iff by blast
  moreover have "set xs = set ys" using assms(1) by (rule mset_eq_setD)
  ultimately show ?thesis using assms(2) by (simp add: map_of_inject_set)
qed

lemma mset_distinct_map_cong:
  "mset xs = mset ys \<Longrightarrow> distinct (map f xs) = distinct (map f ys)"
  by (metis mset_eq_imp_distinct_iff mset_map)

section \<open>Total correctness\<close>

definition wp :: "'a option \<Rightarrow> ('a \<Rightarrow> bool) \<Rightarrow> bool" where
  "wp m Q = (case m of None \<Rightarrow> False | Some x \<Rightarrow> Q x)"

lemma wp_Some [simp]: "wp (Some x) Q = Q x"
  and wp_None [simp]: "wp None Q = False"
  by (simp_all add: wp_def)

lemma wp_bind [simp]: "wp (m \<bind> f) Q = wp m (\<lambda>x. wp (f x) Q)"
  by (simp add: wp_def split: bind_split option.split)

lemma wp_if [simp]: "wp (if b then m else m') Q = (if b then wp m Q else wp m' Q)"
  by simp

lemma wp_prod [simp]: "wp (case p of (x, y) \<Rightarrow> g x y) Q = (case p of (x, y) \<Rightarrow> wp (g x y) Q)"
  by (simp split: prod.split)

lemma wp_let [simp]: "wp (Let v h) Q = (let x = v in wp (h x) Q)"
  by simp

lemmas wp_simps = wp_Some wp_None wp_bind wp_if wp_prod wp_let

lemma wp_mono: "wp m P \<Longrightarrow> (\<And>x. P x \<Longrightarrow> Q x) \<Longrightarrow> wp m Q"
  by (cases m) (simp_all add: wp_def)

lemma wp_conj: "wp x P \<Longrightarrow> wp x Q \<Longrightarrow> wp x (\<lambda>y. P y \<and> Q y)"
  by (cases x) simp_all

lemma wp_not_None: "wp m Q \<Longrightarrow> \<exists>x. m = Some x \<and> Q x"
  by (cases m) (simp_all add: wp_def)

section \<open>Loops that may fail\<close>

primrec foldM :: "('a \<Rightarrow> 's \<Rightarrow> 's option) \<Rightarrow> 'a list \<Rightarrow> 's \<Rightarrow> 's option" where
  "foldM f [] s = Some s"
| "foldM f (x # xs) s = f x s \<bind> foldM f xs"

text \<open>The invariant speaks of the elements still to come.\<close>

lemma foldM_inv:
  assumes "\<And>x xs s. I (x # xs) s \<Longrightarrow> wp (f x s) (I xs)" and "I xs s"
  shows "wp (foldM f xs s) (I [])"
  using assms(2)
proof (induction xs arbitrary: s)
  case (Cons x xs)
  from assms(1) [OF Cons.prems] show ?case by (simp add: wp_mono [OF _ Cons.IH])
qed simp

end
