(* ===== verification/Dict.thy ===== *)
theory Dict
  imports Prelude
begin

text \<open>
  The hash table of \<^verbatim>\<open>src/redis-2.8/src/dict.c\<close> and \<^verbatim>\<open>dict.h\<close>: chaining buckets, two
  tables, incremental rehashing.  A chain (\<^verbatim>\<open>dictEntry *\<close> linked by \<^verbatim>\<open>next\<close>) is a list of
  entries, the bucket array a list of chains (empty when the C pointer is \<open>NULL\<close>), and a
  pointer to an entry is its address: table, bucket, position in the chain.  The sizes
  (\<^verbatim>\<open>unsigned long\<close>) are \<open>nat\<close>; hash values are 32-bit words.  The global
  \<^verbatim>\<open>dict_can_resize\<close> is the argument \<open>can_resize\<close>.
\<close>

section \<open>Data\<close>

record ('k, 'v) dictEntry =
  de_key :: 'k
  de_val :: 'v

record ('k, 'v) dictht =
  ht_table :: "('k, 'v) dictEntry list list"
  ht_size :: nat
  ht_sizemask :: nat
  ht_used :: nat

record ('k, 'v) dict =
  ht0 :: "('k, 'v) dictht"
  ht1 :: "('k, 'v) dictht"
  rehashidx :: int
  iterators :: int

record 'k dictType =
  hashFunction :: "'k \<Rightarrow> u32"
  keyCompare :: "'k \<Rightarrow> 'k \<Rightarrow> bool"

type_synonym entry_ref = "nat \<times> nat \<times> nat"

definition DICT_HT_INITIAL_SIZE :: nat where
  "DICT_HT_INITIAL_SIZE = 4"

definition dict_force_resize_ratio :: nat where
  "dict_force_resize_ratio = 5"

definition LONG_MAX :: nat where
  "LONG_MAX = 2 ^ 63 - 1"

definition dictHashKey :: "'k dictType \<Rightarrow> 'k \<Rightarrow> nat" where
  "dictHashKey ty k = unat (hashFunction ty k)"

definition dictIsRehashing :: "('k, 'v) dict \<Rightarrow> bool" where
  "dictIsRehashing d \<longleftrightarrow> rehashidx d \<noteq> -1"

definition dictSize :: "('k, 'v) dict \<Rightarrow> nat" where
  "dictSize d = ht_used (ht0 d) + ht_used (ht1 d)"

definition dictSlots :: "('k, 'v) dict \<Rightarrow> nat" where
  "dictSlots d = ht_size (ht0 d) + ht_size (ht1 d)"

definition dict_ht :: "('k, 'v) dict \<Rightarrow> nat \<Rightarrow> ('k, 'v) dictht" where
  "dict_ht d t = (if t = 0 then ht0 d else ht1 d)"

definition dict_set_ht :: "('k, 'v) dict \<Rightarrow> nat \<Rightarrow> ('k, 'v) dictht \<Rightarrow> ('k, 'v) dict" where
  "dict_set_ht d t h = (if t = 0 then d\<lparr>ht0 := h\<rparr> else d\<lparr>ht1 := h\<rparr>)"

section \<open>Creation, expansion, resizing\<close>

definition dict_reset_ht :: "('k, 'v) dictht" where
  "dict_reset_ht = \<lparr>ht_table = [], ht_size = 0, ht_sizemask = 0, ht_used = 0\<rparr>"

definition dictCreate :: "('k, 'v) dict" where
  "dictCreate = \<lparr>ht0 = dict_reset_ht, ht1 = dict_reset_ht, rehashidx = -1, iterators = 0\<rparr>"

text \<open>The doubling loop; it starts at 4, so \<open>i\<close> is never 0.\<close>

function dict_next_power_from :: "nat \<Rightarrow> nat \<Rightarrow> nat" where
  "dict_next_power_from i sz =
     (if sz \<le> i \<or> i = 0 then i else dict_next_power_from (i * 2) sz)"
  by pat_completeness auto
termination by (relation "measure (\<lambda>(i, sz). sz - i)") auto

declare dict_next_power_from.simps [simp del]

definition dictNextPower :: "nat \<Rightarrow> nat" where
  "dictNextPower sz =
     (if LONG_MAX \<le> sz then LONG_MAX else dict_next_power_from DICT_HT_INITIAL_SIZE sz)"

definition dictExpand :: "('k, 'v) dict \<Rightarrow> nat \<Rightarrow> ('k, 'v) dict \<times> bool" where
  "dictExpand d sz =
     (let realsize = dictNextPower sz in
      if dictIsRehashing d \<or> sz < ht_used (ht0 d) then (d, False)
      else
        let n = \<lparr>ht_table = replicate realsize [], ht_size = realsize,
                 ht_sizemask = realsize - 1, ht_used = 0\<rparr>
        in if ht_table (ht0 d) = [] then (d\<lparr>ht0 := n\<rparr>, True)
           else (d\<lparr>ht1 := n, rehashidx := 0\<rparr>, True))"

definition dictResize :: "bool \<Rightarrow> ('k, 'v) dict \<Rightarrow> ('k, 'v) dict \<times> bool" where
  "dictResize can_resize d =
     (if \<not> can_resize \<or> dictIsRehashing d then (d, False)
      else
        let minimal = ht_used (ht0 d);
            minimal = (if minimal < DICT_HT_INITIAL_SIZE then DICT_HT_INITIAL_SIZE else minimal)
        in dictExpand d minimal)"

definition dictExpandIfNeeded :: "bool \<Rightarrow> ('k, 'v) dict \<Rightarrow> ('k, 'v) dict \<times> bool" where
  "dictExpandIfNeeded can_resize d =
     (if dictIsRehashing d then (d, True)
      else if ht_size (ht0 d) = 0 then dictExpand d DICT_HT_INITIAL_SIZE
      else if ht_size (ht0 d) \<le> ht_used (ht0 d) \<and>
              (can_resize \<or> dict_force_resize_ratio < ht_used (ht0 d) div ht_size (ht0 d))
      then dictExpand d (ht_used (ht0 d) * 2)
      else (d, True))"

section \<open>Incremental rehashing\<close>

text \<open>Moving the entries of one chain, first entry first, each to the head of its new chain.\<close>

fun rehash_chain ::
  "'k dictType \<Rightarrow> ('k, 'v) dictEntry list \<Rightarrow> ('k, 'v) dictht \<times> ('k, 'v) dictht
     \<Rightarrow> ('k, 'v) dictht \<times> ('k, 'v) dictht" where
  "rehash_chain ty [] (t0, t1) = (t0, t1)"
| "rehash_chain ty (de # rest) (t0, t1) =
     (let h = dictHashKey ty (de_key de) AND ht_sizemask t1
      in rehash_chain ty rest
           (t0\<lparr>ht_used := ht_used t0 - 1\<rparr>,
            t1\<lparr>ht_table := (ht_table t1)[h := de # ht_table t1 ! h], ht_used := ht_used t1 + 1\<rparr>))"

text \<open>
  \<^verbatim>\<open>while (table[rehashidx] == NULL) rehashidx++\<close>.  The C loop has no bound; the model stops
  at the end of the array, where the C would read outside it.  \<open>rehash_in_bounds\<close> below says
  when this does not happen, and \<open>dict_rehash_step_safe\<close> that it never does.
\<close>

function skip_empty :: "'a list list \<Rightarrow> nat \<Rightarrow> nat" where
  "skip_empty tbl i = (if i < length tbl \<and> tbl ! i = [] then skip_empty tbl (i + 1) else i)"
  by pat_completeness auto
termination by (relation "measure (\<lambda>(tbl, i). length tbl - i)") auto

declare skip_empty.simps [simp del]

definition dict_rehash_once :: "'k dictType \<Rightarrow> ('k, 'v) dict \<Rightarrow> ('k, 'v) dict \<times> bool" where
  "dict_rehash_once ty d =
     (if ht_used (ht0 d) = 0
      then (d\<lparr>ht0 := ht1 d, ht1 := dict_reset_ht, rehashidx := -1\<rparr>, False)
      else
        let idx = skip_empty (ht_table (ht0 d)) (nat (rehashidx d));
            (t0, t1) = rehash_chain ty (ht_table (ht0 d) ! idx) (ht0 d, ht1 d);
            t0 = t0\<lparr>ht_table := (ht_table t0)[idx := []]\<rparr>
        in (d\<lparr>ht0 := t0, ht1 := t1, rehashidx := int idx + 1\<rparr>, True))"

definition rehash_in_bounds :: "('k, 'v) dict \<Rightarrow> bool" where
  "rehash_in_bounds d \<longleftrightarrow> ht_used (ht0 d) \<noteq> 0 \<longrightarrow>
     0 \<le> rehashidx d \<and> rehashidx d < int (ht_size (ht0 d)) \<and>
     skip_empty (ht_table (ht0 d)) (nat (rehashidx d)) < ht_size (ht0 d)"

fun dict_rehash_loop :: "'k dictType \<Rightarrow> ('k, 'v) dict \<Rightarrow> nat \<Rightarrow> ('k, 'v) dict \<times> bool" where
  "dict_rehash_loop ty d 0 = (d, True)"
| "dict_rehash_loop ty d (Suc n) =
     (case dict_rehash_once ty d of
        (d', False) \<Rightarrow> (d', False)
      | (d', True) \<Rightarrow> dict_rehash_loop ty d' n)"

definition dictRehash :: "'k dictType \<Rightarrow> ('k, 'v) dict \<Rightarrow> nat \<Rightarrow> ('k, 'v) dict \<times> bool" where
  "dictRehash ty d n = (if \<not> dictIsRehashing d then (d, False) else dict_rehash_loop ty d n)"

definition dictRehashStep :: "'k dictType \<Rightarrow> ('k, 'v) dict \<Rightarrow> ('k, 'v) dict" where
  "dictRehashStep ty d = (if iterators d = 0 then fst (dictRehash ty d 1) else d)"

section \<open>Lookup\<close>

fun chain_pos :: "'k dictType \<Rightarrow> 'k \<Rightarrow> ('k, 'v) dictEntry list \<Rightarrow> nat option" where
  "chain_pos ty k [] = None"
| "chain_pos ty k (he # rest) =
     (if keyCompare ty k (de_key he) then Some 0 else map_option Suc (chain_pos ty k rest))"

definition ht_idx :: "'k dictType \<Rightarrow> ('k, 'v) dictht \<Rightarrow> 'k \<Rightarrow> nat" where
  "ht_idx ty t k = dictHashKey ty k AND ht_sizemask t"

definition dict_search :: "'k dictType \<Rightarrow> ('k, 'v) dict \<Rightarrow> 'k \<Rightarrow> nat \<Rightarrow> entry_ref option" where
  "dict_search ty d k t =
     (let idx = ht_idx ty (dict_ht d t) k
      in case chain_pos ty k (ht_table (dict_ht d t) ! idx) of
           None \<Rightarrow> None
         | Some p \<Rightarrow> Some (t, idx, p))"

text \<open>The loop over the two tables, left after table 0 unless a rehash is running.\<close>

definition dict_search_tables :: "'k dictType \<Rightarrow> ('k, 'v) dict \<Rightarrow> 'k \<Rightarrow> entry_ref option" where
  "dict_search_tables ty d k =
     (case dict_search ty d k 0 of
        Some r \<Rightarrow> Some r
      | None \<Rightarrow> if \<not> dictIsRehashing d then None else dict_search ty d k 1)"

definition dictFind :: "'k dictType \<Rightarrow> ('k, 'v) dict \<Rightarrow> 'k \<Rightarrow> ('k, 'v) dict \<times> entry_ref option" where
  "dictFind ty d k =
     (if ht_size (ht0 d) = 0 then (d, None)
      else
        let d = (if dictIsRehashing d then dictRehashStep ty d else d)
        in (d, dict_search_tables ty d k))"

definition dict_entry_at :: "('k, 'v) dict \<Rightarrow> entry_ref \<Rightarrow> ('k, 'v) dictEntry" where
  "dict_entry_at d r = (case r of (t, idx, p) \<Rightarrow> ht_table (dict_ht d t) ! idx ! p)"

definition dictFetchValue :: "'k dictType \<Rightarrow> ('k, 'v) dict \<Rightarrow> 'k \<Rightarrow> ('k, 'v) dict \<times> 'v option" where
  "dictFetchValue ty d k =
     (case dictFind ty d k of
        (d', None) \<Rightarrow> (d', None)
      | (d', Some he) \<Rightarrow> (d', Some (de_val (dict_entry_at d' he))))"

definition dictKeyIndex :: "'k dictType \<Rightarrow> bool \<Rightarrow> ('k, 'v) dict \<Rightarrow> 'k \<Rightarrow> ('k, 'v) dict \<times> nat option" where
  "dictKeyIndex ty can_resize d k =
     (case dictExpandIfNeeded can_resize d of
        (d, False) \<Rightarrow> (d, None)
      | (d, True) \<Rightarrow>
          (case dict_search_tables ty d k of
             Some _ \<Rightarrow> (d, None)
           | None \<Rightarrow> (d, Some (ht_idx ty (dict_ht d (if dictIsRehashing d then 1 else 0)) k))))"

section \<open>Update and deletion\<close>

text \<open>
  The last argument of \<open>dictAddRaw\<close> is what the value field of the new entry holds: the C
  leaves it as allocated, for the caller to fill.
\<close>

definition dictAddRaw ::
  "'k dictType \<Rightarrow> bool \<Rightarrow> ('k, 'v) dict \<Rightarrow> 'k \<Rightarrow> 'v \<Rightarrow> ('k, 'v) dict \<times> entry_ref option" where
  "dictAddRaw ty can_resize d k v0 =
     (let d = (if dictIsRehashing d then dictRehashStep ty d else d)
      in case dictKeyIndex ty can_resize d k of
           (d, None) \<Rightarrow> (d, None)
         | (d, Some index) \<Rightarrow>
             let t = (if dictIsRehashing d then 1 else 0);
                 ht = dict_ht d t;
                 entry = \<lparr>de_key = k, de_val = v0\<rparr>
             in (dict_set_ht d t
                   (ht\<lparr>ht_table := (ht_table ht)[index := entry # ht_table ht ! index],
                       ht_used := ht_used ht + 1\<rparr>),
                 Some (t, index, 0)))"

definition dictSetVal :: "('k, 'v) dict \<Rightarrow> entry_ref \<Rightarrow> 'v \<Rightarrow> ('k, 'v) dict" where
  "dictSetVal d r v =
     (case r of (t, idx, p) \<Rightarrow>
        let ht = dict_ht d t; chain = ht_table ht ! idx
        in dict_set_ht d t
             (ht\<lparr>ht_table := (ht_table ht)[idx := chain[p := (chain ! p)\<lparr>de_val := v\<rparr>]]\<rparr>))"

definition dictAdd :: "'k dictType \<Rightarrow> bool \<Rightarrow> ('k, 'v) dict \<Rightarrow> 'k \<Rightarrow> 'v \<Rightarrow> ('k, 'v) dict \<times> bool" where
  "dictAdd ty can_resize d k v =
     (case dictAddRaw ty can_resize d k v of
        (d', None) \<Rightarrow> (d', False)
      | (d', Some entry) \<Rightarrow> (dictSetVal d' entry v, True))"

definition dictReplace :: "'k dictType \<Rightarrow> bool \<Rightarrow> ('k, 'v) dict \<Rightarrow> 'k \<Rightarrow> 'v \<Rightarrow> ('k, 'v) dict \<times> bool" where
  "dictReplace ty can_resize d k v =
     (case dictAdd ty can_resize d k v of
        (d', True) \<Rightarrow> (d', True)
      | (d', False) \<Rightarrow>
          (case dictFind ty d' k of
             (d'', None) \<Rightarrow> (d'', False)
           | (d'', Some entry) \<Rightarrow> (dictSetVal d'' entry v, False)))"

definition dictReplaceRaw ::
  "'k dictType \<Rightarrow> bool \<Rightarrow> ('k, 'v) dict \<Rightarrow> 'k \<Rightarrow> 'v \<Rightarrow> ('k, 'v) dict \<times> entry_ref option" where
  "dictReplaceRaw ty can_resize d k v0 =
     (case dictFind ty d k of
        (d', Some entry) \<Rightarrow> (d', Some entry)
      | (d', None) \<Rightarrow> dictAddRaw ty can_resize d' k v0)"

definition dict_unlink :: "('k, 'v) dict \<Rightarrow> entry_ref \<Rightarrow> ('k, 'v) dict" where
  "dict_unlink d r =
     (case r of (t, idx, p) \<Rightarrow>
        let ht = dict_ht d t; chain = ht_table ht ! idx
        in dict_set_ht d t
             (ht\<lparr>ht_table := (ht_table ht)[idx := take p chain @ drop (p + 1) chain],
                 ht_used := ht_used ht - 1\<rparr>))"

definition dictGenericDelete :: "'k dictType \<Rightarrow> ('k, 'v) dict \<Rightarrow> 'k \<Rightarrow> ('k, 'v) dict \<times> bool" where
  "dictGenericDelete ty d k =
     (if ht_size (ht0 d) = 0 then (d, False)
      else
        let d = (if dictIsRehashing d then dictRehashStep ty d else d)
        in case dict_search_tables ty d k of
             None \<Rightarrow> (d, False)
           | Some r \<Rightarrow> (dict_unlink d r, True))"

definition dictDelete :: "'k dictType \<Rightarrow> ('k, 'v) dict \<Rightarrow> 'k \<Rightarrow> ('k, 'v) dict \<times> bool" where
  "dictDelete ty d k = dictGenericDelete ty d k"

definition dictEmpty :: "('k, 'v) dict \<Rightarrow> ('k, 'v) dict" where
  "dictEmpty d = d\<lparr>ht0 := dict_reset_ht, ht1 := dict_reset_ht, rehashidx := -1, iterators := 0\<rparr>"

end
