(* ===== verification/Dict_Refine.thy ===== *)
theory Dict_Refine
  imports Dict
begin

text \<open>
  The representation invariant of the hash table, and the proof that every operation
  keeps it and acts on the finite map the table stands for, whatever step of an
  incremental rehash the table is in.
\<close>

section \<open>Invariant and abstraction\<close>

text \<open>
  Keys may have several representations that compare equal (an integer-encoded string object
  and its text, names that differ in case).  \<open>cn\<close> maps a key to what the comparison compares;
  the map a dictionary stands for is over these.  The hash must respect the comparison.
\<close>

definition dictType_ok :: "'k dictType \<Rightarrow> ('k \<Rightarrow> 'c) \<Rightarrow> bool" where
  "dictType_ok ty cn \<longleftrightarrow>
     (\<forall>a b. keyCompare ty a b \<longleftrightarrow> cn a = cn b) \<and>
     (\<forall>a b. cn a = cn b \<longrightarrow> hashFunction ty a = hashFunction ty b)"

abbreviation (input) entry_key :: "('k \<Rightarrow> 'c) \<Rightarrow> ('k, 'v) dictEntry \<Rightarrow> 'c" where
  "entry_key cn e \<equiv> cn (de_key e)"

definition ht_inv :: "'k dictType \<Rightarrow> ('k, 'v) dictht \<Rightarrow> bool" where
  "ht_inv ty t \<longleftrightarrow>
     length (ht_table t) = ht_size t \<and> ht_sizemask t = ht_size t - 1 \<and>
     ht_used t = length (concat (ht_table t)) \<and>
     (\<forall>i < ht_size t. \<forall>e \<in> set (ht_table t ! i). ht_idx ty t (de_key e) = i)"

definition dict_entries :: "('k, 'v) dict \<Rightarrow> ('k, 'v) dictEntry list" where
  "dict_entries d = concat (ht_table (ht0 d)) @ concat (ht_table (ht1 d))"

definition dict_inv :: "'k dictType \<Rightarrow> ('k \<Rightarrow> 'c) \<Rightarrow> ('k, 'v) dict \<Rightarrow> bool" where
  "dict_inv ty cn d \<longleftrightarrow>
     ht_inv ty (ht0 d) \<and> ht_inv ty (ht1 d) \<and> distinct (map (entry_key cn) (dict_entries d)) \<and>
     (if dictIsRehashing d
      then 0 \<le> rehashidx d \<and> rehashidx d \<le> int (ht_size (ht0 d)) \<and>
           0 < ht_size (ht0 d) \<and> 0 < ht_size (ht1 d) \<and>
           (\<forall>i < nat (rehashidx d). ht_table (ht0 d) ! i = [])
      else ht1 d = dict_reset_ht)"

abbreviation (input) entry_pair :: "('k \<Rightarrow> 'c) \<Rightarrow> ('k, 'v) dictEntry \<Rightarrow> 'c \<times> 'v" where
  "entry_pair cn e \<equiv> (cn (de_key e), de_val e)"

definition dict_map :: "('k \<Rightarrow> 'c) \<Rightarrow> ('k, 'v) dict \<Rightarrow> 'c \<Rightarrow> 'v option" where
  "dict_map cn d = map_of (map (entry_pair cn) (dict_entries d))"

lemma fst_entry_pair [simp]: "fst \<circ> entry_pair cn = entry_key cn"
  by auto

lemma dict_map_mset:
  assumes "mset (dict_entries d) = mset (dict_entries d')" and "distinct (map (entry_key cn) (dict_entries d))"
  shows "dict_map cn d = dict_map cn d'"
  unfolding dict_map_def using assms by (intro map_of_mset_eq) auto

lemma dict_map_Some_iff:
  assumes "distinct (map (entry_key cn) (dict_entries d))"
  shows "dict_map cn d k = Some v \<longleftrightarrow> (\<exists>e \<in> set (dict_entries d). cn (de_key e) = k \<and> de_val e = v)"
  using assms by (auto simp: dict_map_def map_of_eq_Some_iff)

lemma dict_map_None_iff: "dict_map cn d k = None \<longleftrightarrow> k \<notin> entry_key cn ` set (dict_entries d)"
  by (auto simp: dict_map_def map_of_eq_None_iff image_image)

section \<open>One table\<close>

lemma ht_inv_reset [simp]: "ht_inv ty dict_reset_ht"
  by (simp add: ht_inv_def dict_reset_ht_def)

lemma reset_sel [simp]:
  "ht_table dict_reset_ht = []" "ht_size dict_reset_ht = 0" "ht_used dict_reset_ht = 0"
  by (simp_all add: dict_reset_ht_def)

lemma ht_inv_fresh:
  "ht_inv ty \<lparr>ht_table = replicate n [], ht_size = n, ht_sizemask = n - 1, ht_used = 0\<rparr>"
  by (simp add: ht_inv_def)

lemma ht_size_pos: "ht_inv ty t \<Longrightarrow> 0 < ht_size t \<longleftrightarrow> ht_table t \<noteq> []"
  by (metis ht_inv_def length_greater_0_conv)

lemma ht_idx_less: "ht_inv ty t \<Longrightarrow> 0 < ht_size t \<Longrightarrow> ht_idx ty t k < ht_size t"
  using nat_and_mask_less [of "ht_size t"] by (simp add: ht_inv_def ht_idx_def)

lemma ht_idx_cong: "ht_sizemask t = ht_sizemask t' \<Longrightarrow> ht_idx ty t k = ht_idx ty t' k"
  by (simp add: ht_idx_def)

lemma ht_insert:
  assumes inv: "ht_inv ty t" and "0 < ht_size t" and i: "i = ht_idx ty t (de_key e)"
  defines "t' \<equiv> t\<lparr>ht_table := (ht_table t)[i := e # ht_table t ! i], ht_used := ht_used t + 1\<rparr>"
  shows "ht_inv ty t'" and "mset (concat (ht_table t')) = add_mset e (mset (concat (ht_table t)))"
proof -
  have lt: "i < length (ht_table t)"
    using ht_idx_less [OF assms(1,2)] inv i by (simp add: ht_inv_def)
  show m: "mset (concat (ht_table t')) = add_mset e (mset (concat (ht_table t)))"
    using mset_concat_update [OF lt, of "e # ht_table t ! i"] by (simp add: t'_def)
  have "length (concat (ht_table t')) = Suc (length (concat (ht_table t)))"
    using arg_cong [OF m, of size] by (simp only: size_mset size_add_mset)
  moreover have idx: "ht_idx ty t' = ht_idx ty t"
    by (rule ext) (simp add: ht_idx_def t'_def)
  ultimately show "ht_inv ty t'"
    using inv lt i unfolding ht_inv_def idx
    by (auto simp: t'_def nth_list_update)
qed

lemma rehash_chain_props:
  assumes "rehash_chain ty c (t0, t1) = (t0', t1')" and "ht_inv ty t1" and "0 < ht_size t1"
  shows "ht_inv ty t1' \<and> ht_size t1' = ht_size t1 \<and>
    mset (concat (ht_table t1')) = mset (concat (ht_table t1)) + mset c \<and>
    t0' = t0\<lparr>ht_used := ht_used t0 - length c\<rparr>"
  using assms
proof (induction c arbitrary: t0 t1)
  case (Cons e c)
  let ?h = "ht_idx ty t1 (de_key e)"
  let ?t1 = "t1\<lparr>ht_table := (ht_table t1)[?h := e # ht_table t1 ! ?h], ht_used := ht_used t1 + 1\<rparr>"
  have "rehash_chain ty c (t0\<lparr>ht_used := ht_used t0 - 1\<rparr>, ?t1) = (t0', t1')"
    using Cons.prems(1) by (simp add: ht_idx_def Let_def)
  from Cons.IH [OF this] show ?case
    using ht_insert [OF Cons.prems(2,3) refl, of e] Cons.prems(3) by simp
qed simp

lemma skip_empty_bounds:
  "i \<le> length tbl \<Longrightarrow> i \<le> skip_empty tbl i \<and> skip_empty tbl i \<le> length tbl \<and>
     (\<forall>j. i \<le> j \<longrightarrow> j < skip_empty tbl i \<longrightarrow> tbl ! j = []) \<and>
     (skip_empty tbl i < length tbl \<longrightarrow> tbl ! skip_empty tbl i \<noteq> [])"
proof (induction tbl i rule: skip_empty.induct)
  case (1 tbl i)
  show ?case
  proof (cases "i < length tbl \<and> tbl ! i = []")
    case True
    then have "skip_empty tbl i = skip_empty tbl (i + 1)"
      by (subst skip_empty.simps) simp
    moreover have "tbl ! j = []" if "i \<le> j" "j < skip_empty tbl (i + 1)" for j
      using that True "1.IH" by (cases "j = i") auto
    ultimately show ?thesis using True "1.IH" by auto
  next
    case False
    then have "skip_empty tbl i = i"
      by (subst skip_empty.simps) auto
    with False "1.prems" show ?thesis by auto
  qed
qed

lemma skip_empty_found:
  assumes "concat tbl \<noteq> []" and "\<forall>j<i. tbl ! j = []" and "i \<le> length tbl"
  shows "skip_empty tbl i < length tbl" and "tbl ! skip_empty tbl i \<noteq> []"
    and "\<forall>j < skip_empty tbl i. tbl ! j = []"
proof -
  note b = skip_empty_bounds [OF assms(3)]
  show all: "\<forall>j < skip_empty tbl i. tbl ! j = []"
    using b assms(2) by (meson not_le)
  show "skip_empty tbl i < length tbl"
  proof (rule ccontr)
    assume "\<not> ?thesis"
    then have "\<forall>j<length tbl. tbl ! j = []" using b all by simp
    then have "\<forall>c \<in> set tbl. c = []" by (simp add: all_set_conv_all_nth)
    with assms(1) show False by simp
  qed
  with b show "tbl ! skip_empty tbl i \<noteq> []" by blast
qed

section \<open>Rehashing\<close>

text \<open>What every dictionary operation that only moves entries guarantees.\<close>

definition same_content :: "'k dictType \<Rightarrow> ('k \<Rightarrow> 'c) \<Rightarrow> ('k, 'v) dict \<Rightarrow> ('k, 'v) dict \<Rightarrow> bool" where
  "same_content ty cn d d' \<longleftrightarrow>
     dict_inv ty cn d' \<and> mset (dict_entries d') = mset (dict_entries d) \<and> iterators d' = iterators d"

lemma dict_inv_distinct: "dict_inv ty cn d \<Longrightarrow> distinct (map (entry_key cn) (dict_entries d))"
  by (simp add: dict_inv_def)

lemma same_content_refl: "dict_inv ty cn d \<Longrightarrow> same_content ty cn d d"
  by (simp add: same_content_def)

lemma same_content_trans:
  "same_content ty cn d d' \<Longrightarrow> same_content ty cn d' d'' \<Longrightarrow> same_content ty cn d d''"
  by (simp add: same_content_def)

lemma same_content_map:
  "dict_inv ty cn d \<Longrightarrow> same_content ty cn d d' \<Longrightarrow> dict_map cn d' = dict_map cn d"
  unfolding same_content_def
  by (metis dict_inv_distinct dict_map_mset)

lemma rehash_once_finish:
  assumes inv: "dict_inv ty cn d" and "dictIsRehashing d" and "ht_used (ht0 d) = 0"
  shows "same_content ty cn d (d\<lparr>ht0 := ht1 d, ht1 := dict_reset_ht, rehashidx := -1\<rparr>)"
proof -
  have "concat (ht_table (ht0 d)) = []"
    using inv assms(3) by (simp add: dict_inv_def ht_inv_def)
  then have "dict_entries (d\<lparr>ht0 := ht1 d, ht1 := dict_reset_ht, rehashidx := -1\<rparr>) = dict_entries d"
    unfolding dict_entries_def by (simp only: dict.simps) simp
  then show ?thesis
    using inv by (simp add: same_content_def dict_inv_def dictIsRehashing_def)
qed

lemma rehash_once_move:
  assumes inv: "dict_inv ty cn d" and re: "dictIsRehashing d" and used: "ht_used (ht0 d) \<noteq> 0"
    and once: "dict_rehash_once ty d = (d', b)"
  shows "same_content ty cn d d' \<and> b \<and> dictIsRehashing d' \<and> ht_used (ht0 d') < ht_used (ht0 d)"
proof -
  let ?tbl = "ht_table (ht0 d)"
  define idx where "idx = skip_empty ?tbl (nat (rehashidx d))"
  obtain t0 t1 where move: "rehash_chain ty (?tbl ! idx) (ht0 d, ht1 d) = (t0, t1)"
    by fastforce
  have i0: "ht_inv ty (ht0 d)" and i1: "ht_inv ty (ht1 d)" and s1: "0 < ht_size (ht1 d)"
    and dist: "distinct (map (entry_key cn) (dict_entries d))"
    using inv re by (auto simp: dict_inv_def)
  have ne: "concat ?tbl \<noteq> []" using used i0 by (auto simp: ht_inv_def)
  have "\<forall>j<nat (rehashidx d). ?tbl ! j = []" and "nat (rehashidx d) \<le> length ?tbl"
    using inv re i0 by (auto simp: dict_inv_def ht_inv_def)
  note idx = skip_empty_found [OF ne this, folded idx_def]
  note mv = rehash_chain_props [OF move i1 s1]
  have d': "d' = d\<lparr>ht0 := t0\<lparr>ht_table := ?tbl[idx := []]\<rparr>, ht1 := t1, rehashidx := int idx + 1\<rparr>" and b
    using once used mv unfolding dict_rehash_once_def
    by (auto simp: Let_def idx_def [symmetric] move)
  have len: "length (concat (?tbl[idx := []])) + length (?tbl ! idx) = length (concat ?tbl)"
    using length_concat_update [OF idx(1), of "[]"] by simp
  have ms: "mset (concat (?tbl[idx := []])) + mset (?tbl ! idx) = mset (concat ?tbl)"
    using mset_concat_update [OF idx(1), of "[]"] by simp
  have m: "mset (dict_entries d') = mset (dict_entries d)"
    unfolding dict_entries_def d' using mv ms by (simp del: mset_concat add: ac_simps)
  have 0: "ht_inv ty (ht0 d')"
    using i0 len mv idx(1) by (auto simp: ht_inv_def d' ht_idx_def nth_list_update)
  have "distinct (map (entry_key cn) (dict_entries d'))"
    using dist mset_distinct_map_cong [OF m] by blast
  then have "dict_inv ty cn d'"
    using 0 mv s1 idx(1,3) i0
    by (auto simp: dict_inv_def d' dictIsRehashing_def ht_inv_def nth_list_update less_Suc_eq)
  moreover have "ht_used (ht0 d') < ht_used (ht0 d)"
    using mv idx(2) used by (simp add: d')
  ultimately show ?thesis
    using m \<open>b\<close> by (simp add: same_content_def d' dictIsRehashing_def)
qed

lemma rehash_once:
  assumes "dict_inv ty cn d" and "dictIsRehashing d" and "dict_rehash_once ty d = (d', b)"
  shows "same_content ty cn d d' \<and> (b \<longleftrightarrow> ht_used (ht0 d) \<noteq> 0) \<and> (b \<longleftrightarrow> dictIsRehashing d') \<and>
    (b \<longrightarrow> ht_used (ht0 d') < ht_used (ht0 d))"
proof (cases "ht_used (ht0 d) = 0")
  case True
  then show ?thesis
    using rehash_once_finish [OF assms(1,2) True] assms(3)
    by (auto simp: dict_rehash_once_def dictIsRehashing_def)
next
  case False
  then show ?thesis using rehash_once_move [OF assms(1,2) False assms(3)] by simp
qed

lemma rehash_loop:
  assumes "dict_inv ty cn d" and "dictIsRehashing d" and "dict_rehash_loop ty d n = (d', b)"
  shows "same_content ty cn d d' \<and> (b \<longleftrightarrow> dictIsRehashing d') \<and> (b \<longrightarrow> ht_used (ht0 d') + n \<le> ht_used (ht0 d))"
  using assms
proof (induction n arbitrary: d)
  case 0
  then show ?case by (simp add: same_content_refl)
next
  case (Suc n)
  obtain d1 b1 where once: "dict_rehash_once ty d = (d1, b1)" by fastforce
  note r = rehash_once [OF Suc.prems(1,2) once]
  show ?case
  proof (cases b1)
    case True
    then have "dict_rehash_loop ty d1 n = (d', b)" using Suc.prems(3) once by simp
    with Suc.IH [of d1] r True show ?thesis
      by (fastforce simp: same_content_def)
  next
    case False
    then have "d' = d1 \<and> \<not> b" using Suc.prems(3) once by simp
    with False r show ?thesis by blast
  qed
qed

lemma dictRehash_props:
  assumes "dict_inv ty cn d" and "dictRehash ty d n = (d', b)"
  shows "same_content ty cn d d'" and "b \<longleftrightarrow> dictIsRehashing d'"
    and "b \<Longrightarrow> ht_used (ht0 d') + n \<le> ht_used (ht0 d)"
  using assms rehash_loop [of ty cn d n d' b]
  by (auto simp: dictRehash_def same_content_refl split: if_splits)

lemma dictRehashStep_same: "dict_inv ty cn d \<Longrightarrow> same_content ty cn d (dictRehashStep ty d)"
  using dictRehash_props(1) [of ty cn d 1 "fst (dictRehash ty d 1)" "snd (dictRehash ty d 1)"]
  by (simp add: dictRehashStep_def same_content_refl)

abbreviation maybe_step :: "'k dictType \<Rightarrow> ('k, 'v) dict \<Rightarrow> ('k, 'v) dict" where
  "maybe_step ty d \<equiv> (if dictIsRehashing d then dictRehashStep ty d else d)"

lemma maybe_step_same: "dict_inv ty cn d \<Longrightarrow> same_content ty cn d (maybe_step ty d)"
  by (simp add: dictRehashStep_same same_content_refl)

section \<open>Expansion\<close>

lemma dict_next_power_from_pos: "0 < i \<Longrightarrow> 0 < dict_next_power_from i sz"
proof (induction i sz rule: dict_next_power_from.induct)
  case (1 i sz)
  then show ?case by (subst dict_next_power_from.simps) simp
qed

lemma dict_next_power_from_shape:
  "i = 2 ^ a \<Longrightarrow> \<exists>b. dict_next_power_from i sz = 2 ^ b \<and> a \<le> b \<and> sz \<le> 2 ^ b \<and> (a < b \<longrightarrow> 2 ^ b < 2 * sz)"
proof (induction i sz arbitrary: a rule: dict_next_power_from.induct)
  case (1 i sz)
  show ?case
  proof (cases "sz \<le> i")
    case True
    then show ?thesis using "1.prems" by (subst dict_next_power_from.simps) auto
  next
    case False
    have "i * 2 = 2 ^ Suc a" using "1.prems" by simp
    moreover have "\<not> (sz \<le> i \<or> i = 0)" using False "1.prems" by simp
    ultimately obtain b
      where b: "dict_next_power_from (i * 2) sz = 2 ^ b" "Suc a \<le> b" "sz \<le> 2 ^ b" "Suc a < b \<longrightarrow> 2 ^ b < 2 * sz"
      using "1.IH" by blast
    moreover have "dict_next_power_from i sz = dict_next_power_from (i * 2) sz"
      using False "1.prems" by (subst dict_next_power_from.simps) simp
    moreover have "2 ^ b < 2 * sz" if "b = Suc a" using that False "1.prems" by simp
    ultimately show ?thesis by (metis Suc_leD le_neq_implies_less)
  qed
qed

lemma dictNextPower_pos: "0 < dictNextPower sz"
  by (simp add: dictNextPower_def LONG_MAX_def DICT_HT_INITIAL_SIZE_def dict_next_power_from_pos)

lemma dictExpand_same:
  fixes d :: "('k, 'v) dict"
  assumes inv: "dict_inv ty cn d" and ex: "dictExpand d sz = (d', ok)"
  shows "same_content ty cn d d'" and "ok \<Longrightarrow> 0 < ht_size (ht0 d')"
    and "ok \<longleftrightarrow> \<not> dictIsRehashing d \<and> ht_used (ht0 d) \<le> sz"
proof -
  let ?n = "\<lparr>ht_table = replicate (dictNextPower sz) [], ht_size = dictNextPower sz,
              ht_sizemask = dictNextPower sz - 1, ht_used = 0\<rparr>   :: ('k, 'v) dictht"
  have inv0: "ht_inv ty (ht0 d)" using inv by (simp add: dict_inv_def)
  note fresh = ht_inv_fresh [of ty "dictNextPower sz"]
  show iff: "ok \<longleftrightarrow> \<not> dictIsRehashing d \<and> ht_used (ht0 d) \<le> sz"
    using ex by (auto simp: dictExpand_def Let_def split: if_splits)
  show "same_content ty cn d d'"
  proof (cases ok)
    case False
    with ex iff have "d' = d" by (auto simp: dictExpand_def Let_def split: if_splits)
    then show ?thesis using inv by (simp add: same_content_refl)
  next
    case True
    with iff have nr: "\<not> dictIsRehashing d" and "\<not> sz < ht_used (ht0 d)" by auto
    then have d': "d' = (if ht_table (ht0 d) = [] then d\<lparr>ht0 := ?n\<rparr> else d\<lparr>ht1 := ?n, rehashidx := 0\<rparr>)"
      using ex by (auto simp: dictExpand_def Let_def split: if_splits)
    have ht1: "ht1 d = dict_reset_ht" using inv nr by (simp add: dict_inv_def)
    then have ent: "dict_entries d' = dict_entries d"
      by (auto simp: d' dict_entries_def)
    have "0 < ht_size (ht0 d)" if "ht_table (ht0 d) \<noteq> []"
      using that ht_size_pos [OF inv0] by simp
    then show ?thesis
      using inv fresh ht1 nr dictNextPower_pos [of sz] ent
      by (auto simp: d' same_content_def dict_inv_def dictIsRehashing_def)
  qed
  show "0 < ht_size (ht0 d')" if ok
    using that ex dictNextPower_pos [of sz] ht_size_pos [OF inv0]
    by (auto simp: dictExpand_def Let_def split: if_splits)
qed

lemma dictExpandIfNeeded_props:
  assumes inv: "dict_inv ty cn d" and ex: "dictExpandIfNeeded can_resize d = (d', ok)"
  shows "same_content ty cn d d'" and "ok" and "0 < ht_size (ht0 d')"
proof -
  have "same_content ty cn d d' \<and> ok \<and> 0 < ht_size (ht0 d')"
  proof (cases "d' = d \<and> ok \<and> 0 < ht_size (ht0 d)")
    case True
    then show ?thesis using inv by (simp add: same_content_refl)
  next
    case False
    have "\<not> dictIsRehashing d"
      using False ex inv by (auto simp: dictExpandIfNeeded_def dict_inv_def)
    moreover obtain sz where "dictExpand d sz = (d', ok)" and "ht_used (ht0 d) \<le> sz"
      using False ex inv calculation
      by (fastforce simp: dictExpandIfNeeded_def dict_inv_def ht_inv_def split: if_splits)
    ultimately show ?thesis using dictExpand_same [OF inv] by blast
  qed
  then show "same_content ty cn d d'" and "ok" and "0 < ht_size (ht0 d')" by auto
qed

lemma dictResize_same: "dict_inv ty cn d \<Longrightarrow> dictResize can_resize d = (d', ok) \<Longrightarrow> same_content ty cn d d'"
  by (auto simp: dictResize_def Let_def same_content_refl split: if_splits dest: dictExpand_same(1))

section \<open>Search\<close>

lemma dictType_compare: "dictType_ok ty cn \<Longrightarrow> keyCompare ty a b \<longleftrightarrow> cn a = cn b"
  by (simp add: dictType_ok_def)

lemma dictType_hash: "dictType_ok ty cn \<Longrightarrow> cn a = cn b \<Longrightarrow> hashFunction ty a = hashFunction ty b"
  unfolding dictType_ok_def by blast

lemma chain_pos_Some:
  "dictType_ok ty cn \<Longrightarrow> chain_pos ty k c = Some p \<Longrightarrow> p < length c \<and> cn (de_key (c ! p)) = cn k"
  by (induction c arbitrary: p) (auto simp: dictType_compare split: if_splits)

lemma chain_pos_None:
  "dictType_ok ty cn \<Longrightarrow> chain_pos ty k c = None \<longleftrightarrow> cn k \<notin> entry_key cn ` set c"
  by (induction c) (auto simp: dictType_compare)

lemma bucket_of_key:
  assumes inv: "ht_inv ty t" and "e \<in> set (concat (ht_table t))"
  shows "e \<in> set (ht_table t ! ht_idx ty t (de_key e))"
proof -
  obtain i where "i < length (ht_table t)" and e: "e \<in> set (ht_table t ! i)"
    using assms(2) by (auto simp: set_conv_nth [of "ht_table t"])
  then have "ht_idx ty t (de_key e) = i" using inv by (simp add: ht_inv_def)
  with e show ?thesis by simp
qed

definition valid_ref :: "('k, 'v) dict \<Rightarrow> entry_ref \<Rightarrow> bool" where
  "valid_ref d r = (case r of (t, idx, p) \<Rightarrow>
     t \<le> 1 \<and> idx < length (ht_table (dict_ht d t)) \<and> p < length (ht_table (dict_ht d t) ! idx))"

lemma ht_idx_canon: "dictType_ok ty cn \<Longrightarrow> cn a = cn b \<Longrightarrow> ht_idx ty t a = ht_idx ty t b"
  by (simp add: ht_idx_def dictHashKey_def dictType_hash [of ty cn a b])

lemma dict_search_props:
  assumes ty: "dictType_ok ty cn" and inv: "ht_inv ty (dict_ht d t)" and sz: "0 < ht_size (dict_ht d t)"
    and t: "t \<le> 1"
  shows "dict_search ty d k t = None \<Longrightarrow> cn k \<notin> entry_key cn ` set (concat (ht_table (dict_ht d t)))"
    and "dict_search ty d k t = Some r \<Longrightarrow> valid_ref d r \<and> cn (de_key (dict_entry_at d r)) = cn k"
proof -
  have lt: "ht_idx ty (dict_ht d t) k < length (ht_table (dict_ht d t))"
    using ht_idx_less [OF inv sz] inv by (simp add: ht_inv_def)
  show "cn k \<notin> entry_key cn ` set (concat (ht_table (dict_ht d t)))" if none: "dict_search ty d k t = None"
  proof
    assume "cn k \<in> entry_key cn ` set (concat (ht_table (dict_ht d t)))"
    then obtain e where e: "e \<in> set (concat (ht_table (dict_ht d t)))" and k: "cn (de_key e) = cn k"
      by (metis (no_types, lifting) imageE)
    have "e \<in> set (ht_table (dict_ht d t) ! ht_idx ty (dict_ht d t) k)"
      using bucket_of_key [OF inv e] ht_idx_canon [OF ty k, of "dict_ht d t"] by simp
    then have "cn k \<in> entry_key cn ` set (ht_table (dict_ht d t) ! ht_idx ty (dict_ht d t) k)"
      using k by (metis imageI)
    then show False
      using none chain_pos_None [OF ty] by (auto simp: dict_search_def Let_def split: option.splits)
  qed
  show "valid_ref d r \<and> cn (de_key (dict_entry_at d r)) = cn k" if "dict_search ty d k t = Some r"
    using that lt t chain_pos_Some [OF ty]
    by (auto simp: dict_search_def Let_def valid_ref_def dict_entry_at_def split: option.splits)
qed

lemma valid_ref_entry:
  assumes "valid_ref d r"
  shows "dict_entry_at d r \<in> set (dict_entries d)"
proof -
  obtain t idx p where r: "r = (t, idx, p)" by (cases r) auto
  then have "dict_entry_at d r \<in> set (concat (ht_table (dict_ht d t)))"
    using assms by (auto simp: valid_ref_def dict_entry_at_def intro!: bexI [OF _ nth_mem])
  then show ?thesis using assms r by (auto simp: dict_entries_def dict_ht_def split: if_splits)
qed

lemma dict_search_tables_props:
  assumes ty: "dictType_ok ty cn" and inv: "dict_inv ty cn d" and sz: "0 < ht_size (ht0 d)"
  shows "dict_search_tables ty d k = None \<Longrightarrow> dict_map cn d (cn k) = None"
    and "dict_search_tables ty d k = Some r \<Longrightarrow>
           valid_ref d r \<and> cn (de_key (dict_entry_at d r)) = cn k \<and> dict_map cn d (cn k) = Some (de_val (dict_entry_at d r))"
proof -
  have i0: "ht_inv ty (dict_ht d 0)" and i1: "ht_inv ty (dict_ht d 1)" and s0: "0 < ht_size (dict_ht d 0)"
    using inv sz by (auto simp: dict_inv_def dict_ht_def)
  have s1: "0 < ht_size (dict_ht d 1)" if "dictIsRehashing d"
    using that inv by (simp add: dict_inv_def dict_ht_def)
  have e1: "ht_table (dict_ht d 1) = []" if "\<not> dictIsRehashing d"
    using that inv by (simp add: dict_inv_def dict_ht_def)
  note q0 = dict_search_props [OF ty i0 s0, of k] and q1 = dict_search_props [OF ty i1, of k]
  show "dict_map cn d (cn k) = None" if "dict_search_tables ty d k = None"
    using that q0(1) q1(1) [OF s1] e1
    by (auto simp: dict_search_tables_def dict_map_None_iff dict_entries_def dict_ht_def
        split: option.splits if_splits)
  have dist: "distinct (map (entry_key cn) (dict_entries d))" using inv by (rule dict_inv_distinct)
  show "valid_ref d r \<and> cn (de_key (dict_entry_at d r)) = cn k \<and> dict_map cn d (cn k) = Some (de_val (dict_entry_at d r))"
    if "dict_search_tables ty d k = Some r"
  proof -
    have v: "valid_ref d r \<and> cn (de_key (dict_entry_at d r)) = cn k"
      using that q0(2) q1(2) [OF s1]
      by (auto simp: dict_search_tables_def split: option.splits if_splits)
    then show ?thesis
      using valid_ref_entry [of d r] by (auto simp: dict_map_Some_iff [OF dist])
  qed
qed

section \<open>Writing one chain\<close>

definition dict_set_chain :: "('k, 'v) dict \<Rightarrow> nat \<Rightarrow> nat \<Rightarrow> ('k, 'v) dictEntry list \<Rightarrow> nat \<Rightarrow> ('k, 'v) dict" where
  "dict_set_chain d t idx c n =
     dict_set_ht d t ((dict_ht d t)\<lparr>ht_table := (ht_table (dict_ht d t))[idx := c], ht_used := n\<rparr>)"

lemma set_chain_entries:
  assumes "t \<le> 1" and "idx < length (ht_table (dict_ht d t))"
  shows "mset (dict_entries (dict_set_chain d t idx c n)) + mset (ht_table (dict_ht d t) ! idx) =
    mset (dict_entries d) + mset c"
  using assms mset_concat_update [of idx "ht_table (dict_ht d t)" c]
  by (auto simp: dict_set_chain_def dict_entries_def dict_set_ht_def dict_ht_def
      simp del: mset_concat split: if_splits)

lemma set_chain_inv:
  assumes inv: "dict_inv ty cn d" and t: "t \<le> 1" and idx: "idx < length (ht_table (dict_ht d t))"
    and n: "n + length (ht_table (dict_ht d t) ! idx) = ht_used (dict_ht d t) + length c"
    and home: "\<forall>e \<in> set c. ht_idx ty (dict_ht d t) (de_key e) = idx"
    and live: "t = 0 \<longrightarrow> dictIsRehashing d \<longrightarrow> idx < nat (rehashidx d) \<longrightarrow> c = []"
    and dist: "distinct (map (entry_key cn) (dict_entries (dict_set_chain d t idx c n)))"
  shows "dict_inv ty cn (dict_set_chain d t idx c n)"
proof -
  let ?h = "(dict_ht d t)\<lparr>ht_table := (ht_table (dict_ht d t))[idx := c], ht_used := n\<rparr>"
  have h: "ht_inv ty (dict_ht d t)"
    using inv by (simp add: dict_inv_def dict_ht_def)
  have "length (concat ((ht_table (dict_ht d t))[idx := c])) = n"
    using length_concat_update [OF idx, of c] n h by (simp add: ht_inv_def)
  moreover have "ht_idx ty ?h = ht_idx ty (dict_ht d t)" by (rule ext) (simp add: ht_idx_def)
  ultimately have h': "ht_inv ty ?h"
    using h idx home unfolding ht_inv_def by (simp add: nth_list_update)
  show ?thesis
  proof (cases "t = 0")
    case True
    then show ?thesis
      using inv h' dist live
      by (auto simp: dict_inv_def dict_set_chain_def dict_set_ht_def dict_ht_def
          dictIsRehashing_def nth_list_update nth_update_Nil)
  next
    case False
    then have "dictIsRehashing d"
      using idx inv by (auto simp: dict_inv_def dict_ht_def split: if_splits)
    with False show ?thesis
      using inv h' dist by (auto simp: dict_inv_def dict_set_chain_def dict_set_ht_def dict_ht_def
          dictIsRehashing_def)
  qed
qed

lemma chain_home:
  assumes "dict_inv ty cn d" and "idx < length (ht_table (dict_ht d t))"
    and "e \<in> set (ht_table (dict_ht d t) ! idx)"
  shows "ht_idx ty (dict_ht d t) (de_key e) = idx"
  using assms by (auto simp: dict_inv_def ht_inv_def dict_ht_def split: if_splits)

lemma chain_live:
  assumes "dict_inv ty cn d" and "ht_table (dict_ht d t) ! idx \<noteq> []"
  shows "t = 0 \<longrightarrow> dictIsRehashing d \<longrightarrow> \<not> idx < nat (rehashidx d)"
  using assms by (auto simp: dict_inv_def dict_ht_def)

lemma used_pos:
  assumes "dict_inv ty cn d" and "idx < length (ht_table (dict_ht d t))"
  shows "length (ht_table (dict_ht d t) ! idx) \<le> ht_used (dict_ht d t)"
proof -
  have "ht_used (dict_ht d t) = length (concat (ht_table (dict_ht d t)))"
    using assms(1) by (simp add: dict_inv_def ht_inv_def dict_ht_def)
  then show ?thesis using length_concat_update [OF assms(2), of "[]"] by simp
qed

section \<open>Value update, removal, insertion of an entry\<close>

text \<open>Two entry lists that differ in one entry: what the maps they stand for differ in.\<close>

lemma map_pairs_mset:
  assumes "mset xs = add_mset e (mset ys)" and "distinct (map (entry_key cn) xs)"
  shows "map_of (map (entry_pair cn) xs) = (map_of (map (entry_pair cn) ys))(cn (de_key e) \<mapsto> de_val e)"
    and "cn (de_key e) \<notin> entry_key cn ` set ys" and "distinct (map (entry_key cn) ys)"
proof -
  have m: "mset xs = mset (e # ys)" using assms(1) by simp
  have d: "distinct (map (entry_key cn) (e # ys))"
    using assms(2) mset_distinct_map_cong [OF m, of "entry_key cn"] by simp
  then show "cn (de_key e) \<notin> entry_key cn ` set ys" and "distinct (map (entry_key cn) ys)" by auto
  have "map_of (map (entry_pair cn) xs) = map_of (map (entry_pair cn) (e # ys))"
    using m d assms(2) by (intro map_of_mset_eq) auto
  then show "map_of (map (entry_pair cn) xs) = (map_of (map (entry_pair cn) ys))(cn (de_key e) \<mapsto> de_val e)"
    by simp
qed

lemma dictSetVal_props:
  assumes inv: "dict_inv ty cn d" and v: "valid_ref d r"
  defines "k \<equiv> cn (de_key (dict_entry_at d r))"
  shows "dict_inv ty cn (dictSetVal d r x)" and "dict_map cn (dictSetVal d r x) = (dict_map cn d)(k \<mapsto> x)"
    and "iterators (dictSetVal d r x) = iterators d"
proof -
  obtain t idx p where r: "r = (t, idx, p)" by (cases r) auto
  let ?c = "ht_table (dict_ht d t) ! idx"
  let ?c' = "?c[p := (?c ! p)\<lparr>de_val := x\<rparr>]"
  let ?d = "dict_set_chain d t idx ?c' (ht_used (dict_ht d t))"
  have t: "t \<le> 1" and idx: "idx < length (ht_table (dict_ht d t))" and p: "p < length ?c"
    using v r by (auto simp: valid_ref_def)
  have d': "dictSetVal d r x = ?d"
    by (simp add: r dictSetVal_def dict_set_chain_def Let_def)
  have k: "k = cn (de_key (?c ! p))" by (simp add: k_def r dict_entry_at_def)
  define e e' where e: "e = ?c ! p" and e': "e' = (?c ! p)\<lparr>de_val := x\<rparr>"
  have c: "mset ?c' + {#e#} = mset ?c + {#e'#}"
    using p by (simp add: mset_update e e')
  have ent: "mset (dict_entries ?d) + {#e#} = mset (dict_entries d) + {#e'#}"
    by (rule mset_swap_one [OF set_chain_entries [OF t idx] c])
  have "e \<in># mset (dict_entries d)"
    using valid_ref_entry [OF v] by (simp add: r dict_entry_at_def e)
  then obtain ys where ys: "mset (dict_entries d) = add_mset e (mset ys)"
    by (metis ex_mset multi_member_split)
  then have ys': "mset (dict_entries ?d) = add_mset e' (mset ys)" using ent by simp
  note dist = dict_inv_distinct [OF inv]
  have "mset (map (entry_key cn) (dict_entries ?d)) = mset (map (entry_key cn) (dict_entries d))"
    using ys ys' by (simp add: e e')
  then have dist': "distinct (map (entry_key cn) (dict_entries ?d))"
    using dist mset_eq_imp_distinct_iff by blast
  have "set ?c' \<subseteq> insert e' (set ?c)" by (simp add: e' set_update_subset_insert)
  then have "\<forall>y \<in> set ?c'. ht_idx ty (dict_ht d t) (de_key y) = idx"
    using chain_home [OF inv idx] p by (auto simp: e')
  moreover have "?c \<noteq> []" using p by auto
  ultimately show "dict_inv ty cn (dictSetVal d r x)"
    unfolding d' using set_chain_inv [OF inv t idx _ _ _ dist'] chain_live [OF inv] by simp
  show "dict_map cn (dictSetVal d r x) = (dict_map cn d)(k \<mapsto> x)"
    unfolding d' dict_map_def map_pairs_mset(1) [OF ys' dist'] map_pairs_mset(1) [OF ys dist]
    by (simp add: e e' k)
  show "iterators (dictSetVal d r x) = iterators d"
    by (simp add: r dictSetVal_def Let_def dict_set_ht_def)
qed

lemma dict_unlink_props:
  assumes inv: "dict_inv ty cn d" and v: "valid_ref d r"
  defines "k \<equiv> cn (de_key (dict_entry_at d r))"
  shows "dict_inv ty cn (dict_unlink d r)" and "dict_map cn (dict_unlink d r) = (dict_map cn d)(k := None)"
    and "iterators (dict_unlink d r) = iterators d" and "Suc (dictSize (dict_unlink d r)) = dictSize d"
proof -
  obtain t idx p where r: "r = (t, idx, p)" by (cases r) auto
  let ?c = "ht_table (dict_ht d t) ! idx"
  let ?c' = "take p ?c @ drop (p + 1) ?c"
  let ?d = "dict_set_chain d t idx ?c' (ht_used (dict_ht d t) - 1)"
  have t: "t \<le> 1" and idx: "idx < length (ht_table (dict_ht d t))" and p: "p < length ?c"
    using v r by (auto simp: valid_ref_def)
  have d': "dict_unlink d r = ?d"
    by (simp add: r dict_unlink_def dict_set_chain_def Let_def)
  define e where e: "e = ?c ! p"
  have k: "k = cn (de_key e)" by (simp add: k_def r dict_entry_at_def e)
  have c: "mset ?c = add_mset e (mset ?c')"
    unfolding e by (rule mset_remove_nth [OF p])
  have ys: "mset (dict_entries d) = add_mset e (mset (dict_entries ?d))"
    by (rule mset_drop_one [OF set_chain_entries [OF t idx] c])
  note m = map_pairs_mset [OF ys dict_inv_distinct [OF inv]]
  have "set ?c' \<subseteq> set ?c" using c by (metis set_mset_mset subset_insertI set_mset_add_mset_insert)
  then have "\<forall>y \<in> set ?c'. ht_idx ty (dict_ht d t) (de_key y) = idx"
    using chain_home [OF inv idx] by blast
  moreover have "?c \<noteq> []" using p by auto
  moreover have "0 < ht_used (dict_ht d t)" using used_pos [OF inv idx] p by linarith
  then have "ht_used (dict_ht d t) - 1 + length ?c = ht_used (dict_ht d t) + length ?c'"
    using p by simp
  ultimately show "dict_inv ty cn (dict_unlink d r)"
    unfolding d' using set_chain_inv [OF inv t idx _ _ _ m(3)] chain_live [OF inv] by simp
  show "dict_map cn (dict_unlink d r) = (dict_map cn d)(k := None)"
    unfolding d' dict_map_def m(1) using m(2)
    by (auto simp: k fun_eq_iff map_of_eq_None_iff image_image)
  show "iterators (dict_unlink d r) = iterators d"
    by (simp add: r dict_unlink_def Let_def dict_set_ht_def)
  show "Suc (dictSize (dict_unlink d r)) = dictSize d"
    using \<open>0 < ht_used (dict_ht d t)\<close>
    by (auto simp: r dict_unlink_def Let_def dict_set_ht_def dictSize_def dict_ht_def split: if_splits)
qed

end
