(* ===== verification/Interfaces.thy ===== *)
theory Interfaces
  imports Prelude
begin

text \<open>
  The interfaces between components: what a caller relies on, stated once as a locale, with
  the consequences the callers use.  Each is interpreted on the model of the component that
  provides it, in that component's theory.
\<close>

section \<open>A finite map with a stateful lookup\<close>

text \<open>
  The dictionary as its callers see it.  Lookup returns a new state because the
  implementation may reorganise itself while it searches.  Keys that compare equal have one
  canonical form \<open>cn k\<close>; the map is over canonical forms.
\<close>

locale finite_map =
  fixes inv :: "'s \<Rightarrow> bool"
    and cn :: "'k \<Rightarrow> 'c"
    and abs :: "'s \<Rightarrow> 'c \<Rightarrow> 'v option"
    and empty :: 's
    and find :: "'s \<Rightarrow> 'k \<Rightarrow> 's \<times> 'v option"
    and add :: "'s \<Rightarrow> 'k \<Rightarrow> 'v \<Rightarrow> 's \<times> bool"
    and replace :: "'s \<Rightarrow> 'k \<Rightarrow> 'v \<Rightarrow> 's \<times> bool"
    and del :: "'s \<Rightarrow> 'k \<Rightarrow> 's \<times> bool"
    and count :: "'s \<Rightarrow> nat"
  assumes inv_empty: "inv empty"
    and abs_empty: "abs empty = Map.empty"
    and count_card: "inv s \<Longrightarrow> count s = card (dom (abs s))"
    and finite_dom: "inv s \<Longrightarrow> finite (dom (abs s))"
    and find_law: "inv s \<Longrightarrow> find s k = (s', r) \<Longrightarrow> inv s' \<and> abs s' = abs s \<and> r = abs s (cn k)"
    and add_law: "inv s \<Longrightarrow> add s k v = (s', ok) \<Longrightarrow>
      inv s' \<and> (ok \<longleftrightarrow> abs s (cn k) = None) \<and> abs s' = (if ok then (abs s)(cn k \<mapsto> v) else abs s)"
    and replace_law: "inv s \<Longrightarrow> replace s k v = (s', fresh) \<Longrightarrow>
      inv s' \<and> (fresh \<longleftrightarrow> abs s (cn k) = None) \<and> abs s' = (abs s)(cn k \<mapsto> v)"
    and del_law: "inv s \<Longrightarrow> del s k = (s', ok) \<Longrightarrow>
      inv s' \<and> (ok \<longleftrightarrow> abs s (cn k) \<noteq> None) \<and> abs s' = (abs s)(cn k := None)"
begin

lemma find_sel:
  assumes "inv s"
  shows "inv (fst (find s k))" "abs (fst (find s k)) = abs s" "snd (find s k) = abs s (cn k)"
  using find_law [OF assms, of k "fst (find s k)" "snd (find s k)"] by simp_all

lemma add_sel:
  assumes "inv s"
  shows "inv (fst (add s k v))" "snd (add s k v) \<longleftrightarrow> abs s (cn k) = None"
    "abs (fst (add s k v)) = (if abs s (cn k) = None then (abs s)(cn k \<mapsto> v) else abs s)"
  using add_law [OF assms, of k v "fst (add s k v)" "snd (add s k v)"] by simp_all

lemma replace_sel:
  assumes "inv s"
  shows "inv (fst (replace s k v))" "snd (replace s k v) \<longleftrightarrow> abs s (cn k) = None"
    "abs (fst (replace s k v)) = (abs s)(cn k \<mapsto> v)"
  using replace_law [OF assms, of k v "fst (replace s k v)" "snd (replace s k v)"] by simp_all

lemma del_sel:
  assumes "inv s"
  shows "inv (fst (del s k))" "snd (del s k) \<longleftrightarrow> abs s (cn k) \<noteq> None"
    "abs (fst (del s k)) = (abs s)(cn k := None)"
  using del_law [OF assms, of k "fst (del s k)" "snd (del s k)"] by simp_all

lemma find_after_replace: "inv s \<Longrightarrow> snd (find (fst (replace s k v)) k') = (if cn k' = cn k then Some v else abs s (cn k'))"
  by (simp add: find_sel replace_sel)

lemma find_after_del: "inv s \<Longrightarrow> snd (find (fst (del s k)) k') = (if cn k' = cn k then None else abs s (cn k'))"
  by (simp add: find_sel del_sel)

lemma add_after_del: "inv s \<Longrightarrow> snd (add (fst (del s k)) k v)"
  by (simp add: add_sel del_sel)

lemma count_del:
  assumes "inv s" and "snd (del s k)"
  shows "Suc (count (fst (del s k))) = count s"
proof -
  have "dom (abs (fst (del s k))) = dom (abs s) - {cn k}" and "cn k \<in> dom (abs s)"
    using assms by (auto simp: del_sel)
  then show ?thesis
    using finite_dom [OF assms(1)] card_Suc_Diff1 [of "dom (abs s)" "cn k"]
    by (simp only: count_card assms(1) del_sel(1))
qed

end

section \<open>A set with a bounded number of elements\<close>

locale bounded_set =
  fixes inv :: "'s \<Rightarrow> bool"
    and abs :: "'s \<Rightarrow> 'a set"
    and cap :: nat
    and empty :: 's
    and add :: "'s \<Rightarrow> 'a \<Rightarrow> 's \<times> bool"
    and del :: "'s \<Rightarrow> 'a \<Rightarrow> 's \<times> bool"
    and mem :: "'s \<Rightarrow> 'a \<Rightarrow> bool"
    and count :: "'s \<Rightarrow> nat"
  assumes inv_empty: "inv empty"
    and abs_empty: "abs empty = {}"
    and finite_abs: "inv s \<Longrightarrow> finite (abs s)"
    and count_card: "inv s \<Longrightarrow> count s = card (abs s)"
    and add_law: "inv s \<Longrightarrow> card (abs s) < cap \<Longrightarrow> add s x = (s', ok) \<Longrightarrow>
      inv s' \<and> (ok \<longleftrightarrow> x \<notin> abs s) \<and> abs s' = insert x (abs s)"
    and del_law: "inv s \<Longrightarrow> del s x = (s', ok) \<Longrightarrow>
      inv s' \<and> (ok \<longleftrightarrow> x \<in> abs s) \<and> abs s' = abs s - {x}"
    and mem_law: "inv s \<Longrightarrow> mem s x \<longleftrightarrow> x \<in> abs s"

section \<open>A set of objects\<close>

text \<open>
  A set as the set commands see it: objects with the same \<open>key\<close> are the same element.  An
  insertion may fail in the implementation; it promises not to.  A test for membership may
  reorganise the set.  \<open>elems\<close> are the objects in the order an iteration returns them.
\<close>

locale object_set =
  fixes inv :: "'s \<Rightarrow> bool"
    and key :: "'a \<Rightarrow> 'k"
    and abs :: "'s \<Rightarrow> 'k set"
    and add :: "'s \<Rightarrow> 'a \<Rightarrow> ('s \<times> bool) option"
    and del :: "'s \<Rightarrow> 'a \<Rightarrow> 's \<times> bool"
    and mem :: "'s \<Rightarrow> 'a \<Rightarrow> 's \<times> bool"
    and count :: "'s \<Rightarrow> nat"
    and elems :: "'s \<Rightarrow> 'a list"
  assumes count_card: "inv s \<Longrightarrow> count s = card (abs s)"
    and add_law: "inv s \<Longrightarrow>
      wp (add s x) (\<lambda>(s', ok). inv s' \<and> (ok \<longleftrightarrow> key x \<notin> abs s) \<and> abs s' = insert (key x) (abs s))"
    and del_law: "inv s \<Longrightarrow> del s x = (s', ok) \<Longrightarrow>
      inv s' \<and> (ok \<longleftrightarrow> key x \<in> abs s) \<and> abs s' = abs s - {key x}"
    and mem_law: "inv s \<Longrightarrow> mem s x = (s', yes) \<Longrightarrow> inv s' \<and> (yes \<longleftrightarrow> key x \<in> abs s) \<and> abs s' = abs s"
    and elems_law: "inv s \<Longrightarrow> distinct (map key (elems s)) \<and> key ` set (elems s) = abs s"
begin

lemma finite_abs: "inv s \<Longrightarrow> finite (abs s)"
  using elems_law by (metis finite_imageI List.finite_set)

lemma count_zero: "inv s \<Longrightarrow> count s = 0 \<longleftrightarrow> abs s = {}"
  by (simp add: count_card finite_abs)

lemma count_elems: "inv s \<Longrightarrow> count s = length (elems s)"
  using elems_law [of s] by (metis count_card distinct_card length_map list.set_map)

text \<open>Adding or removing the elements of a list, with the number of those that counted.\<close>

definition add_counting :: "'a \<Rightarrow> 's \<times> int \<Rightarrow> ('s \<times> int) option" where
  "add_counting x p = (case p of (s, n) \<Rightarrow>
     do { (s, ok) \<leftarrow> add s x; Some (s, if ok then n + 1 else n) })"

definition del_counting :: "'a \<Rightarrow> 's \<times> int \<Rightarrow> ('s \<times> int) option" where
  "del_counting x p = (case p of (s, n) \<Rightarrow>
     let (s, ok) = del s x in Some (s, if ok then n - 1 else n))"

lemma add_all:
  assumes "inv s"
  shows "wp (foldM add_counting xs (s, n)) (\<lambda>(s', n'). inv s' \<and> abs s' = abs s \<union> key ` set xs \<and>
    n' = n + int (card (abs s')) - int (card (abs s)))"
proof -
  define I where "I = (\<lambda>ys (t, m). inv t \<and> abs t \<union> key ` set ys = abs s \<union> key ` set xs \<and>
    m = n + int (card (abs t)) - int (card (abs s)))"
  have "wp (foldM add_counting xs (s, n)) (I [])"
  proof (rule foldM_inv)
    show "I xs (s, n)" using assms by (simp add: I_def)
    show "wp (add_counting x p) (I ys)" if "I (x # ys) p" for x ys p
    proof -
      obtain t m where p: "p = (t, m)" by fastforce
      have t: "inv t" using that by (simp add: I_def p)
      from add_law [OF t, of x] show ?thesis
        unfolding add_counting_def p prod.case wp_bind
        by (rule wp_mono) (use that in \<open>auto simp: I_def p finite_abs [OF t] insert_absorb\<close>)
    qed
  qed
  then show ?thesis by (rule wp_mono) (simp add: I_def split_beta)
qed

lemma del_all:
  assumes "inv s"
  shows "wp (foldM del_counting xs (s, n)) (\<lambda>(s', n'). inv s' \<and> abs s' = abs s - key ` set xs \<and>
    n' = n + int (card (abs s')) - int (card (abs s)))"
proof -
  define I where "I = (\<lambda>ys (t, m). inv t \<and> abs t - key ` set ys = abs s - key ` set xs \<and>
    m = n + int (card (abs t)) - int (card (abs s)))"
  have "wp (foldM del_counting xs (s, n)) (I [])"
  proof (rule foldM_inv)
    show "I xs (s, n)" using assms by (simp add: I_def)
    show "wp (del_counting x p) (I ys)" if "I (x # ys) p" for x ys p
    proof -
      obtain t m where p: "p = (t, m)" by fastforce
      have t: "inv t" "abs t - key ` set (x # ys) = abs s - key ` set xs" using that by (simp_all add: I_def p)
      obtain t' ok where d: "del t x = (t', ok)" by fastforce
      note l = del_law [OF t(1) d]
      have "key x \<in> abs t \<Longrightarrow> Suc (card (abs t - {key x})) = card (abs t)"
        by (rule card_Suc_Diff1 [OF finite_abs [OF t(1)]])
      moreover have "abs t - {key x} - key ` set ys = abs s - key ` set xs" using t(2) by auto
      ultimately show ?thesis using that l by (auto simp: del_counting_def I_def p d)
    qed
  qed
  then show ?thesis by (rule wp_mono) (simp add: I_def split_beta)
qed

end

section \<open>A growable byte string\<close>

locale byte_string =
  fixes inv :: "'s \<Rightarrow> bool"
    and str :: "'s \<Rightarrow> bytes"
    and make :: "bytes \<Rightarrow> 's"
    and cat :: "'s \<Rightarrow> bytes \<Rightarrow> 's"
  assumes make_law: "inv (make t) \<and> str (make t) = t"
    and cat_law: "inv s \<Longrightarrow> inv (cat s t) \<and> str (cat s t) = str s @ t"
begin

lemma cat_all: "inv s \<Longrightarrow> inv (foldl cat s ts) \<and> str (foldl cat s ts) = str s @ concat ts"
  by (induction ts arbitrary: s) (auto simp: cat_law)

lemma build: "inv (foldl cat (make t) ts) \<and> str (foldl cat (make t) ts) = t @ concat ts"
  using cat_all [of "make t" ts] make_law by auto

end

section \<open>Runs of operations\<close>

text \<open>A deterministic component driven by a list of operations, with the answers it gives.\<close>

fun run :: "('s \<Rightarrow> 'op \<Rightarrow> 's \<times> 'r) \<Rightarrow> 's \<Rightarrow> 'op list \<Rightarrow> 's \<times> 'r list" where
  "run step s [] = (s, [])"
| "run step s (op # ops) =
     (let (s', r) = step s op; (s'', rs) = run step s' ops in (s'', r # rs))"

text \<open>
  Simulation: if related states answer every operation alike and stay related, whole runs
  answer alike.
\<close>

lemma run_simulates:
  assumes "\<And>s t op. R s t \<Longrightarrow> R (fst (step s op)) (fst (step' t op)) \<and> snd (step s op) = snd (step' t op)"
    and "R s t"
  shows "R (fst (run step s ops)) (fst (run step' t ops)) \<and> snd (run step s ops) = snd (run step' t ops)"
  using assms(2)
proof (induction ops arbitrary: s t)
  case (Cons op ops)
  note a = assms(1) [OF Cons.prems, of op]
  with Cons.IH [of "fst (step s op)" "fst (step' t op)"] show ?case
    by (simp add: Let_def split_beta)
qed simp

lemma run_map: "run step s (map f ops) = run (\<lambda>s op. step s (f op)) s ops"
  by (induction ops arbitrary: s) simp_all

lemma run_invariant:
  assumes "\<And>s op. I s \<Longrightarrow> I (fst (step s op))" and "I s"
  shows "I (fst (run step s ops))"
  using assms(2)
proof (induction ops arbitrary: s)
  case (Cons op ops)
  with assms(1) show ?case by (simp add: Let_def split_beta)
qed simp

section \<open>Runs on a bounded set\<close>

datatype 'a set_op = SAdd 'a | SDel 'a | SMem 'a | SCount

datatype set_res = SFlag bool | SNum nat

fun set_step :: "('s \<Rightarrow> 'a \<Rightarrow> 's \<times> bool) \<Rightarrow> ('s \<Rightarrow> 'a \<Rightarrow> 's \<times> bool) \<Rightarrow> ('s \<Rightarrow> 'a \<Rightarrow> bool) \<Rightarrow> ('s \<Rightarrow> nat) \<Rightarrow>
    's \<Rightarrow> 'a set_op \<Rightarrow> 's \<times> set_res" where
  "set_step add del mem sz s (SAdd x) = (let (s', ok) = add s x in (s', SFlag ok))"
| "set_step add del mem sz s (SDel x) = (let (s', ok) = del s x in (s', SFlag ok))"
| "set_step add del mem sz s (SMem x) = (s, SFlag (mem s x))"
| "set_step add del mem sz s SCount = (s, SNum (sz s))"

definition pure_set_step :: "'a set \<Rightarrow> 'a set_op \<Rightarrow> 'a set \<times> set_res" where
  "pure_set_step = set_step (\<lambda>S x. (insert x S, x \<notin> S)) (\<lambda>S x. (S - {x}, x \<in> S)) (\<lambda>S x. x \<in> S) card"

lemma pure_set_step_simps [simp]:
  "pure_set_step S (SAdd x) = (insert x S, SFlag (x \<notin> S))"
  "pure_set_step S (SDel x) = (S - {x}, SFlag (x \<in> S))"
  "pure_set_step S (SMem x) = (S, SFlag (x \<in> S))"
  "pure_set_step S SCount = (S, SNum (card S))"
  by (simp_all add: pure_set_step_def)

context bounded_set
begin

lemma run_refines:
  assumes "inv s" and "card (abs s) + length ops \<le> cap"
  shows "inv (fst (run (set_step add del mem count) s ops)) \<and>
    abs (fst (run (set_step add del mem count) s ops)) = fst (run pure_set_step (abs s) ops) \<and>
    snd (run (set_step add del mem count) s ops) = snd (run pure_set_step (abs s) ops)"
  using assms
proof (induction ops arbitrary: s)
  case (Cons op ops)
  obtain s' r where st: "set_step add del mem count s op = (s', r)" by fastforce
  have step: "inv s' \<and> pure_set_step (abs s) op = (abs s', r) \<and> card (abs s') \<le> Suc (card (abs s))"
  proof (cases op)
    case (SAdd x)
    obtain ok where a: "add s x = (s', ok)" and "r = SFlag ok"
      using st SAdd by (auto split: prod.splits)
    with add_law [OF Cons.prems(1) _ a] Cons.prems SAdd show ?thesis
      by (simp add: card_insert_le_m1 card_insert_if [OF finite_abs])
  next
    case (SDel x)
    obtain ok where a: "del s x = (s', ok)" and "r = SFlag ok"
      using st SDel by (auto split: prod.splits)
    with del_law [OF Cons.prems(1) a] SDel show ?thesis
      using card_mono [OF finite_abs [OF Cons.prems(1)], of "abs s - {x}"] by simp
  qed (use st Cons.prems in \<open>auto simp: mem_law count_card\<close>)
  with Cons.IH [of s'] Cons.prems st show ?case by (simp add: Let_def split_beta)
qed simp

end

end
