(* ===== verification/Dict_Map.thy ===== *)
theory Dict_Map
  imports Dict_Refine Interfaces
begin

text \<open>
  The dictionary's operations against the finite map: each operation of \<^verbatim>\<open>dict.c\<close> meets
  the interface \<open>finite_map\<close>, and every run of operations, with rehashing steps and
  resizes anywhere in between, answers as the map does.
\<close>

section \<open>The operations\<close>

lemma dict_inv_create [simp]: "dict_inv ty cn dictCreate"
  by (simp add: dict_inv_def dictCreate_def dictIsRehashing_def dict_entries_def)

lemma dict_map_create [simp]: "dict_map cn dictCreate = Map.empty"
  by (simp add: dict_map_def dictCreate_def dict_entries_def)

lemma dict_inv_empty: "dict_inv ty cn (dictEmpty d)" and dict_map_empty: "dict_map cn (dictEmpty d) = Map.empty"
  by (simp_all add: dict_inv_def dictEmpty_def dictIsRehashing_def dict_entries_def dict_map_def)

lemma same_contentD:
  assumes "dict_inv ty cn d" and "same_content ty cn d d'"
  shows "dict_inv ty cn d'" "dict_map cn d' = dict_map cn d" "iterators d' = iterators d"
  using assms same_content_map by (auto simp: same_content_def)

lemma empty_table_map:
  assumes "dict_inv ty cn d" and "ht_size (ht0 d) = 0"
  shows "dict_map cn d = Map.empty"
proof -
  have "ht_table (ht0 d) = []" using assms by (simp add: dict_inv_def ht_inv_def)
  moreover have "ht_table (ht1 d) = []"
    using assms by (auto simp: dict_inv_def dict_reset_ht_def split: if_splits)
  ultimately show ?thesis by (simp add: dict_map_def dict_entries_def)
qed

lemma maybe_step_size:
  assumes "dict_inv ty cn d" and "0 < ht_size (ht0 d)"
  shows "0 < ht_size (ht0 (maybe_step ty d))"
proof (cases "dictIsRehashing d \<and> iterators d = 0")
  case True
  have "0 < ht_size (ht1 d)" using assms True by (simp add: dict_inv_def)
  moreover obtain d' b where once: "dict_rehash_once ty d = (d', b)" by fastforce
  moreover have "dict_inv ty cn d'" and "b \<longleftrightarrow> dictIsRehashing d'"
    using rehash_once [OF assms(1) _ once] True by (auto simp: same_content_def)
  ultimately have "0 < ht_size (ht0 d')"
    by (cases b) (auto simp: dict_inv_def dict_rehash_once_def Let_def split: if_splits prod.splits)
  with True once show ?thesis
    by (cases b) (simp_all add: dictRehashStep_def dictRehash_def)
qed (use assms in \<open>auto simp: dictRehashStep_def\<close>)

lemma dictFind_props:
  assumes ty: "dictType_ok ty cn" and inv: "dict_inv ty cn d" and f: "dictFind ty d k = (d', r)"
  shows "same_content ty cn d d'" and "r = None \<longleftrightarrow> dict_map cn d (cn k) = None"
    and "r = Some he \<Longrightarrow> valid_ref d' he \<and> cn (de_key (dict_entry_at d' he)) = cn k \<and>
           dict_map cn d (cn k) = Some (de_val (dict_entry_at d' he))"
proof -
  have "same_content ty cn d d' \<and> (r = None \<longleftrightarrow> dict_map cn d (cn k) = None) \<and>
    (\<forall>he. r = Some he \<longrightarrow> valid_ref d' he \<and> cn (de_key (dict_entry_at d' he)) = cn k \<and>
           dict_map cn d (cn k) = Some (de_val (dict_entry_at d' he)))"
  proof (cases "ht_size (ht0 d) = 0")
    case True
    then show ?thesis
      using f inv by (auto simp: dictFind_def same_content_refl empty_table_map)
  next
    case False
    note m = maybe_step_same [OF inv] and sz = maybe_step_size [OF inv]
    have d': "d' = maybe_step ty d" and r: "r = dict_search_tables ty d' k"
      using f False by (auto simp: dictFind_def Let_def)
    note s = dict_search_tables_props [OF ty same_contentD(1) [OF inv m] sz, folded d', of k]
    have "r = None \<Longrightarrow> dict_map cn d' (cn k) = None"
      and "\<And>he. r = Some he \<Longrightarrow> valid_ref d' he \<and> cn (de_key (dict_entry_at d' he)) = cn k \<and>
             dict_map cn d' (cn k) = Some (de_val (dict_entry_at d' he))"
      using s False r d' by simp_all
    then show ?thesis
      using m d' same_contentD(2) [OF inv m] by (cases r) auto
  qed
  then show "same_content ty cn d d'" and "r = None \<longleftrightarrow> dict_map cn d (cn k) = None"
    and "r = Some he \<Longrightarrow> valid_ref d' he \<and> cn (de_key (dict_entry_at d' he)) = cn k \<and>
           dict_map cn d (cn k) = Some (de_val (dict_entry_at d' he))" by auto
qed

lemma dictFetchValue_props:
  assumes "dictType_ok ty cn" and "dict_inv ty cn d" and "dictFetchValue ty d k = (d', r)"
  shows "dict_inv ty cn d'" "dict_map cn d' = dict_map cn d" "r = dict_map cn d (cn k)" "iterators d' = iterators d"
proof -
  obtain d1 f where f: "dictFind ty d k = (d1, f)" by fastforce
  note p = dictFind_props [OF assms(1,2) f]
  from p(1) have s: "same_content ty cn d d1" .
  have "d' = d1 \<and> r = dict_map cn d (cn k)"
    using assms(3) f p(2,3) by (cases f) (auto simp: dictFetchValue_def)
  then show "dict_inv ty cn d'" "dict_map cn d' = dict_map cn d" "r = dict_map cn d (cn k)" "iterators d' = iterators d"
    using same_contentD [OF assms(2) s] by auto
qed

section \<open>Insertion\<close>

lemma dictKeyIndex_props:
  assumes ty: "dictType_ok ty cn" and inv: "dict_inv ty cn d" and ki: "dictKeyIndex ty cr d k = (d', r)"
  shows "same_content ty cn d d'" and "r = None \<longleftrightarrow> dict_map cn d (cn k) \<noteq> None"
    and "r = Some i \<Longrightarrow> i = ht_idx ty (dict_ht d' (if dictIsRehashing d' then 1 else 0)) k"
    and "0 < ht_size (ht0 d')"
proof -
  obtain d1 ok where ex: "dictExpandIfNeeded cr d = (d1, ok)" by fastforce
  note e = dictExpandIfNeeded_props [OF inv ex]
  note s = dict_search_tables_props [OF ty same_contentD(1) [OF inv e(1)] e(3), of k]
  have "d' = d1 \<and> (r = None \<longleftrightarrow> dict_map cn d1 (cn k) \<noteq> None) \<and>
     (\<forall>i. r = Some i \<longrightarrow> i = ht_idx ty (dict_ht d1 (if dictIsRehashing d1 then 1 else 0)) k)"
    using ki e(2) s
    by (cases "dict_search_tables ty d1 k") (auto simp: dictKeyIndex_def ex)
  then show "same_content ty cn d d'" and "r = None \<longleftrightarrow> dict_map cn d (cn k) \<noteq> None"
    and "r = Some i \<Longrightarrow> i = ht_idx ty (dict_ht d' (if dictIsRehashing d' then 1 else 0)) k"
    and "0 < ht_size (ht0 d')"
    using e same_contentD [OF inv e(1)] by auto
qed

lemma insert_entry:
  fixes d :: "('k, 'v) dict" and v :: 'v
  assumes inv: "dict_inv ty cn d" and sz: "0 < ht_size (ht0 d)" and new: "dict_map cn d (cn k) = None"
  defines "t \<equiv> (if dictIsRehashing d then 1 else 0)"
  defines "i \<equiv> ht_idx ty (dict_ht d t) k"
  defines "d' \<equiv> dict_set_chain d t i (\<lparr>de_key = k, de_val = v\<rparr> # ht_table (dict_ht d t) ! i) (ht_used (dict_ht d t) + 1)"
  shows "dict_inv ty cn d'" and "dict_map cn d' = (dict_map cn d)(cn k \<mapsto> v)" and "valid_ref d' (t, i, 0)"
    and "cn (de_key (dict_entry_at d' (t, i, 0))) = cn k"
proof -
  let ?e = "\<lparr>de_key = k, de_val = v\<rparr>"
  have t: "t \<le> 1" by (simp add: t_def)
  have h: "ht_inv ty (dict_ht d t)" and "0 < ht_size (dict_ht d t)"
    using inv sz by (auto simp: dict_inv_def dict_ht_def t_def)
  then have i: "i < length (ht_table (dict_ht d t))"
    using ht_idx_less [of ty "dict_ht d t" k] by (simp add: i_def ht_inv_def)
  have ms: "mset (dict_entries d') = add_mset ?e (mset (dict_entries d))"
    using set_chain_entries [OF t i, of "?e # ht_table (dict_ht d t) ! i" "ht_used (dict_ht d t) + 1"]
    by (simp add: d'_def)
  have ms': "mset (dict_entries d') = mset (?e # dict_entries d)" using ms by simp
  have "distinct (map (entry_key cn) (?e # dict_entries d))"
    using new dict_inv_distinct [OF inv] by (auto simp: dict_map_None_iff)
  then have dist: "distinct (map (entry_key cn) (dict_entries d'))"
    using mset_distinct_map_cong [OF ms', of "entry_key cn"] by blast
  show "dict_inv ty cn d'"
    unfolding d'_def
  proof (rule set_chain_inv [OF inv t i])
    show "\<forall>e \<in> set (?e # ht_table (dict_ht d t) ! i). ht_idx ty (dict_ht d t) (de_key e) = i"
      using chain_home [OF inv i] by (auto simp: i_def)
  qed (use dist in \<open>auto simp: d'_def t_def split: if_splits\<close>)
  show "dict_map cn d' = (dict_map cn d)(cn k \<mapsto> v)"
    unfolding dict_map_def using map_pairs_mset(1) [OF ms dist] by simp
  show "valid_ref d' (t, i, 0)" and "cn (de_key (dict_entry_at d' (t, i, 0))) = cn k"
    using t i by (auto simp: valid_ref_def d'_def dict_set_chain_def dict_set_ht_def dict_ht_def
        dict_entry_at_def)
qed

lemma dictAddRaw_props:
  assumes ty: "dictType_ok ty cn" and inv: "dict_inv ty cn d" and add: "dictAddRaw ty cr d k v0 = (d', r)"
  shows "dict_inv ty cn d'" and "r = None \<longleftrightarrow> dict_map cn d (cn k) \<noteq> None"
    and "dict_map cn d' = (if r = None then dict_map cn d else (dict_map cn d)(cn k \<mapsto> v0))"
    and "r = Some he \<Longrightarrow> valid_ref d' he \<and> cn (de_key (dict_entry_at d' he)) = cn k"
proof -
  note m = maybe_step_same [OF inv]
  note inv1 = same_contentD(1) [OF inv m]
  obtain d2 i where ki: "dictKeyIndex ty cr (maybe_step ty d) k = (d2, i)" by fastforce
  note q = dictKeyIndex_props [OF ty inv1 ki]
  note inv2 = same_contentD(1) [OF inv1 q(1)]
  have map2: "dict_map cn d2 = dict_map cn d"
    using same_contentD(2) [OF inv m] same_contentD(2) [OF inv1 q(1)] by simp
  have "dict_inv ty cn d' \<and> (r = None \<longleftrightarrow> dict_map cn d (cn k) \<noteq> None) \<and>
    dict_map cn d' = (if r = None then dict_map cn d else (dict_map cn d)(cn k \<mapsto> v0)) \<and>
    (\<forall>he. r = Some he \<longrightarrow> valid_ref d' he \<and> cn (de_key (dict_entry_at d' he)) = cn k)"
  proof (cases i)
    case None
    then have "d' = d2 \<and> r = None" using add by (simp add: dictAddRaw_def ki Let_def)
    then show ?thesis using None q(2) inv2 map2 same_contentD(2) [OF inv m] by simp
  next
    case (Some j)
    let ?t = "if dictIsRehashing d2 then 1 else 0 :: nat"
    have new: "dict_map cn d2 (cn k) = None"
      using q(2) Some map2 same_contentD(2) [OF inv m] by simp
    have j: "j = ht_idx ty (dict_ht d2 ?t) k" using q(3) Some by simp
    have d': "d' = dict_set_chain d2 ?t j (\<lparr>de_key = k, de_val = v0\<rparr> # ht_table (dict_ht d2 ?t) ! j)
           (ht_used (dict_ht d2 ?t) + 1)" and r: "r = Some (?t, j, 0)"
      using add Some by (auto simp: dictAddRaw_def ki Let_def dict_set_chain_def)
    show ?thesis
      using insert_entry [OF inv2 q(4) new, of v0] map2 new unfolding d' r j by simp
  qed
  then show "dict_inv ty cn d'" and "r = None \<longleftrightarrow> dict_map cn d (cn k) \<noteq> None"
    and "dict_map cn d' = (if r = None then dict_map cn d else (dict_map cn d)(cn k \<mapsto> v0))"
    and "r = Some he \<Longrightarrow> valid_ref d' he \<and> cn (de_key (dict_entry_at d' he)) = cn k" by auto
qed

lemma dictAdd_props:
  assumes ty: "dictType_ok ty cn" and inv: "dict_inv ty cn d" and add: "dictAdd ty cr d k v = (d', ok)"
  shows "dict_inv ty cn d'" and "ok \<longleftrightarrow> dict_map cn d (cn k) = None"
    and "dict_map cn d' = (if ok then (dict_map cn d)(cn k \<mapsto> v) else dict_map cn d)"
proof -
  obtain d1 r where raw: "dictAddRaw ty cr d k v = (d1, r)" by fastforce
  note p = dictAddRaw_props [OF ty inv raw]
  have "dict_inv ty cn d' \<and> (ok \<longleftrightarrow> dict_map cn d (cn k) = None) \<and>
    dict_map cn d' = (if ok then (dict_map cn d)(cn k \<mapsto> v) else dict_map cn d)"
  proof (cases r)
    case None
    then show ?thesis using add p by (auto simp: dictAdd_def raw)
  next
    case (Some he)
    then have v: "valid_ref d1 he" and k: "cn (de_key (dict_entry_at d1 he)) = cn k" using p(4) by auto
    have "d' = dictSetVal d1 he v \<and> ok" using add Some by (simp add: dictAdd_def raw)
    then show ?thesis using dictSetVal_props [OF p(1) v, of v] k p(2,3) Some by simp
  qed
  then show "dict_inv ty cn d'" and "ok \<longleftrightarrow> dict_map cn d (cn k) = None"
    and "dict_map cn d' = (if ok then (dict_map cn d)(cn k \<mapsto> v) else dict_map cn d)" by auto
qed

lemma dictReplace_props:
  assumes ty: "dictType_ok ty cn" and inv: "dict_inv ty cn d" and rep: "dictReplace ty cr d k v = (d', fresh)"
  shows "dict_inv ty cn d'" and "fresh \<longleftrightarrow> dict_map cn d (cn k) = None" and "dict_map cn d' = (dict_map cn d)(cn k \<mapsto> v)"
proof -
  obtain d1 ok where add: "dictAdd ty cr d k v = (d1, ok)" by fastforce
  note p = dictAdd_props [OF ty inv add]
  obtain d2 r where f: "dictFind ty d1 k = (d2, r)" by fastforce
  note q = dictFind_props [OF ty p(1) f]
  note s = same_contentD [OF p(1) q(1)]
  have "dict_inv ty cn d' \<and> (fresh \<longleftrightarrow> dict_map cn d (cn k) = None) \<and> dict_map cn d' = (dict_map cn d)(cn k \<mapsto> v)"
  proof (cases ok)
    case True
    then show ?thesis using rep p by (simp add: dictReplace_def add)
  next
    case False
    then obtain he where he: "r = Some he" using p q(2) by (cases r) auto
    have "d' = dictSetVal d2 he v" and "\<not> fresh"
      using rep False he by (auto simp: dictReplace_def add f)
    moreover have "valid_ref d2 he" and "cn (de_key (dict_entry_at d2 he)) = cn k" using q(3) [OF he] by auto
    ultimately show ?thesis using dictSetVal_props [OF s(1), of he v] s(2) p False by simp
  qed
  then show "dict_inv ty cn d'" and "fresh \<longleftrightarrow> dict_map cn d (cn k) = None" and "dict_map cn d' = (dict_map cn d)(cn k \<mapsto> v)"
    by auto
qed

lemma dictDelete_props:
  assumes ty: "dictType_ok ty cn" and inv: "dict_inv ty cn d" and del: "dictDelete ty d k = (d', ok)"
  shows "dict_inv ty cn d'" and "ok \<longleftrightarrow> dict_map cn d (cn k) \<noteq> None" and "dict_map cn d' = (dict_map cn d)(cn k := None)"
proof -
  have "dict_inv ty cn d' \<and> (ok \<longleftrightarrow> dict_map cn d (cn k) \<noteq> None) \<and> dict_map cn d' = (dict_map cn d)(cn k := None)"
  proof (cases "ht_size (ht0 d) = 0")
    case True
    then show ?thesis
      using del inv by (auto simp: dictDelete_def dictGenericDelete_def empty_table_map)
  next
    case False
    note m = maybe_step_same [OF inv] and sz = maybe_step_size [OF inv]
    note c = same_contentD [OF inv m]
    note s = dict_search_tables_props [OF ty c(1) sz, of k]
    show ?thesis
    proof (cases "dict_search_tables ty (maybe_step ty d) k")
      case None
      with False del s(1) c show ?thesis
        by (auto simp: dictDelete_def dictGenericDelete_def Let_def fun_upd_idem)
    next
      case (Some r)
      then have "d' = dict_unlink (maybe_step ty d) r" and ok
        using False del by (auto simp: dictDelete_def dictGenericDelete_def Let_def)
      then show ?thesis
        using dict_unlink_props [OF c(1), of r] s(2) [OF _ Some] False c(2) by simp
    qed
  qed
  then show "dict_inv ty cn d'" and "ok \<longleftrightarrow> dict_map cn d (cn k) \<noteq> None" and "dict_map cn d' = (dict_map cn d)(cn k := None)"
    by auto
qed

lemma dictSize_card:
  assumes "dict_inv ty cn d"
  shows "dictSize d = card (dom (dict_map cn d))"
proof -
  have "dictSize d = length (dict_entries d)"
    using assms by (simp add: dictSize_def dict_entries_def dict_inv_def ht_inv_def)
  also have "\<dots> = card (entry_key cn ` set (dict_entries d))"
    using distinct_card [OF dict_inv_distinct [OF assms]] by simp
  also have "entry_key cn ` set (dict_entries d) = dom (dict_map cn d)"
    by (auto simp: dict_map_def dom_map_of_conv_image_fst image_image)
  finally show ?thesis .
qed

section \<open>Resizing and rehashing\<close>

text \<open>
  C31. While a rehash runs, neither the assertion of \<^verbatim>\<open>dictRehash\<close> nor the scan for the next
  non-empty bucket can fail: in every state the invariant allows, \<open>rehashidx\<close> is a bucket
  of the old table and a non-empty bucket lies at or after it, as long as one entry is left.
\<close>

theorem dict_rehash_step_safe:
  fixes d :: "('k, 'v) dict"
  assumes "dict_inv ty cn d" and "dictIsRehashing d"
  shows "rehash_in_bounds d \<and> dict_inv ty cn (fst (dictRehash ty d n)) \<and>
    (dictIsRehashing (fst (dictRehash ty d n)) \<longrightarrow> rehash_in_bounds (fst (dictRehash ty d n)))"
proof -
  have safe: "rehash_in_bounds d" if inv: "dict_inv ty cn d" and "dictIsRehashing d" for d :: "('k, 'v) dict"
  proof -
    let ?tbl = "ht_table (ht0 d)"
    have len: "length ?tbl = ht_size (ht0 d)" and "ht_used (ht0 d) = length (concat ?tbl)"
      and emp: "\<forall>j<nat (rehashidx d). ?tbl ! j = []" and ri: "0 \<le> rehashidx d" "rehashidx d \<le> int (ht_size (ht0 d))"
      using that by (auto simp: dict_inv_def ht_inv_def)
    show ?thesis
    proof (unfold rehash_in_bounds_def, intro impI)
      assume "ht_used (ht0 d) \<noteq> 0"
      then have "concat ?tbl \<noteq> []" using \<open>ht_used (ht0 d) = length (concat ?tbl)\<close> by auto
      moreover have le: "nat (rehashidx d) \<le> length ?tbl" using ri len by simp
      ultimately have "skip_empty ?tbl (nat (rehashidx d)) < length ?tbl"
        and "nat (rehashidx d) \<le> skip_empty ?tbl (nat (rehashidx d))"
        using skip_empty_found(1) [OF _ emp le] skip_empty_bounds [OF le] by blast+
      then show "0 \<le> rehashidx d \<and> rehashidx d < int (ht_size (ht0 d)) \<and>
          skip_empty ?tbl (nat (rehashidx d)) < ht_size (ht0 d)"
        using ri len by linarith
    qed
  qed
  obtain d' b where r: "dictRehash ty d n = (d', b)" by fastforce
  then have "dict_inv ty cn d'" using dictRehash_props(1) [OF assms(1)] by (auto simp: same_content_def)
  with safe assms r show ?thesis by simp
qed

text \<open>
  A rehash finishes: after as many steps as there are entries left in the old table,
  plus one, the dictionary has a single table again, with the same content.
\<close>

theorem dict_rehash_terminates:
  assumes "dict_inv ty cn d" and "ht_used (ht0 d) < n"
  shows "\<not> dictIsRehashing (fst (dictRehash ty d n)) \<and> \<not> snd (dictRehash ty d n) \<and>
    dict_map cn (fst (dictRehash ty d n)) = dict_map cn d"
proof -
  obtain d' b where r: "dictRehash ty d n = (d', b)" by fastforce
  note p = dictRehash_props [OF assms(1) r]
  have "\<not> b" using p(3) assms(2) by linarith
  then show ?thesis using p r same_contentD(2) [OF assms(1) p(1)] by simp
qed

text \<open>
  The size of a new table is the smallest power of two that is at least the size asked
  for and at least 4.
\<close>

theorem dictNextPower_least:
  assumes "sz < LONG_MAX"
  shows "(\<exists>a. dictNextPower sz = 2 ^ a) \<and> max 4 sz \<le> dictNextPower sz \<and>
    (\<forall>b. max 4 sz \<le> 2 ^ b \<longrightarrow> dictNextPower sz \<le> 2 ^ b)"
proof -
  obtain a where a: "dictNextPower sz = 2 ^ a" "2 \<le> a" "sz \<le> 2 ^ a" "2 < a \<longrightarrow> 2 ^ a < 2 * sz"
    using dict_next_power_from_shape [of 4 2 sz] assms
    by (auto simp: dictNextPower_def DICT_HT_INITIAL_SIZE_def)
  have four: "(2::nat) ^ 2 \<le> 2 ^ a" using a(2) by (rule power_increasing) simp
  have least: "2 ^ a \<le> (2::nat) ^ b" if b: "max 4 sz \<le> 2 ^ b" for b
  proof (rule ccontr)
    assume "\<not> ?thesis"
    then have "(2::nat) ^ b < 2 ^ a" by simp
    then have "b < a" by simp
    then have "(2::nat) ^ Suc b \<le> 2 ^ a" by (intro power_increasing) auto
    moreover have "(2::nat) ^ 2 \<le> 2 ^ b" using b by simp
    then have "2 \<le> b" using power_le_imp_le_exp [of "2::nat" 2 b] by simp
    ultimately show False using \<open>b < a\<close> a(4) b by simp
  qed
  show ?thesis using a four least by auto
qed

section \<open>The dictionary is a finite map\<close>

text \<open>
  A dictionary type whose key comparison is equality of canonical forms provides the
  interface.
\<close>

locale dict_type =
  fixes ty :: "'k dictType" and cn :: "'k \<Rightarrow> 'c" and can_resize :: bool
  assumes compare_eq: "dictType_ok ty cn"

sublocale dict_type \<subseteq> finite_map "dict_inv ty cn" cn "dict_map cn" dictCreate "dictFetchValue ty"
  "dictAdd ty can_resize" "dictReplace ty can_resize" "dictDelete ty" dictSize
proof unfold_locales
  show "dict_inv ty cn d \<Longrightarrow> finite (dom (dict_map cn d))" for d
    by (simp add: dict_map_def finite_dom_map_of)
  show "dict_inv ty cn d' \<and> dict_map cn d' = dict_map cn d \<and> r = dict_map cn d (cn k)"
    if "dict_inv ty cn d" "dictFetchValue ty d k = (d', r)" for d k d' r
    using dictFetchValue_props [OF compare_eq that] by simp
  show "dict_inv ty cn d' \<and> (ok \<longleftrightarrow> dict_map cn d (cn k) = None) \<and>
      dict_map cn d' = (if ok then (dict_map cn d)(cn k \<mapsto> v) else dict_map cn d)"
    if "dict_inv ty cn d" "dictAdd ty can_resize d k v = (d', ok)" for d k v d' ok
    using dictAdd_props [OF compare_eq that] by simp
  show "dict_inv ty cn d' \<and> (fresh \<longleftrightarrow> dict_map cn d (cn k) = None) \<and> dict_map cn d' = (dict_map cn d)(cn k \<mapsto> v)"
    if "dict_inv ty cn d" "dictReplace ty can_resize d k v = (d', fresh)" for d k v d' fresh
    using dictReplace_props [OF compare_eq that] by simp
  show "dict_inv ty cn d' \<and> (ok \<longleftrightarrow> dict_map cn d (cn k) \<noteq> None) \<and> dict_map cn d' = (dict_map cn d)(cn k := None)"
    if "dict_inv ty cn d" "dictDelete ty d k = (d', ok)" for d k d' ok
    using dictDelete_props [OF compare_eq that] by simp
qed (simp_all add: dictSize_card)

context dict_type
begin

lemma provides_map:
  "finite_map (dict_inv ty cn) cn (dict_map cn) dictCreate (dictFetchValue ty)
     (dictAdd ty can_resize) (dictReplace ty can_resize) (dictDelete ty) dictSize"
  by unfold_locales

end

lemmas dict_type_finite_map = dict_type.provides_map [OF dict_type.intro]

text \<open>
  A dictionary driven by a list of calls, among them explicit rehashing steps
  (\<^verbatim>\<open>dictRehash\<close>), shrinking (\<^verbatim>\<open>dictResize\<close>) and switching automatic resizing on and off;
  and the finite map driven by the same calls.
\<close>

datatype ('k, 'v) dict_op =
    DFetch 'k | DAdd 'k 'v | DReplace 'k 'v | DDelete 'k | DSize | DEmpty
  | DRehash nat | DResize | DCanResize bool

datatype 'v dict_res = RVal "'v option" | RFlag bool | RSize nat | RDone

fun dict_step :: "'k dictType \<Rightarrow> bool \<times> ('k, 'v) dict \<Rightarrow> ('k, 'v) dict_op \<Rightarrow> (bool \<times> ('k, 'v) dict) \<times> 'v dict_res" where
  "dict_step ty (cr, d) (DFetch k) = (let (d', r) = dictFetchValue ty d k in ((cr, d'), RVal r))"
| "dict_step ty (cr, d) (DAdd k v) = (let (d', ok) = dictAdd ty cr d k v in ((cr, d'), RFlag ok))"
| "dict_step ty (cr, d) (DReplace k v) = (let (d', fresh) = dictReplace ty cr d k v in ((cr, d'), RFlag fresh))"
| "dict_step ty (cr, d) (DDelete k) = (let (d', ok) = dictDelete ty d k in ((cr, d'), RFlag ok))"
| "dict_step ty (cr, d) DSize = ((cr, d), RSize (dictSize d))"
| "dict_step ty (cr, d) DEmpty = ((cr, dictEmpty d), RDone)"
| "dict_step ty (cr, d) (DRehash n) = ((cr, fst (dictRehash ty d n)), RDone)"
| "dict_step ty (cr, d) DResize = ((cr, fst (dictResize cr d)), RDone)"
| "dict_step ty (cr, d) (DCanResize b) = ((b, d), RDone)"

fun map_step :: "('k \<Rightarrow> 'c) \<Rightarrow> ('c \<rightharpoonup> 'v) \<Rightarrow> ('k, 'v) dict_op \<Rightarrow> ('c \<rightharpoonup> 'v) \<times> 'v dict_res" where
  "map_step cn m (DFetch k) = (m, RVal (m (cn k)))"
| "map_step cn m (DAdd k v) = (if m (cn k) = None then (m(cn k \<mapsto> v), RFlag True) else (m, RFlag False))"
| "map_step cn m (DReplace k v) = (m(cn k \<mapsto> v), RFlag (m (cn k) = None))"
| "map_step cn m (DDelete k) = (m(cn k := None), RFlag (m (cn k) \<noteq> None))"
| "map_step cn m DSize = (m, RSize (card (dom m)))"
| "map_step cn m DEmpty = (Map.empty, RDone)"
| "map_step cn m (DRehash n) = (m, RDone)"
| "map_step cn m DResize = (m, RDone)"
| "map_step cn m (DCanResize b) = (m, RDone)"

definition dict_rel :: "'k dictType \<Rightarrow> ('k \<Rightarrow> 'c) \<Rightarrow> bool \<times> ('k, 'v) dict \<Rightarrow> ('c \<rightharpoonup> 'v) \<Rightarrow> bool" where
  "dict_rel ty cn s m \<longleftrightarrow> dict_inv ty cn (snd s) \<and> dict_map cn (snd s) = m"

lemma dict_step_simulates:
  assumes ty: "dictType_ok ty cn" and rel: "dict_rel ty cn s m"
  shows "dict_rel ty cn (fst (dict_step ty s op)) (fst (map_step cn m op)) \<and>
    snd (dict_step ty s op) = snd (map_step cn m op)"
proof -
  obtain cr d where s: "s = (cr, d)" by (cases s)
  have inv: "dict_inv ty cn d" and m: "m = dict_map cn d" using rel s by (auto simp: dict_rel_def)
  have rehash: "same_content ty cn d (fst (dictRehash ty d n))" for n
    using dictRehash_props(1) [OF inv] by (metis prod.collapse)
  have resize: "same_content ty cn d (fst (dictResize cr d))"
    using dictResize_same [OF inv] by (metis prod.collapse)
  note fm = dict_type_finite_map [OF ty]
  show ?thesis
    by (cases op)
      (simp_all add: s m inv dict_rel_def Let_def split_beta dict_inv_empty dict_map_empty
        same_contentD [OF inv rehash] same_contentD [OF inv resize]
        finite_map.find_sel [OF fm inv] finite_map.add_sel [OF fm inv]
        finite_map.replace_sel [OF fm inv] finite_map.del_sel [OF fm inv] dictSize_card [OF inv])
qed


end
