(* ===== verification/Dict_Scan.thy ===== *)
theory Dict_Scan
  imports Dict_Map
begin

text \<open>
  The stateless cursor of \<^verbatim>\<open>dictScan\<close> (\<^verbatim>\<open>src/redis-2.8/src/dict.c\<close>): the bit reversal of
  cursors, one scanning step over one or two tables, and what a whole iteration returns
  when the dictionary is modified and resized between the calls.
\<close>

section \<open>Model\<close>

text \<open>\<^verbatim>\<open>rev\<close>: the loop halves \<open>s\<close> from 64 and swaps ever smaller groups of bits.\<close>

fun rev_loop :: "nat \<Rightarrow> u64 \<Rightarrow> u64 \<Rightarrow> u64" where
  "rev_loop s m v =
     (let s' = s div 2 in
      if 0 < s'
      then let m' = m XOR push_bit s' m;
               v' = (drop_bit s' v AND m') OR (push_bit s' v AND NOT m')
           in rev_loop s' m' v'
      else v)"

declare rev_loop.simps [simp del]

definition rev_bits :: "u64 \<Rightarrow> u64" where
  "rev_bits v = rev_loop 64 (NOT 0) v"

definition scan_bucket :: "('k, 'v) dictht \<Rightarrow> u64 \<Rightarrow> ('k, 'v) dictEntry list" where
  "scan_bucket t i = ht_table t ! unat i"

partial_function (option) scan_expansions ::
  "('k, 'v) dictht \<Rightarrow> u64 \<Rightarrow> u64 \<Rightarrow> u64 \<Rightarrow> ('k, 'v) dictEntry list
     \<Rightarrow> (u64 \<times> ('k, 'v) dictEntry list) option" where
  "scan_expansions t1 m0 m1 v out =
     (let out' = out @ scan_bucket t1 (v AND m1);
          v' = (((v OR m0) + 1) AND NOT m0) OR (v AND m0)
      in if v' AND (m0 XOR m1) \<noteq> 0 then scan_expansions t1 m0 m1 v' out' else Some (v', out'))"

definition scan_advance :: "u64 \<Rightarrow> u64 \<Rightarrow> u64" where
  "scan_advance m0 v = rev_bits (rev_bits (v OR NOT m0) + 1)"

text \<open>The result: the next cursor and the entries handed to the callback, in order.\<close>

definition dictScan :: "('k, 'v) dict \<Rightarrow> u64 \<Rightarrow> (u64 \<times> ('k, 'v) dictEntry list) option" where
  "dictScan d v =
     (if dictSize d = 0 then Some (0, [])
      else if \<not> dictIsRehashing d then
        let t0 = ht0 d; m0 = of_nat (ht_sizemask t0)
        in Some (scan_advance m0 v, scan_bucket t0 (v AND m0))
      else
        let (t0, t1) = (if ht_size (ht1 d) < ht_size (ht0 d) then (ht1 d, ht0 d) else (ht0 d, ht1 d));
            m0 = of_nat (ht_sizemask t0); m1 = of_nat (ht_sizemask t1)
        in case scan_expansions t1 m0 m1 v (scan_bucket t0 (v AND m0)) of
             None \<Rightarrow> None
           | Some (v', out) \<Rightarrow> Some (scan_advance m0 v', out))"

text \<open>Successive calls, each on the state the dictionary is in by then.\<close>

fun scan_calls :: "('k, 'v) dict list \<Rightarrow> u64 \<Rightarrow> (u64 \<times> ('k, 'v) dictEntry list) option" where
  "scan_calls [] v = Some (v, [])"
| "scan_calls (d # ds) v =
     (case dictScan d v of
        None \<Rightarrow> None
      | Some (v', out) \<Rightarrow>
          (case scan_calls ds v' of
             None \<Rightarrow> None
           | Some (v'', out') \<Rightarrow> Some (v'', out @ out')))"

section \<open>Bit reversal\<close>

definition swap_groups :: "nat \<Rightarrow> u64 \<Rightarrow> u64 \<Rightarrow> u64" where
  "swap_groups s m v = (drop_bit s v AND m) OR (push_bit s v AND NOT m)"

lemma rev_loop_swap:
  "1 < s \<Longrightarrow> s div 2 = h \<Longrightarrow> m XOR push_bit h m = m' \<Longrightarrow>
     rev_loop s m v = rev_loop h m' (swap_groups h m' v)"
  by (subst rev_loop.simps) (auto simp: Let_def swap_groups_def div_eq_0_iff)

lemma rev_loop_stop: "rev_loop 1 m v = v"
  by (subst rev_loop.simps) simp

lemma rev_masks:
  "(NOT 0 :: u64) XOR push_bit 32 (NOT 0) = 0x00000000FFFFFFFF"
  "(0x00000000FFFFFFFF :: u64) XOR push_bit 16 0x00000000FFFFFFFF = 0x0000FFFF0000FFFF"
  "(0x0000FFFF0000FFFF :: u64) XOR push_bit 8 0x0000FFFF0000FFFF = 0x00FF00FF00FF00FF"
  "(0x00FF00FF00FF00FF :: u64) XOR push_bit 4 0x00FF00FF00FF00FF = 0x0F0F0F0F0F0F0F0F"
  "(0x0F0F0F0F0F0F0F0F :: u64) XOR push_bit 2 0x0F0F0F0F0F0F0F0F = 0x3333333333333333"
  "(0x3333333333333333 :: u64) XOR push_bit 1 0x3333333333333333 = 0x5555555555555555"
  by code_simp+

lemma rev_bits_unroll:
  "rev_bits v =
    swap_groups 1 0x5555555555555555 (swap_groups 2 0x3333333333333333 (swap_groups 4 0x0F0F0F0F0F0F0F0F
    (swap_groups 8 0x00FF00FF00FF00FF (swap_groups 16 0x0000FFFF0000FFFF (swap_groups 32 0x00000000FFFFFFFF v)))))"
  unfolding rev_bits_def
  by (simp only: rev_loop_swap [OF _ _ rev_masks(1), of 64] rev_loop_swap [OF _ _ rev_masks(2), of 32]
      rev_loop_swap [OF _ _ rev_masks(3), of 16] rev_loop_swap [OF _ _ rev_masks(4), of 8]
      rev_loop_swap [OF _ _ rev_masks(5), of 4] rev_loop_swap [OF _ _ rev_masks(6), of 2]
      rev_loop_stop)

text \<open>A swap of groups of \<open>s\<close> bits flips bit \<open>log s\<close> of every bit's position.\<close>

lemma bit_swap_groups:
  "i < 64 \<Longrightarrow> bit (swap_groups s m v) i =
     (if bit m i then i + s < 64 \<and> bit v (i + s) else s \<le> i \<and> bit v (i - s))"
  by (auto simp: swap_groups_def bit_simps add.commute dest: bit_imp_le_length)

lemma bit_rev_bits:
  assumes "i < 64"
  shows "bit (rev_bits v) i = bit v (63 - i)"
proof -
  have "\<forall>i \<in> set [0..<64]. bit (rev_bits v) i = bit v (63 - i)"
    unfolding rev_bits_unroll
    by (simp add: upt_rec bit_swap_groups numeral_2_eq_2 [symmetric] numeral_3_eq_3 [symmetric])
  with assms show ?thesis by simp
qed

lemma bit_rev_bits_iff: "bit (rev_bits v) i \<longleftrightarrow> i < 64 \<and> bit v (63 - i)"
  using bit_rev_bits [of i v] bit_imp_le_length [of "rev_bits v" i] by auto

lemma rev_bits_involution [simp]: "rev_bits (rev_bits v) = v"
  by (rule bit_word_eqI) (simp add: bit_rev_bits)

text \<open>
  The rank of a word is the number its reversed bits spell: the order in which an iteration
  visits cursors.  With a mask of \<open>k\<close> bits, two words select the same bucket exactly when
  their ranks agree in the \<open>k\<close> high bits.
\<close>

definition rank :: "u64 \<Rightarrow> nat" where
  "rank v = unat (rev_bits v)"

lemma rank_less: "rank v < 2 ^ 64"
  using unsigned_less [of "rev_bits v"] by (simp add: rank_def)

lemma rank_zero_iff: "rank v = 0 \<longleftrightarrow> v = 0"
proof -
  have "rev_bits 0 = 0" by (rule bit_word_eqI) (simp add: bit_rev_bits)
  then show ?thesis unfolding rank_def unat_eq_zero by (metis rev_bits_involution)
qed

lemma mask_drop_rev:
  assumes "k \<le> 64"
  shows "v AND mask k = h AND mask k \<longleftrightarrow> drop_bit (64 - k) (rev_bits v) = drop_bit (64 - k) (rev_bits h)"
    (is "?L \<longleftrightarrow> ?R")
proof -
  have r: "bit (drop_bit (64 - k) (rev_bits x)) i = (i < k \<and> bit x (k - 1 - i))" if "i < 64" for x i
  proof (cases "i < k")
    case True
    then have "63 - (64 - k + i) = k - 1 - i" using assms by simp
    with True assms show ?thesis by (simp add: bit_drop_bit_eq bit_rev_bits)
  next
    case False
    then show ?thesis using assms by (auto simp: bit_drop_bit_eq dest: bit_imp_le_length)
  qed
  show ?thesis
  proof
    assume L: ?L
    show ?R
    proof (rule bit_word_eqI)
      fix i assume i: "i < LENGTH(64)"
      have "bit v (k - 1 - i) = bit h (k - 1 - i)" if "i < k"
      proof -
        have "bit (v AND mask k) (k - 1 - i) = bit (h AND mask k) (k - 1 - i)" using L by simp
        moreover have "k - 1 - i < 64" using that assms by simp
        ultimately show ?thesis using that by (simp add: bit_simps)
      qed
      then show "bit (drop_bit (64 - k) (rev_bits v)) i = bit (drop_bit (64 - k) (rev_bits h)) i"
        using r i by auto
    qed
  next
    assume R: ?R
    show ?L
    proof (rule bit_word_eqI)
      fix i assume "i < LENGTH(64)"
      moreover have "bit v i = bit h i" if "i < k"
      proof -
        have "k - 1 - (k - 1 - i) = i" and "k - 1 - i < 64" and "k - 1 - i < k" using that assms by auto
        then show ?thesis using r [of "k - 1 - i"] R by metis
      qed
      ultimately show "bit (v AND mask k) i = bit (h AND mask k) i"
        by (auto simp: bit_simps)
    qed
  qed
qed

lemma unat_drop_bit: "unat (drop_bit n (w :: 'a::len word)) = unat w div 2 ^ n"
  unfolding unat_drop_bit_eq by (rule drop_bit_eq_div)

lemma unat_and_mask: "unat (w AND mask n :: 'a::len word) = unat w mod 2 ^ n"
proof -
  have "w AND mask n = take_bit n w" by (simp add: take_bit_eq_mask)
  then have "unat (w AND mask n) = take_bit n (unat w)" by (simp only: unsigned_take_bit_eq)
  then show ?thesis by (simp only: take_bit_eq_mod)
qed

lemma same_bucket_iff_rank:
  assumes "k \<le> 64"
  shows "v AND mask k = h AND mask k \<longleftrightarrow> rank v div 2 ^ (64 - k) = rank h div 2 ^ (64 - k)"
  unfolding mask_drop_rev [OF assms] rank_def
  by (metis unat_drop_bit word_unat_eq_iff)

lemma or_mask_plus: "(w OR mask n) + 1 = w - (w AND mask n) + 2 ^ n" for w :: u64
proof -
  have "w OR mask n = (w AND NOT (mask n)) + mask n"
    by (subst disjunctive_add) (auto simp: bit_simps intro: bit_word_eqI)
  moreover have "w = (w AND NOT (mask n)) + (w AND mask n)"
    by (subst disjunctive_add) (auto simp: bit_simps intro!: bit_word_eqI)
  ultimately have "w OR mask n = w - (w AND mask n) + mask n"
    by (metis add_diff_cancel_right')
  then show ?thesis by (simp add: mask_eq_decr_exp)
qed

lemma len64: "LENGTH(64) = 64" by simp

lemma unat_pow64: "unat (2 ^ n :: u64) = 2 ^ n mod 2 ^ 64"
  using unsigned_of_nat [of "2 ^ n", where 'a = nat and 'b = 64] by (simp add: take_bit_eq_mod)

lemma or_mask_succ:
  "unat ((w OR mask n) + 1 :: u64) = ((unat w div 2 ^ n + 1) * 2 ^ n) mod 2 ^ 64"
proof -
  have "w AND mask n \<le> w" by (rule word_and_le2)
  then have "unat (w - (w AND mask n)) = unat w - unat w mod 2 ^ n"
    by (simp add: unat_sub unat_and_mask)
  then have "unat (w - (w AND mask n)) = unat w div 2 ^ n * 2 ^ n"
    by (simp add: minus_mod_eq_div_mult)
  moreover note unat_pow64 [of n]
  ultimately have "unat (w - (w AND mask n) + 2 ^ n) = (unat w div 2 ^ n * 2 ^ n + 2 ^ n mod 2 ^ 64) mod 2 ^ 64"
    by (simp only: unat_word_ariths len64)
  then show ?thesis
    by (simp only: or_mask_plus mod_add_right_eq distrib_right mult_1)
qed

text \<open>One scanning step rounds the rank up to the next bucket boundary.\<close>

lemma rank_advance:
  assumes "k \<le> 64"
  shows "rank (scan_advance (mask k) v) = ((rank v div 2 ^ (64 - k) + 1) * 2 ^ (64 - k)) mod 2 ^ 64"
proof -
  have "rev_bits (v OR NOT (mask k)) = rev_bits v OR mask (64 - k)"
  proof (rule bit_word_eqI)
    fix i assume i: "i < LENGTH(64)"
    then have "\<not> 63 - i < k \<longleftrightarrow> i < 64 - k" using assms by auto
    moreover have "63 - i < 64" by simp
    ultimately show "bit (rev_bits (v OR NOT (mask k))) i = bit (rev_bits v OR mask (64 - k)) i"
      using i by (simp add: bit_rev_bits bit_simps)
  qed
  then show ?thesis
    using or_mask_succ [of "rev_bits v" "64 - k"] by (simp add: rank_def scan_advance_def)
qed

lemma rank_interval:
  assumes k: "k \<le> 64" and le: "rank v \<le> rank h"
    and lt: "scan_advance (mask k) v = 0 \<or> rank h < rank (scan_advance (mask k) v)"
  shows "v AND mask k = h AND mask k"
proof -
  let ?q = "2 ^ (64 - k) :: nat"
  have q: "?q * 2 ^ k = 2 ^ 64" using k by (simp add: power_add [symmetric])
  have "rank h < (rank v div ?q + 1) * ?q"
  proof (cases "(rank v div ?q + 1) * ?q < 2 ^ 64")
    case True
    then have "rank (scan_advance (mask k) v) = (rank v div ?q + 1) * ?q"
      using rank_advance [OF k, of v] by simp
    with lt show ?thesis by (auto simp: rank_zero_iff [symmetric])
  next
    case False
    then show ?thesis using rank_less [of h] by linarith
  qed
  then have "rank h div ?q < rank v div ?q + 1" by (simp add: less_mult_imp_div_less)
  moreover have "rank v div ?q \<le> rank h div ?q" using le by (rule div_le_mono)
  ultimately show ?thesis unfolding same_bucket_iff_rank [OF k] by linarith
qed

section \<open>The loop over the expansions of a bucket\<close>

lemma low_bits_zero:
  fixes x :: u64
  assumes "x AND mask a = 0" and "i < a" and "i < 64"
  shows "\<not> bit x i"
proof -
  have "\<not> bit (x AND mask a) i" unfolding assms(1) by simp
  with assms(2,3) show ?thesis by (simp add: bit_and_iff bit_mask_iff)
qed

lemma expansion_increment:
  fixes v :: u64
  assumes "a < 64"
  shows "(((v OR mask a) + 1) AND NOT (mask a)) OR (v AND mask a) = v + 2 ^ a"
proof -
  let ?x = "(v OR mask a) + 1"
  have "2 ^ a dvd unat ?x"
    unfolding or_mask_succ using assms by (intro dvd_mod dvd_triv_right le_imp_power_dvd) simp
  then have "unat (?x AND mask a) = 0" by (simp add: unat_and_mask)
  then have "?x AND mask a = 0" by (simp add: unat_eq_zero)
  then have low: "\<not> bit ?x i" if "i < a" "i < 64" for i
    using that by (rule low_bits_zero)
  have "?x AND NOT (mask a) = ?x"
    by (rule bit_word_eqI) (use low in \<open>auto simp: bit_and_iff bit_not_iff bit_mask_iff\<close>)
  moreover have "?x OR (v AND mask a) = ?x + (v AND mask a)"
  proof (rule disjunctive_add [symmetric])
    show "\<not> bit ?x i \<or> \<not> bit (v AND mask a) i" for i
      using low [of i] by (auto simp: bit_and_iff bit_mask_iff)
  qed
  ultimately show ?thesis by (simp add: or_mask_plus)
qed

definition expansion_no :: "nat \<Rightarrow> nat \<Rightarrow> u64 \<Rightarrow> nat" where
  "expansion_no a b v = (unat v div 2 ^ a) mod 2 ^ (b - a)"

lemma mask_diff_zero_iff:
  assumes "a \<le> b" and "b < 64"
  shows "v AND (mask a XOR mask b) = 0 \<longleftrightarrow> expansion_no a b v = 0"
proof -
  have "expansion_no a b v = unat (drop_bit a v AND mask (b - a))"
    by (simp only: expansion_no_def unat_and_mask unat_drop_bit)
  moreover have "drop_bit a v AND mask (b - a) = 0 \<longleftrightarrow> v AND (mask a XOR mask b) = 0"
  proof
    assume z: "drop_bit a v AND mask (b - a) = 0"
    have "\<not> bit v i" if "a \<le> i" "i < b" for i
      using low_bits_zero [OF z, of "i - a"] that assms by (auto simp: bit_drop_bit_eq)
    then have "\<not> bit (v AND (mask a XOR mask b)) i" if "i < 64" for i
      using that assms by (cases "a \<le> i"; cases "i < b") (simp_all add: bit_and_iff bit_xor_iff bit_mask_iff)
    then show "v AND (mask a XOR mask b) = 0"
      by (intro bit_word_eqI) simp
  next
    assume z: "v AND (mask a XOR mask b) = 0"
    have "\<not> bit v i" if "a \<le> i" "i < b" for i
    proof -
      have "\<not> bit (v AND (mask a XOR mask b)) i" unfolding z by simp
      then show ?thesis using that assms by (simp add: bit_and_iff bit_xor_iff bit_mask_iff)
    qed
    then show "drop_bit a v AND mask (b - a) = 0"
      by (intro bit_word_eqI) (auto simp: bit_and_iff bit_drop_bit_eq bit_mask_iff)
  qed
  ultimately show ?thesis by (simp add: unat_eq_zero)
qed

lemma mod_div_power: "n \<le> m \<Longrightarrow> (x mod 2 ^ m) div 2 ^ n = (x div 2 ^ n) mod (2 ^ (m - n) :: nat)"
  using drop_bit_take_bit [of n m x] by (simp add: drop_bit_eq_div take_bit_eq_mod)

lemma unat_add_shifted:
  assumes "a < 64"
  shows "unat (v + of_nat i * 2 ^ a :: u64) = (unat v + i * 2 ^ a) mod 2 ^ 64"
proof -
  have "v + of_nat i * 2 ^ a = of_nat (unat v + i * 2 ^ a)" by simp
  then have "unat (v + of_nat i * 2 ^ a) = unat (of_nat (unat v + i * 2 ^ a) :: u64)" by (rule arg_cong)
  also have "\<dots> = (unat v + i * 2 ^ a) mod 2 ^ 64"
    using unsigned_of_nat [of "unat v + i * 2 ^ a", where 'a = nat and 'b = 64]
    by (simp only: take_bit_eq_mod len64 of_nat_id)
  finally show ?thesis .
qed

lemma expansion_no_add:
  assumes "a \<le> b" and "b < 64"
  shows "expansion_no a b (v + of_nat i * 2 ^ a) = (unat v div 2 ^ a + i) mod 2 ^ (b - a)"
proof -
  have "unat (v + of_nat i * 2 ^ a) div 2 ^ a = (unat v div 2 ^ a + i) mod 2 ^ (64 - a)"
    using assms mod_div_power [of a 64 "unat v + i * 2 ^ a"]
    by (simp only: unat_add_shifted) (simp add: add.commute)
  moreover have "(2::nat) ^ (b - a) dvd 2 ^ (64 - a)" using assms by (intro le_imp_power_dvd) simp
  ultimately show ?thesis by (simp add: expansion_no_def mod_mod_cancel)
qed

lemma scan_expansions_run:
  assumes ab: "a \<le> b" "b < 64" and n: "expansion_no a b v + n = 2 ^ (b - a)" and "0 < n"
  shows "scan_expansions t1 (mask a) (mask b) v out =
    Some (v + of_nat n * 2 ^ a,
          out @ concat (map (\<lambda>i. scan_bucket t1 ((v + of_nat i * 2 ^ a) AND mask b)) [0..<n]))"
  using n \<open>0 < n\<close>
proof (induction n arbitrary: v out)
  case (Suc n)
  let ?v = "v + 2 ^ a"
  have inc: "(((v OR mask a) + 1) AND NOT (mask a)) OR (v AND mask a) = ?v"
    using ab by (intro expansion_increment) simp
  have nxt: "expansion_no a b ?v = (expansion_no a b v + 1) mod 2 ^ (b - a)"
    using expansion_no_add [OF ab, of v 1] by (simp add: expansion_no_def mod_simps)
  show ?case
  proof (cases "n = 0")
    case True
    then have "expansion_no a b ?v = 0" using nxt Suc.prems(1) by simp
    then have "?v AND (mask a XOR mask b) = 0" using mask_diff_zero_iff [OF ab] by blast
    with True show ?thesis
      by (subst scan_expansions.simps) (simp only: Let_def inc, simp)
  next
    case False
    then have e: "expansion_no a b ?v = expansion_no a b v + 1" using nxt Suc.prems(1) by simp
    then have ne: "?v AND (mask a XOR mask b) \<noteq> 0" using mask_diff_zero_iff [OF ab] by simp
    have IH: "scan_expansions t1 (mask a) (mask b) ?v (out @ scan_bucket t1 (v AND mask b)) =
      Some (?v + of_nat n * 2 ^ a, (out @ scan_bucket t1 (v AND mask b)) @
        concat (map (\<lambda>i. scan_bucket t1 ((?v + of_nat i * 2 ^ a) AND mask b)) [0..<n]))"
      using Suc.prems(1) e False by (intro Suc.IH) auto
    have shift: "map (\<lambda>i. scan_bucket t1 ((?v + of_nat i * 2 ^ a) AND mask b)) [0..<n] =
      map (\<lambda>i. scan_bucket t1 ((v + of_nat i * 2 ^ a) AND mask b)) [1..<Suc n]"
      by (rule nth_equalityI) (simp_all add: algebra_simps del: upt_Suc)
    have "[0..<Suc n] = 0 # [1..<Suc n]" by (simp add: upt_conv_Cons)
    then show ?thesis
      using IH unfolding shift
      by (subst scan_expansions.simps, simp only: Let_def inc) (simp add: ne algebra_simps del: upt_Suc)
  qed
qed simp

section \<open>One call\<close>

definition scan_hash :: "'k dictType \<Rightarrow> 'k \<Rightarrow> u64" where
  "scan_hash ty k = ucast (hashFunction ty k)"

definition dict_min_size :: "('k, 'v) dict \<Rightarrow> nat" where
  "dict_min_size d = (if dictIsRehashing d then min (ht_size (ht0 d)) (ht_size (ht1 d)) else ht_size (ht0 d))"

definition dict_pow2 :: "('k, 'v) dict \<Rightarrow> bool" where
  "dict_pow2 d \<longleftrightarrow> (\<exists>a<64. ht_size (ht0 d) = 2 ^ a) \<and>
     (dictIsRehashing d \<longrightarrow> (\<exists>b<64. ht_size (ht1 d) = 2 ^ b))"

lemma sizemask_word: "ht_inv ty t \<Longrightarrow> ht_size t = 2 ^ k \<Longrightarrow> of_nat (ht_sizemask t) = (mask k :: u64)"
  by (simp add: ht_inv_def mask_eq_decr_exp of_nat_diff)

lemma unat_scan_hash: "unat (scan_hash ty k) = unat (hashFunction ty k)"
proof -
  have "unat (hashFunction ty k) < 2 ^ LENGTH(32)" by (rule unsigned_less)
  then have "unat (hashFunction ty k) < 2 ^ 64" by simp
  then show ?thesis by (simp add: scan_hash_def unsigned_ucast_eq take_bit_nat_eq_self)
qed

lemma bucket_word:
  assumes "ht_inv ty t" and "ht_size t = 2 ^ k" and "e \<in> set (concat (ht_table t))"
  shows "e \<in> set (scan_bucket t (scan_hash ty (de_key e) AND mask k))"
proof -
  have "ht_sizemask t = mask k"
    using assms(1,2) by (simp add: ht_inv_def mask_eq_exp_minus_1)
  then have "ht_idx ty t (de_key e) = unat (hashFunction ty (de_key e)) mod 2 ^ k"
    by (simp add: ht_idx_def dictHashKey_def take_bit_eq_mask [symmetric] take_bit_eq_mod)
  also have "\<dots> = unat (scan_hash ty (de_key e) AND mask k)"
    by (simp only: unat_and_mask unat_scan_hash)
  finally show ?thesis
    using bucket_of_key [OF assms(1,3)] by (simp add: scan_bucket_def)
qed

text \<open>Every hash with the cursor's low bits is met among the expansions of an aligned cursor.\<close>

lemma expansion_hit:
  assumes ab: "a \<le> b" "b < 64" and al: "expansion_no a b v = 0" and low: "v AND mask a = h AND mask a"
  shows "\<exists>i<2 ^ (b - a). (v + of_nat i * 2 ^ a) AND mask b = h AND mask b"
proof -
  let ?i = "expansion_no a b h"
  let ?V = "unat v" and ?H = "unat h"
  have split: "x mod 2 ^ b = x mod 2 ^ a + (x div 2 ^ a) mod 2 ^ (b - a) * 2 ^ a" for x :: nat
  proof -
    have "(2::nat) ^ b = 2 ^ a * 2 ^ (b - a)" using ab by (simp add: power_add [symmetric])
    then show ?thesis by (simp add: mod_mult2_eq algebra_simps)
  qed
  have lowm: "?V mod 2 ^ a = ?H mod 2 ^ a"
    using arg_cong [OF low, of unat] by (simp only: unat_and_mask)
  have "(2::nat) ^ b dvd 2 ^ 64" using ab by (intro le_imp_power_dvd) simp
  then have "unat ((v + of_nat ?i * 2 ^ a) AND mask b) = (?V + ?i * 2 ^ a) mod 2 ^ b"
    using ab by (simp only: unat_and_mask unat_add_shifted mod_mod_cancel)
  also have "\<dots> = (?V mod 2 ^ b + ?i * 2 ^ a) mod 2 ^ b" by (simp add: mod_simps)
  also have "?V mod 2 ^ b = ?V mod 2 ^ a" using al split [of ?V] by (simp add: expansion_no_def)
  also have "?V mod 2 ^ a + ?i * 2 ^ a = ?H mod 2 ^ b"
    using lowm split [of ?H] by (simp add: expansion_no_def)
  finally have "unat ((v + of_nat ?i * 2 ^ a) AND mask b) = unat (h AND mask b)"
    by (simp add: unat_and_mask)
  moreover have "?i < 2 ^ (b - a)" by (simp add: expansion_no_def)
  ultimately show ?thesis by (auto simp: word_unat_eq_iff)
qed

lemma advance_low:
  assumes "k \<le> 64"
  shows "scan_advance (mask k) v AND NOT (mask k) = 0"
proof -
  let ?w = "rev_bits (scan_advance (mask k) v)"
  have "(2::nat) ^ (64 - k) dvd 2 ^ 64" by (intro le_imp_power_dvd) simp
  then have "2 ^ (64 - k) dvd unat ?w"
    using rank_advance [OF assms, of v] by (simp only: rank_def) (intro dvd_mod dvd_triv_right)
  then have "unat (?w AND mask (64 - k)) = 0" by (simp add: unat_and_mask)
  then have z: "?w AND mask (64 - k) = 0" by (simp add: unat_eq_zero)
  show ?thesis
  proof (rule bit_word_eqI)
    fix i assume i: "i < LENGTH(64)"
    have "\<not> bit (scan_advance (mask k) v) i" if "k \<le> i"
    proof -
      have "\<not> bit ?w (63 - i)" using low_bits_zero [OF z, of "63 - i"] that i assms by simp
      then show ?thesis using bit_rev_bits [of "63 - i"] i by simp
    qed
    then show "bit (scan_advance (mask k) v AND NOT (mask k)) i = bit 0 i"
      by (cases "k \<le> i") (auto simp: bit_and_iff bit_not_iff bit_mask_iff)
  qed
qed

text \<open>
  What one call returns.  \<open>k\<close> is the number of bits of the smaller table's mask.
\<close>

definition scan_aligned :: "('k, 'v) dict \<Rightarrow> u64 \<Rightarrow> bool" where
  "scan_aligned d v \<longleftrightarrow> (dictIsRehashing d \<longrightarrow>
     v AND (of_nat (ht_sizemask (ht0 d)) XOR of_nat (ht_sizemask (ht1 d))) = 0)"

lemma dict_map_table:
  assumes "dict_map cn d c \<noteq> None"
  shows "\<exists>e. cn (de_key e) = c \<and> (e \<in> set (concat (ht_table (ht0 d))) \<or> e \<in> set (concat (ht_table (ht1 d))))"
proof -
  have "c \<in> entry_key cn ` set (dict_entries d)" using assms by (metis dict_map_None_iff)
  then show ?thesis by (auto simp: dict_entries_def)
qed

lemma scan_hash_canon: "dictType_ok ty cn \<Longrightarrow> cn a = cn b \<Longrightarrow> scan_hash ty a = scan_hash ty b"
  by (simp add: scan_hash_def dictHashKey_def dictType_hash [of ty cn a b])

lemma dictScan_two:
  assumes i0: "ht_inv ty t0" and i1: "ht_inv ty t1" and s0: "ht_size t0 = 2 ^ a" and s1: "ht_size t1 = 2 ^ b"
    and ab: "a \<le> b" "b < 64" and al: "v AND (mask a XOR mask b) = 0"
    and e: "e \<in> set (concat (ht_table t0)) \<or> e \<in> set (concat (ht_table t1))"
  shows "\<exists>v' out. scan_expansions t1 (mask a) (mask b) v (scan_bucket t0 (v AND mask a)) = Some (v', out) \<and>
    v' AND mask a = v AND mask a \<and> (v AND mask a = scan_hash ty (de_key e) AND mask a \<longrightarrow> e \<in> set out)"
proof -
  have z: "expansion_no a b v = 0" using al mask_diff_zero_iff [OF ab] by blast
  let ?n = "2 ^ (b - a) :: nat"
  let ?out = "scan_bucket t0 (v AND mask a) @
    concat (map (\<lambda>i. scan_bucket t1 ((v + of_nat i * 2 ^ a) AND mask b)) [0..<?n])"
  have run: "scan_expansions t1 (mask a) (mask b) v (scan_bucket t0 (v AND mask a)) =
      Some (v + of_nat ?n * 2 ^ a, ?out)"
    using z by (intro scan_expansions_run [OF ab]) simp_all
  have "unat ((v + of_nat ?n * 2 ^ a) AND mask a) = unat (v AND mask a)"
  proof -
    have "(2::nat) ^ a dvd 2 ^ 64" using ab by (intro le_imp_power_dvd) simp
    then show ?thesis using ab by (simp only: unat_and_mask unat_add_shifted mod_mod_cancel) simp
  qed
  then have "(v + of_nat ?n * 2 ^ a) AND mask a = v AND mask a" by (simp only: word_unat_eq_iff)
  moreover have "e \<in> set ?out" if low: "v AND mask a = scan_hash ty (de_key e) AND mask a"
  proof (cases "e \<in> set (concat (ht_table t0))")
    case True
    then show ?thesis using bucket_word [OF i0 s0 True] low by simp
  next
    case False
    with e have "e \<in> set (concat (ht_table t1))" by blast
    note b = bucket_word [OF i1 s1 this]
    obtain i where "i < ?n" and "(v + of_nat i * 2 ^ a) AND mask b = scan_hash ty (de_key e) AND mask b"
      using expansion_hit [OF ab z low] by blast
    then show ?thesis using b by force
  qed
  ultimately show ?thesis using run by blast
qed

lemma dictScan_step:
  assumes ty: "dictType_ok ty cn" and inv: "dict_inv ty cn d" and p2: "dict_pow2 d" and al: "scan_aligned d v" and key: "dict_map cn d (cn key) \<noteq> None"
  obtains v' out k where "dictScan d v = Some (v', out)" and "dict_min_size d = 2 ^ k" and "k < 64"
    and "rank v' = ((rank v div 2 ^ (64 - k) + 1) * 2 ^ (64 - k)) mod 2 ^ 64"
    and "v' AND NOT (mask k) = 0"
    and "rank v \<le> rank (scan_hash ty key) \<Longrightarrow> v' = 0 \<or> rank (scan_hash ty key) < rank v' \<Longrightarrow>
           cn key \<in> entry_key cn ` set out"
proof -
  note concl = that
  obtain e where e: "cn (de_key e) = cn key"
    and e_in: "e \<in> set (concat (ht_table (ht0 d))) \<or> e \<in> set (concat (ht_table (ht1 d)))"
    using dict_map_table [OF key] by blast
  note he = scan_hash_canon [OF ty e]
  have i0: "ht_inv ty (ht0 d)" and i1: "ht_inv ty (ht1 d)" using inv by (auto simp: dict_inv_def)
  have "concat (ht_table (ht0 d)) \<noteq> [] \<or> concat (ht_table (ht1 d)) \<noteq> []"
    using e_in by (metis empty_iff empty_set)
  then have "dictSize d \<noteq> 0"
    using i0 i1 unfolding dictSize_def ht_inv_def by (metis add_is_0 length_0_conv)
  obtain a where a: "a < 64" "ht_size (ht0 d) = 2 ^ a" using p2 by (auto simp: dict_pow2_def)
  define H where "H = scan_hash ty key"
  have fin: thesis
    if sc: "dictScan d v = Some (scan_advance (mask k) w, out)" and ms: "dict_min_size d = 2 ^ k" and k: "k < 64"
      and w: "w AND mask k = v AND mask k" and hit: "v AND mask k = H AND mask k \<longrightarrow> e \<in> set out"
    for k w out
  proof (rule concl [OF sc ms k])
    have k': "k \<le> 64" using k by simp
    have eq: "rank w div 2 ^ (64 - k) = rank v div 2 ^ (64 - k)"
      using same_bucket_iff_rank [OF k', of w v] w by blast
    show r: "rank (scan_advance (mask k) w) = ((rank v div 2 ^ (64 - k) + 1) * 2 ^ (64 - k)) mod 2 ^ 64"
      unfolding rank_advance [OF k'] eq ..
    show "scan_advance (mask k) w AND NOT (mask k) = 0" by (rule advance_low [OF k'])
    have same: "scan_advance (mask k) w = scan_advance (mask k) v"
      using r rank_advance [OF k', of v] by (metis rank_def rev_bits_involution word_unat_eq_iff)
    show "cn key \<in> entry_key cn ` set out"
      if "rank v \<le> rank (scan_hash ty key)"
        and "scan_advance (mask k) w = 0 \<or> rank (scan_hash ty key) < rank (scan_advance (mask k) w)"
      using rank_interval [OF k', of v H] that hit e [symmetric] unfolding same H_def by auto
  qed
  show thesis
  proof (cases "dictIsRehashing d")
    case False
    then have "ht1 d = dict_reset_ht" using inv by (simp add: dict_inv_def)
    then have "e \<in> set (concat (ht_table (ht0 d)))" using e_in by auto
    note b = bucket_word [OF i0 a(2) this]
    show thesis
    proof (rule fin)
      show "dictScan d v = Some (scan_advance (mask a) v, scan_bucket (ht0 d) (v AND mask a))"
        using False \<open>dictSize d \<noteq> 0\<close> sizemask_word [OF i0 a(2)] by (simp add: dictScan_def Let_def)
      show "v AND mask a = H AND mask a \<longrightarrow> e \<in> set (scan_bucket (ht0 d) (v AND mask a))"
        using b he by (simp add: H_def)
    qed (use a False in \<open>simp_all add: dict_min_size_def\<close>)
  next
    case True
    obtain b where b: "b < 64" "ht_size (ht1 d) = 2 ^ b" using p2 True by (auto simp: dict_pow2_def)
    note m0 = sizemask_word [OF i0 a(2)] and m1 = sizemask_word [OF i1 b(2)]
    have al': "v AND (mask a XOR mask b) = 0" using al True by (simp add: scan_aligned_def m0 m1)
    show thesis
    proof (cases "ht_size (ht1 d) < ht_size (ht0 d)")
      case False
      then have ab: "a \<le> b" using a b by (metis not_less one_less_numeral_iff power_le_imp_le_exp semiring_norm(76))
      obtain v' out where x: "scan_expansions (ht1 d) (mask a) (mask b) v (scan_bucket (ht0 d) (v AND mask a)) = Some (v', out)"
        and "v' AND mask a = v AND mask a" and "v AND mask a = scan_hash ty (de_key e) AND mask a \<longrightarrow> e \<in> set out"
        using dictScan_two [OF i0 i1 a(2) b(2) ab b(1) al' e_in] by blast
      moreover have "dictScan d v = Some (scan_advance (mask a) v', out)"
        using x True False \<open>dictSize d \<noteq> 0\<close> by (simp add: dictScan_def m0 m1)
      ultimately show thesis
        using fin [of a v' out] a True False b ab by (simp add: dict_min_size_def H_def he min_def)
    next
      case lt: True
      then have ba: "b \<le> a" using a b by (metis less_imp_le one_less_numeral_iff power_le_imp_le_exp semiring_norm(76))
      have al'': "v AND (mask b XOR mask a) = 0" using al' by (simp add: xor.commute)
      obtain v' out where x: "scan_expansions (ht0 d) (mask b) (mask a) v (scan_bucket (ht1 d) (v AND mask b)) = Some (v', out)"
        and "v' AND mask b = v AND mask b" and "v AND mask b = scan_hash ty (de_key e) AND mask b \<longrightarrow> e \<in> set out"
        using dictScan_two [OF i1 i0 b(2) a(2) ba a(1) al''] e_in by blast
      moreover have "dictScan d v = Some (scan_advance (mask b) v', out)"
        using x True lt \<open>dictSize d \<noteq> 0\<close> by (simp add: dictScan_def m0 m1)
      ultimately show thesis
        using fin [of b v' out] True lt b by (simp add: dict_min_size_def H_def he min_def)
    qed
  qed
qed

section \<open>Whole iterations\<close>

text \<open>
  The condition on how the dictionary may change between two calls: if a rehash is running
  at a call, the smaller of its tables is no smaller than the table (or the smaller table)
  was at the call before.  Growing dictionaries satisfy it, whatever is added, removed or
  rehashed in between; so does a shrink that starts and ends between two calls.
\<close>

fun scan_growth :: "('k, 'v) dict list \<Rightarrow> bool" where
  "scan_growth (d # d' # ds) \<longleftrightarrow>
     (dictIsRehashing d' \<longrightarrow> dict_min_size d \<le> dict_min_size d') \<and> scan_growth (d' # ds)"
| "scan_growth _ \<longleftrightarrow> True"

lemma aligned_after:
  assumes inv: "dict_inv ty cn d" and p2: "dict_pow2 d"
    and low: "v AND NOT (mask k) = 0" and le: "dictIsRehashing d \<Longrightarrow> 2 ^ k \<le> dict_min_size d"
  shows "scan_aligned d v"
  unfolding scan_aligned_def
proof
  assume re: "dictIsRehashing d"
  obtain a b where a: "ht_size (ht0 d) = 2 ^ a" and b: "ht_size (ht1 d) = 2 ^ b"
    using p2 re by (auto simp: dict_pow2_def)
  have "(2::nat) ^ k \<le> 2 ^ a" and "(2::nat) ^ k \<le> 2 ^ b"
    using le re by (auto simp: dict_min_size_def a b)
  then have "k \<le> a" and "k \<le> b"
    by simp_all
  have "\<not> bit (v AND (mask a XOR mask b)) i" if "i < 64" for i
  proof -
    have "\<not> bit (v AND NOT (mask k)) i" unfolding low by simp
    with that \<open>k \<le> a\<close> \<open>k \<le> b\<close> show ?thesis
      by (cases "i < k") (simp_all add: bit_and_iff bit_xor_iff bit_not_iff bit_mask_iff)
  qed
  then have "v AND (mask a XOR mask b) = 0" by (intro bit_word_eqI) simp
  then show "v AND (of_nat (ht_sizemask (ht0 d)) XOR of_nat (ht_sizemask (ht1 d))) = 0"
    using inv sizemask_word [of ty "ht0 d", OF _ a] sizemask_word [of ty "ht1 d", OF _ b]
    by (simp only: dict_inv_def)
qed

lemma scan_calls_guarantee:
  assumes ty: "dictType_ok ty cn" and "\<forall>d \<in> set ds. dict_inv ty cn d \<and> dict_pow2 d \<and> dict_map cn d (cn key) \<noteq> None"
    and "scan_growth ds" and "ds \<noteq> []" and "scan_aligned (hd ds) v"
  shows "\<exists>v' out. scan_calls ds v = Some (v', out) \<and>
    (v' = 0 \<longrightarrow> rank v \<le> rank (scan_hash ty key) \<longrightarrow> cn key \<in> entry_key cn ` set out)"
  using assms(2-)
proof (induction ds arbitrary: v)
  case (Cons d ds)
  have d: "dict_inv ty cn d" "dict_pow2 d" "scan_aligned d v" "dict_map cn d (cn key) \<noteq> None"
    using Cons.prems by auto
  obtain v1 out k where sc: "dictScan d v = Some (v1, out)" and ms: "dict_min_size d = 2 ^ k"
    and low: "v1 AND NOT (mask k) = 0"
    and hit: "rank v \<le> rank (scan_hash ty key) \<Longrightarrow> v1 = 0 \<or> rank (scan_hash ty key) < rank v1 \<Longrightarrow>
      cn key \<in> entry_key cn ` set out"
    using dictScan_step [OF ty d] by metis
  show ?case
  proof (cases ds)
    case Nil
    then show ?thesis using sc hit by auto
  next
    case (Cons d' ds')
    have al: "scan_aligned d' v1"
      using aligned_after [of ty cn d' v1 k] low Cons.prems(1,2) ms Cons by simp
    obtain v' out' where IH: "scan_calls ds v1 = Some (v', out')"
      "v' = 0 \<longrightarrow> rank v1 \<le> rank (scan_hash ty key) \<longrightarrow> cn key \<in> entry_key cn ` set out'"
      using Cons.IH [of v1] Cons.prems(1,2) al Cons by auto
    have "scan_calls (d # ds) v = Some (v', out @ out')" using sc IH(1) by simp
    moreover have "cn key \<in> entry_key cn ` set (out @ out')" if "v' = 0" "rank v \<le> rank (scan_hash ty key)"
      using that hit IH(2) by (cases "rank v1 \<le> rank (scan_hash ty key)") auto
    ultimately show ?thesis by blast
  qed
qed simp

lemma scan_growth_replicate: "scan_growth (replicate n d)"
proof (induction n)
  case (Suc n)
  then show ?case by (cases n) simp_all
qed simp

lemma rank_0 [simp]: "rank 0 = 0"
  by (simp add: rank_zero_iff)

text \<open>
  C5. The guarantee of \<^verbatim>\<open>dictScan\<close>: a key that is in the dictionary at every call of an
  iteration (from cursor 0 until cursor 0 comes back) is returned by one of the calls, however
  the dictionary is modified, rehashed or resized between the calls, provided no call meets a
  rehash towards a smaller table (\<open>scan_growth\<close>).
\<close>

theorem dictScan_guarantee:
  assumes "dictType_ok ty cn" and "\<forall>d \<in> set ds. dict_inv ty cn d \<and> dict_pow2 d \<and> dict_map cn d (cn key) \<noteq> None"
    and "scan_growth ds" and "ds \<noteq> []"
  shows "\<exists>v out. scan_calls ds 0 = Some (v, out) \<and> (v = 0 \<longrightarrow> cn key \<in> entry_key cn ` set out)"
  using scan_calls_guarantee [OF assms, of 0] by (simp add: scan_aligned_def)

lemma scan_calls_static:
  assumes ty: "dictType_ok ty cn" and inv: "dict_inv ty cn d" and p2: "dict_pow2 d" and key: "dict_map cn d (cn key) \<noteq> None"
    and k: "dict_min_size d = 2 ^ k" "k < 64" and al: "scan_aligned d v"
    and r: "rank v = j * 2 ^ (64 - k)" and n: "j + n \<le> 2 ^ k"
  shows "\<exists>v' out. scan_calls (replicate n d) v = Some (v', out) \<and> rank v' = ((j + n) * 2 ^ (64 - k)) mod 2 ^ 64"
  using al r n
proof (induction n arbitrary: v j)
  case 0
  then show ?case using rank_less [of v] by simp
next
  case (Suc n)
  obtain v1 out k' where sc: "dictScan d v = Some (v1, out)" and k': "dict_min_size d = 2 ^ k'"
    and r1: "rank v1 = ((rank v div 2 ^ (64 - k') + 1) * 2 ^ (64 - k')) mod 2 ^ 64"
    and low: "v1 AND NOT (mask k') = 0"
    using dictScan_step [OF ty inv p2 Suc.prems(1) key] by metis
  have "k' = k" using k' k(1) by simp
  have al1: "scan_aligned d v1" by (rule aligned_after [OF inv p2 low]) (simp add: k')
  have j1: "rank v1 = ((j + 1) * 2 ^ (64 - k)) mod 2 ^ 64"
    using r1 Suc.prems(2) by (simp add: \<open>k' = k\<close>)
  have q: "2 ^ k * 2 ^ (64 - k) = (2 :: nat) ^ 64" using k(2) by (simp add: power_add [symmetric])
  have "\<exists>v' out. scan_calls (replicate n d) v1 = Some (v', out) \<and>
    rank v' = ((j + 1 + n) * 2 ^ (64 - k)) mod 2 ^ 64"
  proof (cases "j + 1 < 2 ^ k")
    case True
    then have "(j + 1) * 2 ^ (64 - k) < 2 ^ 64"
      unfolding q [symmetric] by (rule mult_strict_right_mono) simp
    then show ?thesis using Suc.IH [OF al1, of "j + 1"] j1 Suc.prems(3) by simp
  next
    case False
    then have "n = 0" using Suc.prems(3) by simp
    then show ?thesis using j1 by simp
  qed
  then show ?case using sc by (auto simp: add.assoc)
qed


section \<open>A shrinking rehash\<close>

text \<open>
  A dictionary of numbers hashed to themselves, expanded to 16 buckets (\<^verbatim>\<open>dictExpand\<close>), with the
  keys 1, 2 and 4; then \<^verbatim>\<open>dictResize\<close> starts a rehash down to 4 buckets.
\<close>

definition id_type :: "nat dictType" where
  "id_type = \<lparr>hashFunction = of_nat, keyCompare = (=)\<rparr>"

definition wide_dict :: "(nat, unit) dict" where
  "wide_dict = 
     (let d = fst (dictExpand dictCreate 16); d = fst (dictAdd id_type True d 1 ()); d = fst (dictAdd id_type True d 2 ())
      in fst (dictAdd id_type True d 4 ()))"
definition shrinking_dict :: "(nat, unit) dict" where
  "shrinking_dict = fst (dictResize True wide_dict)"

lemmas dict_eval = dictCreate_def dict_reset_ht_def dictAdd_def dictAddRaw_def dictKeyIndex_def dictExpandIfNeeded_def
  dictExpand_def dictNextPower_def dict_next_power_from.simps DICT_HT_INITIAL_SIZE_def LONG_MAX_def dict_search_tables_def
  dict_search_def ht_idx_def dict_ht_def dict_set_ht_def dictSetVal_def dictIsRehashing_def dictRehashStep_def dictRehash_def
  dict_rehash_once_def skip_empty.simps dictHashKey_def id_type_def dictDelete_def dictGenericDelete_def dict_unlink_def dict_force_resize_ratio_def
abbreviation single :: "'k \<Rightarrow> ('k, unit) dictEntry list" where
  "single k \<equiv> [\<lparr>de_key = k, de_val = ()\<rparr>]"

lemma replicate_4: "replicate 4 x = [x,x,x,x]" by (simp add: numeral_eq_Suc)
lemma replicate_16: "replicate 16 x = [x,x,x,x,x,x,x,x,x,x,x,x,x,x,x,x]" by (simp add: numeral_eq_Suc)
lemma wide_eval: "wide_dict = \<lparr>ht0 = \<lparr>ht_table = [[], single 1, single 2, [], single 4, [], [], [], [], [], [], [], [], [], [], []],
      ht_size = 16, ht_sizemask = 15, ht_used = 3\<rparr>, ht1 = dict_reset_ht, rehashidx = -1, iterators = 0\<rparr>"
  by (simp add: wide_dict_def Let_def dict_eval replicate_4 replicate_16)
lemma shrink_eval: "shrinking_dict = wide_dict\<lparr>ht1 := \<lparr>ht_table = [[], [], [], []], ht_size = 4, ht_sizemask = 3, ht_used = 0\<rparr>, rehashidx := 0\<rparr>"
  by (simp add: shrinking_dict_def dictResize_def wide_eval dict_eval replicate_4 replicate_16)

lemma rank_power: "n < 64 \<Longrightarrow> rank (2 ^ n) = 2 ^ (63 - n)"
proof -
  assume n: "n < 64"
  have "rev_bits (2 ^ n) = 2 ^ (63 - n)"
    by (rule bit_word_eqI) (use n in \<open>auto simp: bit_rev_bits bit_exp_iff\<close>)
  moreover have "(2::nat) ^ (63 - n) < 2 ^ 64" by (intro power_strict_increasing) auto
  ultimately show ?thesis by (simp only: rank_def unat_pow64) simp
qed

lemma rank_or:
  assumes "v AND w = 0"
  shows "rank (v OR w) = rank v + rank w"
proof -
  have d: "\<not> bit v i \<or> \<not> bit w i" for i
    using assms by (metis bit_0_eq bit_and_iff bot_apply bot_bool_def)
  have "rev_bits (v OR w) = rev_bits v OR rev_bits w"
    by (rule bit_word_eqI) (simp add: bit_rev_bits bit_or_iff)
  moreover have "unat (rev_bits v OR rev_bits w) = unat (rev_bits v) OR unat (rev_bits w)"
    by (simp add: unsigned_or_eq)
  moreover have "unat (rev_bits v) OR unat (rev_bits w) = unat (rev_bits v) + unat (rev_bits w)"
    by (rule disjunctive_add [symmetric])
      (use d in \<open>auto simp: bit_unsigned_iff bit_rev_bits_iff\<close>)
  ultimately show ?thesis by (simp add: rank_def)
qed

lemma rank_inj: "rank v = rank w \<Longrightarrow> v = w"
  by (metis rank_def rev_bits_involution word_unat_eq_iff)

lemma rank_small:
  "rank 1 = 2 ^ 63" "rank 2 = 2 ^ 62" "rank 3 = 2 ^ 63 + 2 ^ 62" "rank 8 = 2 ^ 60" "rank 16 = 2 ^ 59"
  "rank 17 = 2 ^ 63 + 2 ^ 59" "rank 18 = 2 ^ 62 + 2 ^ 59" "rank 19 = 2 ^ 63 + 2 ^ 62 + 2 ^ 59"
  using rank_power [of 0] rank_power [of 1] rank_power [of 3] rank_power [of 4]
    rank_or [of 1 2] rank_or [of 1 16] rank_or [of 2 16] rank_or [of 3 16] by simp_all

lemma advance_small:
  "scan_advance 15 0 = 8" "scan_advance 3 16 = 2" "scan_advance 3 18 = 1" "scan_advance 3 17 = 3" "scan_advance 3 19 = 0"
  using rank_advance [of 4 0] rank_advance [of 2 16] rank_advance [of 2 18] rank_advance [of 2 17] rank_advance [of 2 19]
  by (intro rank_inj; simp add: rank_small mask_numeral)+
lemmas scan_eval = dictScan_def Let_def dictSize_def wide_eval shrink_eval dictIsRehashing_def scan_bucket_def scan_expansions.simps dict_reset_ht_def

lemma shrink_call1: "dictScan wide_dict 0 = Some (8, [])"
  by (simp add: scan_eval advance_small)
lemma shrink_call2: "dictScan shrinking_dict 8 = Some (2, [])"
  by (simp add: scan_eval advance_small)
lemma shrink_call3: "dictScan shrinking_dict 2 = Some (1, single 2)"
  by (simp add: scan_eval advance_small)
lemma shrink_call4: "dictScan shrinking_dict 1 = Some (3, single 1)"
  by (simp add: scan_eval advance_small)
lemma shrink_call5: "dictScan shrinking_dict 3 = Some (0, [])"
  by (simp add: scan_eval advance_small)

lemma wide_inv: "dict_inv id_type id wide_dict" and shrinking_inv: "dict_inv id_type id shrinking_dict"
proof -
  have ty: "dictType_ok id_type id" by (simp add: dictType_ok_def id_type_def)
  have "dict_inv id_type id (fst (dictExpand dictCreate 16) :: (nat, unit) dict)"
    using dictExpand_same(1) [OF dict_inv_create] by (metis prod.collapse same_content_def)
  then show w: "dict_inv id_type id wide_dict"
    unfolding wide_dict_def Let_def
    by (intro finite_map.add_sel(1) [OF dict_type_finite_map [OF ty]])
  show "dict_inv id_type id shrinking_dict"
    unfolding shrinking_dict_def using dictResize_same [OF w] by (metis prod.collapse same_content_def)
qed

lemma wide_pow2: "dict_pow2 wide_dict" and shrinking_pow2: "dict_pow2 shrinking_dict"
proof -
  have "\<exists>a<64. (16::nat) = 2 ^ a" by (rule exI [of _ 4]) simp
  moreover have "\<exists>a<64. (4::nat) = 2 ^ a" by (rule exI [of _ 2]) simp
  ultimately show "dict_pow2 wide_dict" and "dict_pow2 shrinking_dict"
    by (simp_all add: dict_pow2_def wide_eval shrink_eval dictIsRehashing_def)
qed

text \<open>
  C30. What \<^verbatim>\<open>dictScan\<close> documents (every element present from the start of an iteration to its end
  is returned) fails when a rehash to a smaller table starts between two calls: key 4 is in the
  dictionary at every call, and no call returns it.  The loop over the expansions of the cursor
  counts upwards from the cursor's own high bits, while the cursor advances through them in
  reversed-bit order.
\<close>

theorem dictScan_misses_when_shrinking:
  "\<exists>(d :: (nat, unit) dict) d'. dict_inv id_type id d \<and> dict_pow2 d \<and>
     d' = fst (dictResize True d) \<and> dict_inv id_type id d' \<and> dict_pow2 d' \<and>
     dict_map id d 4 = Some () \<and> dict_map id d' 4 = Some () \<and>
     (\<exists>out. scan_calls [d, d', d', d', d'] 0 = Some (0, out) \<and> 4 \<notin> entry_key id ` set out)"
proof (intro exI conjI)
  show "dict_inv id_type id wide_dict" "dict_inv id_type id shrinking_dict"
    by (rule wide_inv shrinking_inv)+
  show "dict_pow2 wide_dict" "dict_pow2 shrinking_dict" by (rule wide_pow2 shrinking_pow2)+
  show "shrinking_dict = fst (dictResize True wide_dict)" by (simp add: shrinking_dict_def)
  show "dict_map id wide_dict 4 = Some ()" "dict_map id shrinking_dict 4 = Some ()"
    by (simp_all add: dict_map_def dict_entries_def wide_eval shrink_eval dict_reset_ht_def)
  show "scan_calls [wide_dict, shrinking_dict, shrinking_dict, shrinking_dict, shrinking_dict] 0 =
      Some (0, single 2 @ single 1)"
    by (simp add: shrink_call1 shrink_call2 shrink_call3 shrink_call4 shrink_call5)
  show "(4::nat) \<notin> entry_key id ` set (single 2 @ single 1)" by simp
qed

section \<open>Concrete inputs\<close>

lemma id_type_ok: "dictType_ok id_type id"
  by (simp add: dictType_ok_def id_type_def)

lemma shrinking_rehashing: "dictIsRehashing shrinking_dict" and shrinking_used: "ht_used (ht0 shrinking_dict) = 3"
  by (simp_all add: shrink_eval wide_eval dictIsRehashing_def)

lemma wide_key: "dict_map id wide_dict 4 = Some ()"
  by (simp add: dict_map_def dict_entries_def wide_eval dict_reset_ht_def)

theorem dict_rehash_step_safe_witness:
  "dictIsRehashing shrinking_dict \<and> rehash_in_bounds shrinking_dict \<and>
   dict_inv id_type id (fst (dictRehash id_type shrinking_dict 1))"
  using dict_rehash_step_safe [OF shrinking_inv shrinking_rehashing, of 1] shrinking_rehashing by blast

theorem dict_rehash_terminates_witness:
  "dictIsRehashing shrinking_dict \<and> \<not> dictIsRehashing (fst (dictRehash id_type shrinking_dict 4)) \<and>
   dict_map id (fst (dictRehash id_type shrinking_dict 4)) = dict_map id shrinking_dict"
  using dict_rehash_terminates [OF shrinking_inv, of 4] shrinking_rehashing shrinking_used by simp

theorem dictNextPower_least_witness:
  "(9 :: nat) < LONG_MAX \<and> (\<exists>a. dictNextPower 9 = 2 ^ a) \<and> max 4 9 \<le> dictNextPower 9"
proof -
  have "(9 :: nat) < LONG_MAX" by (simp add: LONG_MAX_def)
  with dictNextPower_least [of 9] show ?thesis by blast
qed


theorem dictScan_guarantee_witness:
  "scan_growth [wide_dict, wide_dict] \<and> dict_map id wide_dict 4 = Some () \<and>
   (\<exists>v out. scan_calls [wide_dict, wide_dict] 0 = Some (v, out))"
  using dictScan_guarantee [OF id_type_ok, of "[wide_dict, wide_dict]" 4] wide_inv wide_pow2 wide_key
  by (auto simp: wide_eval dictIsRehashing_def)


end
