(* ===== verification/Numbers.thy ===== *)
theory Numbers
  imports Prelude
begin

text \<open>
  Integers and their decimal text (\<^verbatim>\<open>util.c\<close>): \<^verbatim>\<open>digits10\<close>, \<^verbatim>\<open>ll2string\<close>, \<^verbatim>\<open>string2ll\<close>,
  \<^verbatim>\<open>string2l\<close>.  A \<^verbatim>\<open>long long\<close> is the 64-bit word of its representation, read with \<open>sint\<close>.
  The model target is LP64, so \<^verbatim>\<open>long\<close> and \<^verbatim>\<open>long long\<close> have the same range.
\<close>

section \<open>Model\<close>

definition LLONG_MIN :: u64 where "LLONG_MIN = 0x8000000000000000"
definition LLONG_MAX :: u64 where "LLONG_MAX = 0x7FFFFFFFFFFFFFFF"
definition ULLONG_MAX :: u64 where "ULLONG_MAX = 0xFFFFFFFFFFFFFFFF"

function digits10 :: "u64 \<Rightarrow> nat" where
  "digits10 v =
     (if v < 10 then 1
      else if v < 100 then 2
      else if v < 1000 then 3
      else if v < 1000000000000 then
        (if v < 100000000 then
           (if v < 1000000 then
              (if v < 10000 then 4 else 5 + (if v \<ge> 100000 then 1 else 0))
            else 7 + (if v \<ge> 10000000 then 1 else 0))
         else if v < 10000000000 then 9 + (if v \<ge> 1000000000 then 1 else 0)
         else 11 + (if v \<ge> 100000000000 then 1 else 0))
      else 12 + digits10 (v div 1000000000000))"
  by pat_completeness auto
termination
proof (relation "measure unat", simp, goal_cases)
  case (1 v)
  then show ?case by (simp add: word_less_nat_alt word_le_nat_alt unat_div)
qed

declare digits10.simps [simp del]

text \<open>The table of the 100 two-digit numbers.\<close>

definition digit_pairs :: bytes where
  "digit_pairs = map of_char
     (''0001020304050607080910111213141516171819'' @
      ''2021222324252627282930313233343536373839'' @
      ''4041424344454647484950515253545556575859'' @
      ''6061626364656667686970717273747576777879'' @
      ''8081828384858687888990919293949596979899'')"

text \<open>
  The main loop: two digits a round, written from \<open>next\<close> downwards.  \<open>pos\<close> is the C variable
  \<^verbatim>\<open>next\<close>, 32 bits wide and allowed to wrap below 0 when the loop is over.
\<close>

function ll2s_loop :: "u64 \<Rightarrow> u32 \<Rightarrow> bytes \<Rightarrow> u64 \<times> u32 \<times> bytes" where
  "ll2s_loop uval pos dst =
     (if 100 \<le> uval then
        let i = unat (uval mod 100) * 2;
            dst = dst[unat pos := digit_pairs ! (i + 1)];
            dst = dst[unat (pos - 1) := digit_pairs ! i]
        in ll2s_loop (uval div 100) (pos - 2) dst
      else (uval, pos, dst))"
  by pat_completeness auto
termination
proof (relation "measure (\<lambda>(v, _, _). unat v)", simp, goal_cases)
  case (1 v pos dst)
  then show ?case by (simp add: word_le_nat_alt unat_div)
qed

declare ll2s_loop.simps [simp del]

text \<open>
  \<^verbatim>\<open>ll2string(dst, dstlen, svalue)\<close>: the buffer after the call and the length returned, 0
  when the buffer is too small.
\<close>

definition ll2string :: "bytes \<Rightarrow> u64 \<Rightarrow> bytes \<times> nat" where
  "ll2string dst svalue =
     (let negative = (sint svalue < 0);
          uval = (if negative then (if svalue \<noteq> LLONG_MIN then - svalue else LLONG_MAX + 1) else svalue);
          len = digits10 uval + (if negative then 1 else 0)
      in if length dst \<le> len then (dst, 0)
         else
           let pos = of_nat len :: u32;
               dst = dst[unat pos := 0];
               (uval, pos, dst) = ll2s_loop uval (pos - 1) dst;
               dst = (if uval < 10 then dst[unat pos := 48 + ucast uval]
                      else let i = unat uval * 2;
                               dst = dst[unat pos := digit_pairs ! (i + 1)]
                           in dst[unat (pos - 1) := digit_pairs ! i]);
               dst = (if negative then dst[0 := 45] else dst)
           in (dst, len))"

definition is_digit :: "u8 \<Rightarrow> bool" where
  "is_digit c \<longleftrightarrow> 48 \<le> c \<and> c \<le> 57"

text \<open>The digit loop: the value, and the bytes not used; \<open>None\<close> on overflow of 64 bits.\<close>

fun s2ll_loop :: "u64 \<Rightarrow> bytes \<Rightarrow> (u64 \<times> bytes) option" where
  "s2ll_loop v [] = Some (v, [])"
| "s2ll_loop v (c # p) =
     (if is_digit c then
        if ULLONG_MAX div 10 < v then None
        else
          let v = v * 10
          in if ULLONG_MAX - ucast (c - 48) < v then None
             else s2ll_loop (v + ucast (c - 48)) p
      else Some (v, c # p))"

definition string2ll :: "bytes \<Rightarrow> u64 option" where
  "string2ll s =
     (case s of
        [] \<Rightarrow> None
      | c # _ \<Rightarrow>
          if length s = 1 \<and> c = 48 then Some 0
          else
            let negative = (c = 45);
                p = (if negative then tl s else s)
            in case p of
                 [] \<Rightarrow> None
               | d # p \<Rightarrow>
                   if 49 \<le> d \<and> d \<le> 57 then
                     (case s2ll_loop (ucast (d - 48)) p of
                        None \<Rightarrow> None
                      | Some (v, rest) \<Rightarrow>
                          if rest \<noteq> [] then None
                          else if negative then
                            (if (- (LLONG_MIN + 1)) + 1 < v then None else Some (- v))
                          else (if LLONG_MAX < v then None else Some v))
                   else if d = 48 \<and> length s = 1 then Some 0
                   else None)"

definition string2l :: "bytes \<Rightarrow> u64 option" where
  "string2l s =
     (case string2ll s of
        None \<Rightarrow> None
      | Some v \<Rightarrow> if sint v < - (2 ^ 63) \<or> 2 ^ 63 - 1 < sint v then None else Some v)"

section \<open>Decimal text\<close>

text \<open>The digits of a number, most significant first.\<close>

fun dec_nat :: "nat \<Rightarrow> bytes" where
  "dec_nat n = (if n < 10 then [] else dec_nat (n div 10)) @ [48 + of_nat (n mod 10)]"

declare dec_nat.simps [simp del]

definition dec_int :: "int \<Rightarrow> bytes" where
  "dec_int i = (if i < 0 then 45 # dec_nat (nat (- i)) else dec_nat (nat i))"

lemma dec_nat_small: "n < 10 \<Longrightarrow> dec_nat n = [48 + of_nat n]"
  by (subst dec_nat.simps) simp

lemma dec_nat_big: "10 \<le> n \<Longrightarrow> dec_nat n = dec_nat (n div 10) @ [48 + of_nat (n mod 10)]"
  by (subst dec_nat.simps) simp

lemma dec_nat_ne [simp]: "dec_nat n \<noteq> []"
  by (subst dec_nat.simps) simp

lemma length_dec_nat_div: "10 \<le> n \<Longrightarrow> length (dec_nat n) = Suc (length (dec_nat (n div 10)))"
  by (simp add: dec_nat_big)

lemma length_dec_nat_pow: "10 ^ k \<le> n \<Longrightarrow> length (dec_nat n) = k + length (dec_nat (n div 10 ^ k))"
proof (induction k arbitrary: n)
  case (Suc k)
  have "10 \<le> n" using Suc.prems by (metis le_trans one_le_numeral one_le_power power_Suc mult_le_mono2 mult.right_neutral)
  moreover have "10 ^ k \<le> n div 10" using Suc.prems by (simp add: less_eq_div_iff_mult_less_eq mult.commute)
  ultimately show ?case using Suc.IH [of "n div 10"] length_dec_nat_div by (simp add: div_mult2_eq)
qed simp

lemma length_dec_nat_between: "10 ^ k \<le> n \<Longrightarrow> n < 10 ^ Suc k \<Longrightarrow> length (dec_nat n) = Suc k"
  using length_dec_nat_pow [of k n] by (simp add: dec_nat_small less_mult_imp_div_less)

lemma digits10_dec: "digits10 v = length (dec_nat (unat v))"
proof (induction v rule: digits10.induct)
  case (1 v)
  note b = length_dec_nat_between [of _ "unat v"]
  show ?case
  proof (cases "v < 1000000000000")
    case True
    show ?thesis
      using True b [of 1] b [of 2] b [of 3] b [of 4] b [of 5] b [of 6] b [of 7] b [of 8] b [of 9] b [of 10] b [of 11]
        dec_nat_small [of "unat v"]
      by (subst digits10.simps) (simp add: word_less_nat_alt word_le_nat_alt split: if_splits)
  next
    case False
    have "(10::nat) ^ 12 \<le> unat v" using False by (simp add: word_less_nat_alt)
    from length_dec_nat_pow [OF this] False show ?thesis
      using "1.IH" by (subst digits10.simps) (auto simp: word_less_nat_alt unat_div)
  qed
qed


lemma digit_pairs_eq: "digit_pairs = concat (map (\<lambda>i. [48 + of_nat (i div 10), 48 + of_nat (i mod 10)]) [0..<100])"
  by (simp add: digit_pairs_def upt_rec)
lemma nth_concat_pairs: "i < n \<Longrightarrow> concat (map (\<lambda>i. [f i, g i]) [0..<n]) ! (2 * i) = f i \<and> concat (map (\<lambda>i. [f i, g i]) [0..<n]) ! Suc (2 * i) = g i"
proof (induction n)
  case (Suc n)
  have "length (concat (map (\<lambda>i. [f i, g i]) [0..<n])) = 2 * n" by (induction n) auto
  then show ?case using Suc by (cases "i = n") (auto simp: nth_append)
qed simp
lemma digit_pairs_nth:
  assumes "i < 100"
  shows "digit_pairs ! (i * 2) = 48 + of_nat (i div 10)" "digit_pairs ! Suc (i * 2) = 48 + of_nat (i mod 10)"
  using nth_concat_pairs [OF assms, of "\<lambda>i. 48 + of_nat (i div 10) :: u8" "\<lambda>i. 48 + of_nat (i mod 10)"]
  by (simp_all add: digit_pairs_eq mult.commute)

lemma sint_u64: "sint (w :: u64) = (if unat w < 2 ^ 63 then int (unat w) else int (unat w) - 2 ^ 64)"
proof -
  have s: "sint w = (uint w + 2 ^ 63) mod 2 ^ 64 - 2 ^ 63"
    by (simp add: sint_uint signed_take_bit_eq_take_bit_shift take_bit_eq_mod)
  define n where "n = unat w"
  then have n: "uint w = int n" "unat w = n" by simp_all
  have l: "n < 2 ^ 64" using unsigned_less [of w, where 'a = nat] n by simp
  show ?thesis
  proof (cases "n < 2 ^ 63")
    case True
    then have "(int n + 2 ^ 63) mod 2 ^ 64 = int n + 2 ^ 63" by (intro mod_pos_pos_trivial) auto
    then show ?thesis using s True n by simp
  next
    case False
    have "(int n + 2 ^ 63) mod 2 ^ 64 = (int n + 2 ^ 63 - 2 ^ 64) mod 2 ^ 64" by (simp only: minus_mod_self2)
    also have "\<dots> = int n + 2 ^ 63 - 2 ^ 64" using l False by (intro mod_pos_pos_trivial) auto
    finally show ?thesis using s False n by simp
  qed
qed

section \<open>Printing\<close>

text \<open>What the digit writer leaves in the buffer, the last one or two digits included.\<close>

definition ll2s_last :: "u64 \<times> u32 \<times> bytes \<Rightarrow> bytes" where
  "ll2s_last r = (case r of (v, pos, dst) \<Rightarrow>
     if v < 10 then dst[unat pos := 48 + ucast v]
     else let i = unat v * 2; dst = dst[unat pos := digit_pairs ! (i + 1)]
          in dst[unat (pos - 1) := digit_pairs ! i])"

lemma drop_update_two:
  "Suc k < length xs \<Longrightarrow> drop k (xs[Suc k := b, k := a]) = a # b # drop (k + 2) xs"
  by (simp add: Cons_nth_drop_Suc [symmetric] drop_update_swap nth_list_update)

lemma dec_nat_two:
  assumes "100 \<le> n"
  shows "dec_nat n = dec_nat (n div 100) @ [48 + of_nat (n mod 100 div 10), 48 + of_nat (n mod 10)]"
proof -
  have "n mod (10 * 10) = 10 * (n div 10 mod 10) + n mod 10" by (rule mod_mult2_eq)
  then have "n div 10 mod 10 = n mod 100 div 10" by simp
  moreover have "n div 10 div 10 = n div 100" by (simp add: div_mult2_eq [symmetric])
  ultimately show ?thesis
    using assms dec_nat_big [of n] dec_nat_big [of "n div 10"] by simp
qed

lemma unat_pred: "0 < unat (w :: u32) \<Longrightarrow> unat (w - 1) = unat w - 1"
  by (metis Suc_leI unat_1 unat_sub word_le_nat_alt One_nat_def)

lemma unat_pred2: "1 < unat (w :: u32) \<Longrightarrow> unat (w - 2) = unat w - 2"
proof -
  assume "1 < unat w"
  then have "2 \<le> w" by (simp add: word_le_nat_alt)
  then show ?thesis by (simp add: unat_sub)
qed

lemma ll2s_loop_writes:
  assumes "unat pos + 1 = off + length (dec_nat (unat v))" and "off + length (dec_nat (unat v)) \<le> length dst"
  shows "ll2s_last (ll2s_loop v pos dst) =
    take off dst @ dec_nat (unat v) @ drop (off + length (dec_nat (unat v))) dst"
  using assms
proof (induction v pos dst rule: ll2s_loop.induct)
  case (1 v pos dst)
  let ?n = "length (dec_nat (unat v))"
  show ?case
  proof (cases "100 \<le> v")
    case big: True
    define i where "i = unat (v mod 100)"
    have i: "i < 100" "i = unat v mod 100" by (simp_all add: i_def unat_mod)
    have v: "100 \<le> unat v" using big by (simp add: word_le_nat_alt)
    let ?m = "length (dec_nat (unat v div 100))"
    have n: "?n = ?m + 2" by (simp add: dec_nat_two [OF v])
    have m: "0 < ?m" by simp
    define dst' where "dst' = dst[unat pos := digit_pairs ! (i * 2 + 1), unat (pos - 1) := digit_pairs ! (i * 2)]"
    have p1: "unat (pos - 1) = unat pos - 1" and p2: "unat (pos - 2) = unat pos - 2"
      using "1.prems"(1) n m unat_pred [of pos] unat_pred2 [of pos] by simp_all
    have IH: "ll2s_last (ll2s_loop (v div 100) (pos - 2) dst') =
        take off dst' @ dec_nat (unat v div 100) @ drop (off + ?m) dst'"
      using "1.IH" [OF big refl refl refl] "1.prems" n m p2
      by (simp add: dst'_def unat_div i_def)
    have "drop (off + ?m) dst' = digit_pairs ! (i * 2) # digit_pairs ! (i * 2 + 1) # drop (off + ?m + 2) dst"
      unfolding dst'_def p1 using "1.prems" n drop_update_two [of "off + ?m" dst] by simp
    moreover have "take off dst' = take off dst" unfolding dst'_def p1 using "1.prems" n m by simp
    moreover have "ll2s_loop v pos dst = ll2s_loop (v div 100) (pos - 2) dst'"
      using big by (subst ll2s_loop.simps) (simp add: dst'_def i_def Let_def)
    ultimately show ?thesis
      using IH n digit_pairs_nth [OF i(1)] by (simp add: dec_nat_two [OF v] i(2) mod_mod_cancel)
  next
    case False
    then have eq: "ll2s_loop v pos dst = (v, pos, dst)" by (subst ll2s_loop.simps) simp
    have v: "unat v < 100" using False by (simp add: word_le_nat_alt)
    show ?thesis
    proof (cases "v < 10")
      case True
      then have "unat v < 10" by (simp add: word_less_nat_alt)
      then have d: "dec_nat (unat v) = [48 + of_nat (unat v)]" by (rule dec_nat_small)
      then have "unat pos = off" using "1.prems" by simp
      then show ?thesis
        using "1.prems" True d by (simp add: eq ll2s_last_def upd_conv_take_nth_drop)
    next
      case ge: False
      then have "10 \<le> unat v" by (simp add: word_less_nat_alt)
      then have d: "dec_nat (unat v) = [48 + of_nat (unat v div 10), 48 + of_nat (unat v mod 10)]"
        using dec_nat_big [of "unat v"] dec_nat_small [of "unat v div 10"] v by simp
      then have pos: "unat pos = Suc off" using "1.prems" by simp
      then have p1: "unat (pos - 1) = off" using unat_pred [of pos] by simp
      have l: "Suc off < length dst" using "1.prems" d by simp
      have "take off (dst[Suc off := a, off := b]) = take off dst" for a b by simp
      then have "dst[Suc off := a, off := b] = take off dst @ b # a # drop (off + 2) dst" for a b
        using drop_update_two [OF l, of a b] by (metis append_take_drop_id)
      then show ?thesis
        using ge d pos p1 digit_pairs_nth [OF v] by (simp add: eq ll2s_last_def Let_def)
    qed
  qed
qed

lemma LLONG_neg [simp]: "- LLONG_MIN = LLONG_MIN"
  by (simp add: LLONG_MIN_def)

lemma LLONG_unat: "unat LLONG_MIN = 2 ^ 63" "unat LLONG_MAX = 2 ^ 63 - 1" "LLONG_MAX + 1 = LLONG_MIN"
  by (simp_all add: LLONG_MIN_def LLONG_MAX_def)

text \<open>The absolute value the printer works on.\<close>

lemma ll_abs:
  "unat (if sint v < 0 then (if v \<noteq> LLONG_MIN then - v else LLONG_MAX + 1) else v) = nat \<bar>sint v\<bar>"
proof (cases "sint v < 0")
  case True
  then have big: "\<not> unat v < 2 ^ 63" by (auto simp: sint_u64)
  have lt: "unat v < 2 ^ 64" using unsigned_less [of v, where 'a = nat] by simp
  have "unat (if v \<noteq> LLONG_MIN then - v else LLONG_MAX + 1) = 2 ^ 64 - unat v"
  proof (cases "v = LLONG_MIN")
    case True
    then show ?thesis by (simp add: LLONG_unat)
  next
    case False
    have "v \<noteq> 0" using big by auto
    then have "0 < unat v" by (simp add: unat_gt_0)
    then show ?thesis using False unat_sub_if_size [of 0 v] by (simp add: word_size)
  qed
  moreover have "nat \<bar>int n - 2 ^ 64\<bar> = 2 ^ 64 - n" if "n < 2 ^ 64" for n :: nat
    using that by (simp add: nat_eq_iff)
  then have "nat \<bar>sint v\<bar> = 2 ^ 64 - unat v"
    using lt big by (simp only: sint_u64 if_False)
  ultimately show ?thesis by (simp only: True if_True)
next
  case False
  have "unat v < 2 ^ 63"
  proof (rule ccontr)
    assume "\<not> ?thesis"
    then have "sint v = int (unat v) - 2 ^ 64" by (simp only: sint_u64 if_False)
    moreover have "int (unat v) < 2 ^ 64" using unsigned_less [of v, where 'a = int] by simp
    ultimately show False using False by linarith
  qed
  then have "sint v = int (unat v)" by (simp only: sint_u64 if_True)
  then have "nat \<bar>sint v\<bar> = unat v" by (simp only: abs_of_nat nat_int)
  then show ?thesis by (simp only: False if_False)
qed

lemma dec_int_abs: "dec_int i = (if i < 0 then [45] else []) @ dec_nat (nat \<bar>i\<bar>)"
  by (simp add: dec_int_def)

lemma length_dec_nat_u64: "length (dec_nat (unat (v :: u64))) \<le> 20"
proof (cases "unat v < 10 ^ 19")
  case True
  show ?thesis
  proof (cases "unat v = 0")
    case False
    then obtain k where "10 ^ k \<le> unat v" and "unat v < 10 ^ Suc k"
      using ex_power_ivl1 [of 10 "unat v"] by auto
    then have "10 ^ k < (10 :: nat) ^ 19" using True by (metis le_less_trans)
    then have "k < 19" by (rule power_less_imp_less_exp [rotated]) simp
    moreover have "length (dec_nat (unat v)) = Suc k"
      using length_dec_nat_between [OF \<open>10 ^ k \<le> unat v\<close> \<open>unat v < 10 ^ Suc k\<close>] .
    ultimately show ?thesis by simp
  qed (simp add: dec_nat_small)
next
  case False
  have "unat v < 10 ^ Suc 19" using unsigned_less [of v, where 'a = nat] by simp
  then show ?thesis using length_dec_nat_between [of 19 "unat v"] False by simp
qed

lemma ll2string_text:
  "ll2string dst v =
     (if length (dec_int (sint v)) < length dst
      then (dec_int (sint v) @ [0] @ drop (length (dec_int (sint v)) + 1) dst, length (dec_int (sint v)))
      else (dst, 0))"
proof -
  define w where "w = (if sint v < 0 then (if v \<noteq> LLONG_MIN then - v else LLONG_MAX + 1) else v)"
  define off where "off = (if sint v < 0 then 1 else 0 :: nat)"
  have w: "unat w = nat \<bar>sint v\<bar>" unfolding w_def by (rule ll_abs)
  define t where "t = dec_nat (unat w)"
  define n where "n = off + length t"
  have dec: "dec_int (sint v) = (if sint v < 0 then [45] else []) @ t"
    by (simp add: dec_int_abs t_def w)
  then have len: "length (dec_int (sint v)) = n" by (simp add: n_def off_def)
  have dig: "digits10 w + off = n" by (simp add: digits10_dec n_def t_def)
  have "length t \<le> 20"
    unfolding t_def by (rule length_dec_nat_u64)
  then have n: "0 < n" "n \<le> 21" by (auto simp: n_def off_def t_def)
  then have pos: "unat (of_nat n :: u32) = n" by (simp add: unat_of_nat)
  then have pos1: "unat (of_nat n - 1 :: u32) = n - 1" using unat_pred [of "of_nat n"] n by simp
  have body: "ll2string dst v = (if length dst \<le> n then (dst, 0) else
      ((let d = ll2s_last (ll2s_loop w (of_nat n - 1) (dst[n := 0])) in if sint v < 0 then d[0 := 45] else d), n))"
    unfolding ll2string_def Let_def w_def [symmetric] off_def [symmetric] dig
    by (simp add: pos ll2s_last_def Let_def split_beta)
  show ?thesis
  proof (cases "n < length dst")
    case False
    then show ?thesis using body len by simp
  next
    case True
    have "ll2s_last (ll2s_loop w (of_nat n - 1) (dst[n := 0])) = take off (dst[n := 0]) @ t @ drop n (dst[n := 0])"
      using ll2s_loop_writes [of "of_nat n - 1" off w "dst[n := 0]"] True pos1 n(1)
      by (simp add: n_def t_def)
    also have "drop n (dst[n := 0]) = 0 # drop (n + 1) dst"
      using True by (simp add: Cons_nth_drop_Suc [symmetric])
    finally have e: "ll2s_last (ll2s_loop w (of_nat n - 1) (dst[n := 0])) =
        take off (dst[n := 0]) @ t @ 0 # drop (n + 1) dst" .
    have "ll2string dst v =
        ((let d = take off (dst[n := 0]) @ t @ 0 # drop (n + 1) dst in if sint v < 0 then d[0 := 45] else d), n)"
      unfolding body e using True by simp
    moreover have "dst[n := 0] \<noteq> []" using True by auto
    ultimately show ?thesis
      using True dec by (auto simp: len [symmetric] off_def Let_def take_Suc)
  qed
qed

text \<open>
  \<^verbatim>\<open>ll2string\<close> writes the decimal text of its argument and a NUL byte into a buffer that is
  large enough, touches no other byte of it and returns the length of the text; into any
  smaller buffer it writes nothing and returns 0.  This includes \<^verbatim>\<open>LLONG_MIN\<close>, which has no
  absolute value in 64 bits.
\<close>

theorem ll2string_correct:
  "ll2string dst v =
     (if length (dec_int (sint v)) < length dst
      then (dec_int (sint v) @ [0] @ drop (length (dec_int (sint v)) + 1) dst, length (dec_int (sint v)))
      else (dst, 0))"
  by (rule ll2string_text)

lemma length_dec_int_u64: "length (dec_int (sint (v :: u64))) \<le> 21"
proof -
  have "length (dec_int (sint v)) \<le> 1 + length (dec_nat (nat \<bar>sint v\<bar>))" by (simp add: dec_int_abs)
  also have "length (dec_nat (nat \<bar>sint v\<bar>)) \<le> 20"
    using length_dec_nat_u64 [of "if sint v < 0 then (if v \<noteq> LLONG_MIN then - v else LLONG_MAX + 1) else v"]
    by (simp only: ll_abs)
  finally show ?thesis by simp
qed

section \<open>Parsing\<close>

text \<open>The number a digit string continues from \<open>a\<close>.\<close>

fun dec_val :: "nat \<Rightarrow> bytes \<Rightarrow> nat" where
  "dec_val a [] = a"
| "dec_val a (c # p) = dec_val (a * 10 + unat (c - 48)) p"

lemma dec_val_ge: "a \<le> dec_val a p"
proof (induction p arbitrary: a)
  case (Cons c p)
  have "a \<le> a * 10 + unat (c - 48)" by simp
  also have "\<dots> \<le> dec_val (a * 10 + unat (c - 48)) p" by (rule Cons.IH)
  finally show ?case by simp
qed simp

lemma dec_val_snoc: "dec_val a (p @ [c]) = dec_val a p * 10 + unat (c - 48)"
  by (induction p arbitrary: a) auto

lemma is_digit_unat:
  assumes "is_digit c"
  shows "unat (c - 48) < 10" and "c = 48 + of_nat (unat (c - 48))"
proof -
  have "48 \<le> unat c" "unat c \<le> 57" using assms by (simp_all add: is_digit_def word_le_nat_alt)
  moreover have "unat (c - 48) = unat c - 48" using assms by (simp add: unat_sub is_digit_def)
  ultimately show "unat (c - 48) < 10" by simp
qed simp

lemma digit_of_nat:
  assumes "d < 10"
  shows "is_digit (48 + of_nat d)" "unat (48 + of_nat d - 48 :: u8) = d"
proof -
  have "unat (of_nat d :: u8) = d" using assms by (simp add: unat_of_nat)
  moreover have "unat (48 + of_nat d :: u8) = 48 + d" using assms by (simp add: unat_word_ariths unat_of_nat)
  ultimately show "is_digit (48 + of_nat d)" "unat (48 + of_nat d - 48 :: u8) = d"
    using assms by (simp_all add: is_digit_def word_le_nat_alt)
qed

lemma dec_nat_val:
  "0 < a \<Longrightarrow> \<forall>c \<in> set p. is_digit c \<Longrightarrow> dec_nat (dec_val a p) = dec_nat a @ p"
proof (induction p arbitrary: a)
  case (Cons c p)
  have d: "unat (c - 48) < 10" "c = 48 + of_nat (unat (c - 48))"
    using Cons.prems(2) is_digit_unat [of c] by simp_all
  have "dec_nat (a * 10 + unat (c - 48)) = dec_nat a @ [c]"
    using dec_nat_big [of "a * 10 + unat (c - 48)"] Cons.prems(1) d by simp
  then show ?case using Cons by simp
qed simp

text \<open>Every positive number is written with a first digit that is not 0.\<close>

lemma dec_nat_form:
  "0 < n \<Longrightarrow> \<exists>c p. dec_nat n = c # p \<and> 49 \<le> c \<and> c \<le> 57 \<and> (\<forall>c \<in> set p. is_digit c) \<and>
     n = dec_val (unat (c - 48)) p"
proof (induction n rule: dec_nat.induct)
  case (1 n)
  show ?case
  proof (cases "n < 10")
    case True
    have "unat (48 + of_nat n :: u8) = 48 + n" using True by (simp add: unat_word_ariths unat_of_nat)
    then show ?thesis
      using True "1.prems" digit_of_nat [OF True] by (simp add: dec_nat_small word_le_nat_alt)
  next
    case False
    then obtain c p where cp: "dec_nat (n div 10) = c # p" "49 \<le> c" "c \<le> 57" "\<forall>c \<in> set p. is_digit c"
      "n div 10 = dec_val (unat (c - 48)) p"
      using "1.IH" [OF False] False by (metis div_greater_zero_iff not_less zero_less_numeral)
    then have "dec_nat n = c # p @ [48 + of_nat (n mod 10)]" using dec_nat_big [of n] False by simp
    moreover have "n = dec_val (unat (c - 48)) (p @ [48 + of_nat (n mod 10)])"
      using digit_of_nat(2) [of "n mod 10"] by (simp add: dec_val_snoc cp(5) [symmetric])
    ultimately show ?thesis using cp(2-4) digit_of_nat(1) [of "n mod 10"] by auto
  qed
qed

lemma ull_split:
  assumes "d < 10"
  shows "\<not> ULLONG_MAX div 10 < v \<and> \<not> ULLONG_MAX - of_nat d < v * 10 \<longleftrightarrow> unat v * 10 + d < 2 ^ 64"
    and "unat v * 10 + d < 2 ^ 64 \<Longrightarrow> unat (v * 10 + of_nat d) = unat v * 10 + d"
proof -
  have a: "ULLONG_MAX div 10 < v \<longleftrightarrow> 1844674407370955161 < unat v"
    by (simp add: ULLONG_MAX_def word_less_nat_alt)
  have d: "unat (of_nat d :: u64) = d" using assms by (simp add: unat_of_nat)
  have m: "unat (ULLONG_MAX - of_nat d) = 2 ^ 64 - 1 - d"
    using assms d by (subst unat_sub) (simp_all add: ULLONG_MAX_def word_le_nat_alt)
  have v10: "unat (v * 10) = unat v * 10" if "unat v \<le> 1844674407370955161"
    using that by (simp add: unat_word_ariths)
  show "\<not> ULLONG_MAX div 10 < v \<and> \<not> ULLONG_MAX - of_nat d < v * 10 \<longleftrightarrow> unat v * 10 + d < 2 ^ 64"
    using a v10 m assms by (auto simp: word_less_nat_alt not_less)
  show "unat (v * 10 + of_nat d) = unat v * 10 + d" if "unat v * 10 + d < 2 ^ 64"
    using that d by (simp add: unat_word_ariths)
qed

lemma s2ll_loop_iff:
  "s2ll_loop v p = Some (v', []) \<longleftrightarrow>
     (\<forall>c \<in> set p. is_digit c) \<and> dec_val (unat v) p < 2 ^ 64 \<and> unat v' = dec_val (unat v) p"
proof (induction p arbitrary: v)
  case Nil
  then show ?case using unsigned_less [of v, where 'a = nat] by (auto simp: word_unat_eq_iff)
next
  case (Cons c p)
  show ?case
  proof (cases "is_digit c")
    case False
    then show ?thesis by simp
  next
    case True
    define d where "d = unat (c - 48)"
    have d: "d < 10" using is_digit_unat(1) [OF True] by (simp add: d_def)
    have u: "ucast (c - 48) = (of_nat d :: u64)" by (simp add: d_def)
    show ?thesis
    proof (cases "unat v * 10 + d < 2 ^ 64")
      case fit: True
      have "s2ll_loop v (c # p) = s2ll_loop (v * 10 + of_nat d) p"
        using ull_split(1) [OF d, of v] fit True unfolding u [symmetric] by (simp add: Let_def)
      then show ?thesis using Cons.IH [of "v * 10 + of_nat d"] ull_split(2) [OF d fit] True
        by (simp add: d_def)
    next
      case False
      then have "s2ll_loop v (c # p) = None"
        using ull_split(1) [OF d, of v] True unfolding u [symmetric] by (auto simp: Let_def)
      moreover have "\<not> dec_val (unat v * 10 + d) p < 2 ^ 64"
        using False dec_val_ge [of "unat v * 10 + d" p] by linarith
      ultimately show ?thesis by (simp add: d_def)
    qed
  qed
qed

lemma s2ll_magnitude:
  assumes "49 \<le> d" and "d \<le> 57"
  shows "s2ll_loop (ucast (d - 48)) p = Some (w, []) \<longleftrightarrow> dec_nat (unat w) = d # p"
proof -
  have dig: "is_digit d" using assms by (auto simp: is_digit_def word_le_nat_alt)
  have pos: "0 < unat (d - 48)"
    using assms by (simp add: unat_sub word_le_nat_alt)
  have u: "unat (ucast (d - 48) :: u64) = unat (d - 48)"
    using is_digit_unat(1) [OF dig] by (simp add: unsigned_ucast_eq take_bit_nat_eq_self)
  have first: "dec_nat (unat (d - 48)) = [d]"
    using is_digit_unat [OF dig] by (simp add: dec_nat_small)
  show ?thesis
  proof
    assume "s2ll_loop (ucast (d - 48)) p = Some (w, [])"
    then show "dec_nat (unat w) = d # p"
      using dec_nat_val [OF pos, of p] first unfolding s2ll_loop_iff u by simp
  next
    assume a: "dec_nat (unat w) = d # p"
    have "0 < unat w"
    proof (rule ccontr)
      assume "\<not> 0 < unat w"
      then have "dec_nat (unat w) = [48]" by (simp add: dec_nat_small)
      then show False using a assms by (simp add: word_le_nat_alt)
    qed
    from dec_nat_form [OF this] a have "\<forall>c \<in> set p. is_digit c" and "unat w = dec_val (unat (d - 48)) p"
      by auto
    then show "s2ll_loop (ucast (d - 48)) p = Some (w, [])"
      using unsigned_less [of w, where 'a = nat] unfolding s2ll_loop_iff u by simp
  qed
qed

lemma sint_minus_u64:
  assumes "0 < unat w" and "unat w \<le> 2 ^ 63"
  shows "sint (- w :: u64) = - int (unat w)"
proof -
  define n where "n = unat w"
  have "unat (- w) = 2 ^ 64 - n" using assms unat_sub_if_size [of 0 w] by (simp add: word_size n_def)
  moreover have "\<not> 2 ^ 64 - n < 2 ^ 63" and "int (2 ^ 64 - n) = 2 ^ 64 - int n"
    using assms by (auto simp: n_def of_nat_diff)
  ultimately have "sint (- w) = - int n" by (simp only: sint_u64 if_False)
  then show ?thesis by (simp only: n_def)
qed

lemma dec_int_neg: "0 < n \<Longrightarrow> dec_int (- int n) = 45 # dec_nat n"
  by (simp add: dec_int_def)

lemma dec_int_of_nat: "dec_int (int n) = dec_nat n"
  by (simp add: dec_int_def)

lemma string2ll_sound:
  assumes "string2ll s = Some v"
  shows "s = dec_int (sint v)"
proof -
  have zero: "dec_int (sint (0 :: u64)) = [48]" by (simp add: dec_int_def dec_nat_small)
  obtain c s' where s: "s = c # s'" using assms by (cases s) (auto simp: string2ll_def)
  show ?thesis
  proof (cases "s' = [] \<and> c = 48")
    case True
    then show ?thesis using assms zero by (simp add: string2ll_def s)
  next
    case False
    have mag: "dec_nat (unat w) = d # p" and pos: "0 < unat w"
      if "s2ll_loop (ucast (d - 48)) p = Some (w, [])" "49 \<le> d" "d \<le> 57" for d p w
    proof -
      show m: "dec_nat (unat w) = d # p" using that s2ll_magnitude by blast
      show "0 < unat w"
        using that(2) m by (cases "unat w = 0") (auto simp: dec_nat_small word_le_nat_alt)
    qed
    show ?thesis
    proof (cases "c = 45")
      case True
      then obtain d p w where s': "s' = d # p" and d: "49 \<le> d" "d \<le> 57"
        and l: "s2ll_loop (ucast (d - 48)) p = Some (w, [])" and w: "\<not> LLONG_MIN < w" "v = - w"
        using assms False unfolding string2ll_def s
        by (cases s') (auto simp: Let_def split: if_splits option.splits)
      have "unat w \<le> 2 ^ 63" using w(1) by (auto simp: word_less_nat_alt LLONG_unat)
      then have "sint v = - int (unat w)" using pos [OF l d] sint_minus_u64 w(2) by blast
      then show ?thesis
        using s s' by (simp only: True dec_int_neg [OF pos [OF l d]] mag [OF l d])
    next
      case ge: False
      then obtain w where d: "49 \<le> c" "c \<le> 57"
        and l: "s2ll_loop (ucast (c - 48)) s' = Some (w, [])" and w: "\<not> LLONG_MAX < w" "v = w"
        using assms False unfolding string2ll_def s
        by (auto simp: Let_def split: if_splits option.splits)
      have "unat w < 2 ^ 63" using w(1) by (auto simp: word_less_nat_alt LLONG_unat)
      then have "sint v = int (unat w)" unfolding w(2) by (simp only: sint_u64 if_True)
      then show ?thesis by (simp only: s dec_int_of_nat mag [OF l d])
    qed
  qed
qed

lemma string2ll_complete: "string2ll (dec_int (sint v)) = Some v"
proof -
  define w where "w = (if sint v < 0 then (if v \<noteq> LLONG_MIN then - v else LLONG_MAX + 1) else v)"
  have w: "unat w = nat \<bar>sint v\<bar>" unfolding w_def by (rule ll_abs)
  have vw: "v = (if sint v < 0 then - w else w)"
    by (simp add: w_def LLONG_unat(3))
  have lim: "- (LLONG_MIN + 1) + 1 = LLONG_MIN" by (simp add: LLONG_MIN_def)
  have range: "- (2 ^ 63) \<le> sint v" "sint v < 2 ^ 63"
    using sint_greater_eq [of v] sint_less [of v] by simp_all
  have dec: "dec_int (sint v) = (if sint v < 0 then [45] else []) @ dec_nat (unat w)"
    by (simp add: dec_int_abs w)
  show ?thesis
  proof (cases "unat w = 0")
    case True
    then have "sint v = 0" using w by simp
    moreover have "v = 0" using vw True \<open>sint v = 0\<close> by (simp add: unat_eq_0)
    ultimately show ?thesis by (simp add: dec_int_def dec_nat_small string2ll_def)
  next
    case False
    then obtain d p where dp: "dec_nat (unat w) = d # p" "49 \<le> d" "d \<le> 57"
      using dec_nat_form [of "unat w"] by auto
    have l: "s2ll_loop (ucast (d - 48)) p = Some (w, [])"
      using dp s2ll_magnitude by blast
    have ne: "d \<noteq> 48" "d \<noteq> 45" using dp(2) by (auto simp: word_le_nat_alt)
    have fits: "\<not> LLONG_MAX < w" if "\<not> sint v < 0"
      using that range w by (simp add: word_less_nat_alt LLONG_unat)
    have fits': "\<not> LLONG_MIN < w" if "sint v < 0"
      using that range w by (simp add: word_less_nat_alt LLONG_unat)
    show ?thesis
    proof (cases "sint v < 0")
      case True
      have "string2ll (45 # d # p) = Some (- w)"
        using l dp(2,3) fits' [OF True] lim by (simp add: string2ll_def Let_def)
      then show ?thesis using dec dp(1) vw True by simp
    next
      case False
      have "string2ll (d # p) = Some w"
        using l dp(2,3) fits [OF False] ne by (simp add: string2ll_def Let_def)
      then show ?thesis using dec dp(1) vw False by simp
    qed
  qed
qed

lemma string2ll_iff: "string2ll s = Some v \<longleftrightarrow> s = dec_int (sint v)"
  using string2ll_sound string2ll_complete by blast

text \<open>
  C34. \<^verbatim>\<open>string2ll\<close> accepts exactly the canonical decimal texts of the 64-bit integers (no plus
  sign, no leading zero, no \<^verbatim>\<open>-0\<close>, nothing out of range), each as the integer it is.
\<close>

theorem string2ll_exact: "string2ll s = Some v \<longleftrightarrow> s = dec_int (sint v)"
  by (rule string2ll_iff)

lemma string2l_exact: "string2l s = string2ll s"
proof -
  have "\<not> (sint v < - (2 ^ 63) \<or> 2 ^ 63 - 1 < sint v)" for v :: u64
    using sint_greater_eq [of v] sint_less [of v] by simp
  then show ?thesis by (simp only: string2l_def if_False) (simp split: option.splits)
qed

text \<open>
  C35. Printing and parsing are inverse: the text \<^verbatim>\<open>ll2string\<close> leaves in a large enough buffer is
  read back by \<^verbatim>\<open>string2l\<close> as the same integer, and no other text is.
\<close>

theorem ll2string_roundtrip:
  assumes "21 < length dst"
  shows "(case ll2string dst v of (buf, len) \<Rightarrow>
     string2l (take len buf) = Some v \<and> (\<forall>s. string2l s = Some v \<longrightarrow> s = take len buf))"
proof -
  note length_dec_int_u64 [of v]
  then have run: "ll2string dst v = (dec_int (sint v) @ [0] @ drop (length (dec_int (sint v)) + 1) dst, length (dec_int (sint v)))"
    using assms by (simp add: ll2string_text)
  have pre: "take (length xs) (xs @ ys) = xs" for xs ys :: bytes by simp
  show ?thesis
    unfolding run prod.case pre string2l_exact using string2ll_complete string2ll_sound by blast
qed

theorem ll2string_roundtrip_witness:
  "(case ll2string (replicate 32 0) (- 45) of (buf, len) \<Rightarrow> string2l (take len buf) = Some (- 45))"
  using ll2string_roundtrip [of "replicate 32 0" "- 45"] by (simp add: split_beta)

end
