(* ===== verification/Bytes.thy ===== *)
theory Bytes
  imports Prelude
begin

text \<open>
  Little-endian numbers in byte buffers, and writes at an offset: what \<^verbatim>\<open>memcpy\<close> of an
  integer, a store through a cast pointer and \<^verbatim>\<open>memmove\<close> do on the (little-endian) machine the
  development fixes.  The byte-swapping macros of \<^verbatim>\<open>endianconv.h\<close> are the identity there.
\<close>

section \<open>Numbers\<close>

fun le_bytes :: "nat \<Rightarrow> nat \<Rightarrow> bytes" where
  "le_bytes 0 v = []"
| "le_bytes (Suc n) v = of_nat (v mod 256) # le_bytes n (v div 256)"

fun le_val :: "bytes \<Rightarrow> nat" where
  "le_val [] = 0"
| "le_val (b # bs) = unat b + 256 * le_val bs"

lemma length_le_bytes [simp]: "length (le_bytes n v) = n"
  by (induction n arbitrary: v) auto

lemma le_val_bytes: "le_val (le_bytes n v) = v mod 256 ^ n"
proof (induction n arbitrary: v)
  case (Suc n)
  have "v mod 256 ^ Suc n = 256 * (v div 256 mod 256 ^ n) + v mod 256"
    using mod_mult2_eq [of v 256 "256 ^ n"] by simp
  then show ?case using Suc by (simp add: unat_of_nat)
qed simp

lemma unat_u8_less [simp]: "unat (b :: u8) < 256"
  using unsigned_less [of b, where 'a = nat] by simp

lemma le_bytes_val: "le_bytes (length bs) (le_val bs) = bs"
proof (induction bs)
  case (Cons b bs)
  have "(unat b + 256 * le_val bs) mod 256 = unat b" and "(unat b + 256 * le_val bs) div 256 = le_val bs"
    using unat_u8_less [of b] by simp_all
  then show ?case using Cons by simp
qed simp

lemma le_val_less: "le_val bs < 256 ^ length bs"
proof (induction bs)
  case (Cons b bs)
  define m :: nat where "m = 256 ^ length bs"
  have "le_val bs + 1 \<le> m" using Cons by (simp add: m_def)
  then have "unat b + 256 * le_val bs < 256 * m" using unat_u8_less [of b] by linarith
  then show ?case by (simp add: m_def)
qed simp

section \<open>Writing\<close>

definition write_at :: "nat \<Rightarrow> 'a list \<Rightarrow> 'a list \<Rightarrow> 'a list" where
  "write_at i bs xs = take i xs @ bs @ drop (i + length bs) xs"

text \<open>\<^verbatim>\<open>memmove(buf + dst, buf + src, n)\<close>\<close>

definition memmove_at :: "nat \<Rightarrow> nat \<Rightarrow> nat \<Rightarrow> 'a list \<Rightarrow> 'a list" where
  "memmove_at dst src n xs = write_at dst (take n (drop src xs)) xs"

lemma length_write_at [simp]: "i + length bs \<le> length xs \<Longrightarrow> length (write_at i bs xs) = length xs"
  by (simp add: write_at_def)

lemma take_write_at: "k \<le> i \<Longrightarrow> i \<le> length xs \<Longrightarrow> take k (write_at i bs xs) = take k xs"
  by (simp add: write_at_def)

lemma drop_write_at:
  "i \<le> length xs \<Longrightarrow> drop (i + length bs) (write_at i bs xs) = drop (i + length bs) xs"
  by (simp add: write_at_def)

section \<open>Arrays of fixed-size elements\<close>

definition encode_all :: "('a \<Rightarrow> 'b list) \<Rightarrow> 'a list \<Rightarrow> 'b list" where
  "encode_all f xs = concat (map f xs)"

lemma encode_all_simps [simp]:
  "encode_all f [] = []" "encode_all f (x # xs) = f x @ encode_all f xs"
  "encode_all f (xs @ ys) = encode_all f xs @ encode_all f ys"
  by (simp_all add: encode_all_def)

lemma length_encode_all: "\<forall>x. length (f x) = w \<Longrightarrow> length (encode_all f xs) = length xs * w"
  by (induction xs) auto

lemma drop_encode_all: "\<forall>x. length (f x) = w \<Longrightarrow> drop (i * w) (encode_all f xs) = encode_all f (drop i xs)"
proof (induction xs arbitrary: i)
  case (Cons x xs)
  then show ?case by (cases i) auto
qed simp

lemma take_encode_all: "\<forall>x. length (f x) = w \<Longrightarrow> take (i * w) (encode_all f xs) = encode_all f (take i xs)"
proof (induction xs arbitrary: i)
  case (Cons x xs)
  then show ?case by (cases i) auto
qed simp

lemma nth_encode_all:
  assumes w: "\<forall>x. length (f x) = w" and i: "i < length xs"
  shows "take w (drop (i * w) (encode_all f xs)) = f (xs ! i)"
  using drop_encode_all [OF w, of i xs] w i by (simp add: Cons_nth_drop_Suc [symmetric])

lemma write_encode_all:
  assumes w: "\<forall>x. length (f x) = w" and i: "i < length xs"
  shows "write_at (i * w) (f y) (encode_all f xs) = encode_all f (xs[i := y])"
proof -
  have "i * w + length (f y) = Suc i * w" using w by simp
  then show ?thesis
    using i by (simp only: write_at_def take_encode_all [OF w] drop_encode_all [OF w])
      (simp add: upd_conv_take_nth_drop)
qed

lemma memmove_encode_all:
  assumes w: "\<forall>x. length (f x) = w" and "src + n \<le> length xs"
  shows "memmove_at (dst * w) (src * w) (n * w) (encode_all f xs) = encode_all f (memmove_at dst src n xs)"
proof -
  have "take (n * w) (drop (src * w) (encode_all f xs)) = encode_all f (take n (drop src xs))"
    by (simp add: drop_encode_all [OF w] take_encode_all [OF w])
  moreover have "dst * w + length (encode_all f (take n (drop src xs))) = (dst + n) * w"
    using assms(2) by (simp add: length_encode_all [OF w] algebra_simps)
  ultimately show ?thesis
    using assms(2)
    by (simp only: memmove_at_def write_at_def take_encode_all [OF w] drop_encode_all [OF w] encode_all_simps(3))
      (auto simp: drop_encode_all [OF w] min_def intro!: arg_cong [where f = "encode_all f"] arg_cong [where f = "\<lambda>k. drop k xs"])
qed

section \<open>C strings\<close>

text \<open>The bytes up to the first NUL: what \<^verbatim>\<open>strlen\<close>, \<^verbatim>\<open>strcasecmp\<close> and the like see of a string.\<close>

definition c_str :: "bytes \<Rightarrow> bytes" where
  "c_str s = takeWhile (\<lambda>c. c \<noteq> 0) s"

end
