(* ===== verification/Dict_Types.thy ===== *)
theory Dict_Types
  imports Dict_Map Numbers Bytes
begin

text \<open>
  The hash functions of \<^verbatim>\<open>dict.c\<close> and the key comparisons and dictionary types of \<^verbatim>\<open>redis.c\<close>,
  and the proof that the types provide the finite-map interface.  The random seed
  \<^verbatim>\<open>dict_hash_function_seed\<close> is a parameter.
\<close>

section \<open>Hash functions\<close>

definition dictIntHashFunction :: "u32 \<Rightarrow> u32" where
  "dictIntHashFunction key =
     (let key = key + NOT (push_bit 15 key);
          key = key XOR drop_bit 10 key;
          key = key + push_bit 3 key;
          key = key XOR drop_bit 6 key;
          key = key + NOT (push_bit 11 key);
          key = key XOR drop_bit 16 key
      in key)"

definition murmur_m :: u32 where "murmur_m = 0x5bd1e995"

text \<open>The loop over 4-byte groups (read little-endian), and what is left when it stops.\<close>

fun murmur_loop :: "u32 \<Rightarrow> bytes \<Rightarrow> u32 \<times> bytes" where
  "murmur_loop h (a # b # c # d # data) =
     (let k = of_nat (le_val [a, b, c, d]);
          k = k * murmur_m;
          k = k XOR drop_bit 24 k;
          k = k * murmur_m;
          h = h * murmur_m;
          h = h XOR k
      in murmur_loop h data)"
| "murmur_loop h data = (h, data)"

definition dictGenHashFunction :: "u32 \<Rightarrow> bytes \<Rightarrow> u32" where
  "dictGenHashFunction seed key =
     (let h = seed XOR of_nat (length key);
          (h, data) = murmur_loop h key;
          h = (case data of
                 [a, b, c] \<Rightarrow> (h XOR push_bit 16 (ucast c) XOR push_bit 8 (ucast b) XOR ucast a) * murmur_m
               | [a, b] \<Rightarrow> (h XOR push_bit 8 (ucast b) XOR ucast a) * murmur_m
               | [a] \<Rightarrow> (h XOR ucast a) * murmur_m
               | _ \<Rightarrow> h);
          h = h XOR drop_bit 13 h;
          h = h * murmur_m
      in h XOR drop_bit 15 h)"

definition lower :: "u8 \<Rightarrow> u8" where
  "lower c = (if 65 \<le> c \<and> c \<le> 90 then c + 32 else c)"

fun case_hash_loop :: "u32 \<Rightarrow> bytes \<Rightarrow> u32" where
  "case_hash_loop hash [] = hash"
| "case_hash_loop hash (c # buf) = case_hash_loop ((push_bit 5 hash + hash) + ucast (lower c)) buf"

definition dictGenCaseHashFunction :: "u32 \<Rightarrow> bytes \<Rightarrow> u32" where
  "dictGenCaseHashFunction seed buf = case_hash_loop seed buf"

section \<open>Keys\<close>

text \<open>String objects: an integer kept in the pointer, or an sds string.\<close>

datatype strobj = ObjInt u64 | ObjRaw bytes

definition getDecodedObject :: "strobj \<Rightarrow> bytes" where
  "getDecodedObject ob =
     (case ob of
        ObjRaw s \<Rightarrow> s
      | ObjInt v \<Rightarrow> (case ll2string (replicate 32 0) v of (buf, len) \<Rightarrow> take len buf))"

definition memcmp_eq :: "bytes \<Rightarrow> bytes \<Rightarrow> nat \<Rightarrow> bool" where
  "memcmp_eq a b n \<longleftrightarrow> take n a = take n b"

definition dictSdsKeyCompare :: "bytes \<Rightarrow> bytes \<Rightarrow> bool" where
  "dictSdsKeyCompare k1 k2 =
     (let l1 = length k1; l2 = length k2
      in if l1 \<noteq> l2 then False else memcmp_eq k1 k2 l1)"

text \<open>\<^verbatim>\<open>strcasecmp\<close> stops at the first NUL byte (\<open>c_str\<close>).\<close>

definition dictSdsKeyCaseCompare :: "bytes \<Rightarrow> bytes \<Rightarrow> bool" where
  "dictSdsKeyCaseCompare k1 k2 \<longleftrightarrow> map lower (c_str k1) = map lower (c_str k2)"

definition dictSdsHash :: "u32 \<Rightarrow> bytes \<Rightarrow> u32" where
  "dictSdsHash seed key = dictGenHashFunction seed key"

definition dictSdsCaseHash :: "u32 \<Rightarrow> bytes \<Rightarrow> u32" where
  "dictSdsCaseHash seed key = dictGenCaseHashFunction seed key"

definition dictEncObjKeyCompare :: "strobj \<Rightarrow> strobj \<Rightarrow> bool" where
  "dictEncObjKeyCompare o1 o2 =
     (case (o1, o2) of
        (ObjInt a, ObjInt b) \<Rightarrow> a = b
      | _ \<Rightarrow> dictSdsKeyCompare (getDecodedObject o1) (getDecodedObject o2))"

definition dictEncObjHash :: "u32 \<Rightarrow> strobj \<Rightarrow> u32" where
  "dictEncObjHash seed ob =
     (case ob of
        ObjRaw s \<Rightarrow> dictGenHashFunction seed s
      | ObjInt v \<Rightarrow> (case ll2string (replicate 32 0) v of (buf, len) \<Rightarrow> dictGenHashFunction seed (take len buf)))"

section \<open>The dictionary types\<close>

definition dbDictType :: "u32 \<Rightarrow> bytes dictType" where
  "dbDictType seed = \<lparr>hashFunction = dictSdsHash seed, keyCompare = dictSdsKeyCompare\<rparr>"

definition keyptrDictType :: "u32 \<Rightarrow> bytes dictType" where
  "keyptrDictType seed = \<lparr>hashFunction = dictSdsHash seed, keyCompare = dictSdsKeyCompare\<rparr>"

definition setDictType :: "u32 \<Rightarrow> strobj dictType" where
  "setDictType seed = \<lparr>hashFunction = dictEncObjHash seed, keyCompare = dictEncObjKeyCompare\<rparr>"

definition hashDictType :: "u32 \<Rightarrow> strobj dictType" where
  "hashDictType seed = \<lparr>hashFunction = dictEncObjHash seed, keyCompare = dictEncObjKeyCompare\<rparr>"

definition commandTableDictType :: "u32 \<Rightarrow> bytes dictType" where
  "commandTableDictType seed = \<lparr>hashFunction = dictSdsCaseHash seed, keyCompare = dictSdsKeyCaseCompare\<rparr>"

lemma sds_compare_eq: "dictSdsKeyCompare a b \<longleftrightarrow> a = b"
  by (auto simp: dictSdsKeyCompare_def memcmp_eq_def Let_def)

lemma decoded_int: "getDecodedObject (ObjInt v) = dec_int (sint v)"
  using length_dec_int_u64 [of v] by (simp add: getDecodedObject_def ll2string_text)

lemma dec_int_sint_inj: "dec_int (sint (a :: u64)) = dec_int (sint b) \<Longrightarrow> a = b"
  using string2ll_complete by (metis option.inject)

lemma enc_compare_eq: "dictEncObjKeyCompare a b \<longleftrightarrow> getDecodedObject a = getDecodedObject b"
  by (cases a; cases b) (auto simp: dictEncObjKeyCompare_def sds_compare_eq decoded_int dest: dec_int_sint_inj)

lemma enc_hash: "dictEncObjHash seed a = dictGenHashFunction seed (getDecodedObject a)"
  by (cases a) (auto simp: dictEncObjHash_def getDecodedObject_def split: prod.splits)

lemma dbDictType_ok: "dictType_ok (dbDictType seed) id"
  by (simp add: dictType_ok_def dbDictType_def sds_compare_eq)

lemma setDictType_ok: "dictType_ok (setDictType seed) getDecodedObject"
  by (auto simp: dictType_ok_def setDictType_def enc_compare_eq enc_hash)

interpretation db: dict_type "dbDictType seed" id can_resize for seed can_resize
  by unfold_locales (rule dbDictType_ok)

interpretation keyptr: dict_type "keyptrDictType seed" id can_resize for seed can_resize
  by unfold_locales (simp add: dictType_ok_def keyptrDictType_def sds_compare_eq)

interpretation setd: dict_type "setDictType seed" getDecodedObject can_resize for seed can_resize
  by unfold_locales (rule setDictType_ok)

interpretation hashd: dict_type "hashDictType seed" getDecodedObject can_resize for seed can_resize
  by unfold_locales (auto simp: dictType_ok_def hashDictType_def enc_compare_eq enc_hash)

text \<open>
  The dictionaries of sets and hashes do not see how a string object is encoded: the
  integer-encoded object of a number and the string of its decimal digits are one key, whichever of
  the two is stored and whichever is looked up, replaced or deleted.
\<close>

theorem encoding_independent_keys:
  assumes inv: "dict_inv (setDictType seed) getDecodedObject d"
    and "string2l s = Some v"
  shows "snd (dictFetchValue (setDictType seed) d (ObjRaw s)) = snd (dictFetchValue (setDictType seed) d (ObjInt v)) \<and>
    snd (dictFetchValue (setDictType seed) (fst (dictReplace (setDictType seed) cr d (ObjRaw s) x)) (ObjInt v)) = Some x \<and>
    snd (dictFetchValue (setDictType seed) (fst (dictReplace (setDictType seed) cr d (ObjInt v) x)) (ObjRaw s)) = Some x \<and>
    \<not> snd (dictDelete (setDictType seed) (fst (dictDelete (setDictType seed) d (ObjRaw s))) (ObjInt v))"
proof -
  have eq: "getDecodedObject (ObjRaw s) = getDecodedObject (ObjInt v)"
    using assms(2) string2ll_sound [of s v] unfolding string2l_exact decoded_int
    by (simp add: getDecodedObject_def)
  show ?thesis
    by (simp add: setd.find_sel [OF inv] setd.find_after_replace [OF inv] eq
        setd.del_sel(2) [OF setd.del_sel(1) [OF inv]] setd.del_sel(3) [OF inv])
qed

theorem encoding_independent_keys_witness:
  "snd (dictFetchValue (setDictType 5381) (fst (dictReplace (setDictType 5381) True dictCreate (ObjRaw [55]) ())) (ObjInt 7)) = Some ()"
proof -
  have "string2l [55] = Some 7" by (simp add: string2l_exact string2ll_def LLONG_MAX_def)
  from encoding_independent_keys [OF dict_inv_create this, of 5381 True "()"] show ?thesis by blast
qed

lemma case_hash_loop_lower: "map lower a = map lower b \<Longrightarrow> case_hash_loop h a = case_hash_loop h b"
proof (induction a arbitrary: b h)
  case (Cons x a)
  then obtain y b' where b: "b = y # b'" "lower x = lower y" "map lower a = map lower b'" by (cases b) auto
  then show ?case using Cons.IH [OF b(3)] by (simp only: case_hash_loop.simps)
qed simp

text \<open>For names without NUL bytes the case-insensitive comparison and hash fit together.\<close>

lemma case_types_agree:
  assumes "0 \<notin> set a" and "0 \<notin> set b" and "dictSdsKeyCaseCompare a b"
  shows "dictSdsCaseHash seed a = dictSdsCaseHash seed b"
proof -
  have str: "c_str a = a" if "0 \<notin> set a" for a
    using that by (auto simp: c_str_def takeWhile_eq_all_conv)
  have "map lower a = map lower b"
    using assms(3) str [OF assms(1)] str [OF assms(2)] by (simp only: dictSdsKeyCaseCompare_def)
  then show ?thesis
    unfolding dictSdsCaseHash_def dictGenCaseHashFunction_def by (rule case_hash_loop_lower)
qed

text \<open>
  The case-insensitive dictionary types compare keys as C strings and hash them as
  binary-safe ones: for every seed there are two keys that compare equal (they differ behind a
  NUL byte) and have different hashes, so the contract between comparison and hash is broken.
\<close>

theorem case_types_hash:
  "\<exists>a b. keyCompare (commandTableDictType seed) a b \<and>
     hashFunction (commandTableDictType seed) a \<noteq> hashFunction (commandTableDictType seed) b"
proof -
  have "dictSdsKeyCaseCompare [0, 1] [0, 2]" by (simp add: dictSdsKeyCaseCompare_def c_str_def)
  moreover have "dictSdsCaseHash seed [0, 1] \<noteq> dictSdsCaseHash seed [0, 2]"
    by (simp add: dictSdsCaseHash_def dictGenCaseHashFunction_def lower_def)
  ultimately show ?thesis unfolding commandTableDictType_def dictType.simps by blast
qed

end
