(* ===== verification/Glob.thy ===== *)
theory Glob
  imports Prelude
begin

text \<open>
  Glob-style matching (\<^verbatim>\<open>stringmatchlen\<close> in \<^verbatim>\<open>util.c\<close>), as used by KEYS, SCAN and PSUBSCRIBE.

  A C pointer into a pattern or a string is the list of the bytes from it to the end of the
  buffer, the terminating NUL byte of the sds string included.  \<^verbatim>\<open>patternLen\<close> and
  \<^verbatim>\<open>stringLen\<close> move in step with the pointers, so they are the length of the list minus one;
  the empty list is a pointer past the terminator, where the length is negative.  Reading
  there is outside the buffer: the result is \<open>None\<close>.
\<close>

section \<open>Model\<close>

definition c_star :: u8 where "c_star = 42"
definition c_quest :: u8 where "c_quest = 63"
definition c_open :: u8 where "c_open = 91"
definition c_close :: u8 where "c_close = 93"
definition c_caret :: u8 where "c_caret = 94"
definition c_bslash :: u8 where "c_bslash = 92"
definition c_dash :: u8 where "c_dash = 45"

lemmas glob_chars = c_star_def c_quest_def c_open_def c_close_def c_caret_def c_bslash_def c_dash_def

text \<open>\<^verbatim>\<open>char\<close> is signed; \<^verbatim>\<open>tolower\<close> of the C locale on the promoted value.\<close>

definition tolower :: "int \<Rightarrow> int" where
  "tolower c = (if 65 \<le> c \<and> c \<le> 90 then c + 32 else c)"

definition char_eq :: "bool \<Rightarrow> u8 \<Rightarrow> u8 \<Rightarrow> bool" where
  "char_eq nocase a b =
     (if \<not> nocase then a = b else tolower (sint a) = tolower (sint b))"

definition in_range :: "bool \<Rightarrow> u8 \<Rightarrow> u8 \<Rightarrow> u8 \<Rightarrow> bool" where
  "in_range nocase a b x =
     (let start = sint a; end = sint b; c = sint x;
          (start, end) = (if end < start then (end, start) else (start, end));
          (start, end, c) = (if nocase then (tolower start, tolower end, tolower c) else (start, end, c))
      in start \<le> c \<and> c \<le> end)"

text \<open>
  The loop over a bracket expression; \<open>x\<close> is \<^verbatim>\<open>string[0]\<close>.  The result is \<^verbatim>\<open>match\<close> and the
  pattern pointer after the \<^verbatim>\<open>pattern++\<close> that follows the loop (where the pattern ends inside
  the brackets the C steps back once before it).
\<close>

fun class_loop :: "bool \<Rightarrow> u8 \<Rightarrow> bytes \<Rightarrow> bool \<Rightarrow> (bool \<times> bytes) option" where
  "class_loop nocase x [] m = None"
| "class_loop nocase x (c # p) m =
     (if c = c_bslash then
        (case p of
           [] \<Rightarrow> None
         | c1 # p1 \<Rightarrow> class_loop nocase x p1 (m \<or> c1 = x))
      else if c = c_close then Some (m, p)
      else if p = [] then Some (m, [c])
      else if hd p = c_dash \<and> 3 \<le> length p then
        class_loop nocase x (drop 2 p) (m \<or> in_range nocase c (p ! 1) x)
      else class_loop nocase x p (m \<or> char_eq nocase c x))"

fun skip_stars :: "bytes \<Rightarrow> bytes" where
  "skip_stars (a # b # p) = (if b = c_star then skip_stars (b # p) else a # b # p)"
| "skip_stars p = p"

fun drop_stars :: "bytes \<Rightarrow> bytes option" where
  "drop_stars [] = None"
| "drop_stars (c # p) = (if c = c_star then drop_stars p else Some (c # p))"

lemma skip_stars_length: "length (skip_stars p) \<le> length p"
  by (induction p rule: skip_stars.induct) auto

lemma class_loop_length: "class_loop nocase x p m = Some (b, p') \<Longrightarrow> length p' \<le> length p"
proof (induction nocase x p m rule: class_loop.induct)
  case (2 nocase x c p m)
  then show ?case
    by (fastforce split: if_splits list.splits)
qed simp

text \<open>
  The end of one round of the main loop, once the pattern and the string have been advanced:
  either the string is used up (and only stars may be left in the pattern), or go on.
\<close>

definition at_string_end :: "bytes \<Rightarrow> bool option" where
  "at_string_end p = (case drop_stars p of None \<Rightarrow> None | Some p' \<Rightarrow> Some (length p' = 1))"

function (sequential) stringmatchlen :: "bool \<Rightarrow> bytes \<Rightarrow> bytes \<Rightarrow> bool option"
  and star_loop :: "bool \<Rightarrow> bytes \<Rightarrow> bytes \<Rightarrow> bool option" where
  "stringmatchlen nocase [] s = None"
| "stringmatchlen nocase [t] s = Some (length s = 1)"
| "stringmatchlen nocase (c # p) s =
     (if c = c_star then
        (let p' = skip_stars (c # p)
         in if length p' = 2 then Some True else star_loop nocase (tl p') s)
      else if c = c_quest then
        (if length s = 1 then Some False
         else if length (tl s) = 1 then at_string_end p
         else stringmatchlen nocase p (tl s))
      else if c = c_open then
        (case s of
           [] \<Rightarrow> None
         | x # s' \<Rightarrow>
             let neg = (hd p = c_caret); p0 = (if neg then tl p else p)
             in case class_loop nocase x p0 False of
                  None \<Rightarrow> None
                | Some (m, p') \<Rightarrow>
                    if (if neg then \<not> m else m) = False then Some False
                    else if length s' = 1 then at_string_end p'
                    else stringmatchlen nocase p' s')
      else
        (let (c, p) = (if c = c_bslash \<and> 2 \<le> length p then (hd p, tl p) else (c, p))
         in case s of
              [] \<Rightarrow> None
            | x # s' \<Rightarrow>
                if \<not> char_eq nocase c x then Some False
                else if length s' = 1 then at_string_end p
                else stringmatchlen nocase p s'))"
| "star_loop nocase p [] = (if stringmatchlen nocase p [] = Some True then Some True else None)"
| "star_loop nocase p [t] = Some False"
| "star_loop nocase p (x # s) =
     (case stringmatchlen nocase p (x # s) of
        None \<Rightarrow> None
      | Some True \<Rightarrow> Some True
      | Some False \<Rightarrow> star_loop nocase p s)"
  by pat_completeness auto
termination
proof (relation "inv_image (less_than <*lex*> less_than <*lex*> less_than)
    (\<lambda>a. case a of Inl (nc, p, s) \<Rightarrow> (length p, 0, length s) | Inr (nc, p, s) \<Rightarrow> (length p, 1, length s))",
    goal_cases)
qed (use skip_stars_length [of "_ # _"] in
    \<open>auto simp: less_Suc_eq_le diff_le_mono order_trans [OF diff_le_self] simp del: class_loop.simps
        split: if_splits dest!: class_loop_length intro: le_SucI\<close>)

section \<open>What a pattern means\<close>

datatype class_item = CEsc u8 | CRange u8 u8 | CChar u8

datatype glob_item = GStar | GAny | GSet bool "class_item list" | GLit u8

fun item_matches :: "bool \<Rightarrow> u8 \<Rightarrow> class_item \<Rightarrow> bool" where
  "item_matches nocase x (CEsc c) = (c = x)"
| "item_matches nocase x (CRange a b) = in_range nocase a b x"
| "item_matches nocase x (CChar c) = char_eq nocase c x"

text \<open>
  A bracket expression may be left open at the end of the pattern, but not right after a
  backslash.
\<close>

fun parse_class :: "bytes \<Rightarrow> (class_item list \<times> bytes) option" where
  "parse_class [] = Some ([], [])"
| "parse_class (c # p) =
     (if c = c_bslash then
        (case p of
           [] \<Rightarrow> None
         | c1 # p1 \<Rightarrow> map_option (\<lambda>(is, r). (CEsc c1 # is, r)) (parse_class p1))
      else if c = c_close then Some ([], p)
      else if 2 \<le> length p \<and> hd p = c_dash then
        map_option (\<lambda>(is, r). (CRange c (p ! 1) # is, r)) (parse_class (drop 2 p))
      else map_option (\<lambda>(is, r). (CChar c # is, r)) (parse_class p))"

lemma parse_class_length: "parse_class p = Some (is, r) \<Longrightarrow> length r \<le> length p"
proof (induction p arbitrary: "is" rule: parse_class.induct)
  case (2 c p)
  then show ?case by (fastforce split: if_splits list.splits)
qed simp

function glob_parse :: "bytes \<Rightarrow> glob_item list option" where
  "glob_parse [] = Some []"
| "glob_parse (c # p) =
     (if c = c_star then map_option ((#) GStar) (glob_parse p)
      else if c = c_quest then map_option ((#) GAny) (glob_parse p)
      else if c = c_open then
        (let neg = (p \<noteq> [] \<and> hd p = c_caret)
         in case parse_class (if neg then tl p else p) of
              None \<Rightarrow> None
            | Some (is, r) \<Rightarrow> map_option ((#) (GSet neg is)) (glob_parse r))
      else if c = c_bslash \<and> p \<noteq> [] then map_option ((#) (GLit (hd p))) (glob_parse (tl p))
      else map_option ((#) (GLit c)) (glob_parse p))"
  by pat_completeness auto
termination
  by (relation "measure length")
    (auto simp: less_Suc_eq_le simp del: parse_class.simps dest!: parse_class_length split: if_splits intro: le_SucI)

fun glob_match :: "bool \<Rightarrow> glob_item list \<Rightarrow> bytes \<Rightarrow> bool" where
  "glob_match nocase [] s = (s = [])"
| "glob_match nocase (GStar # ts) s = (\<exists>k \<le> length s. glob_match nocase ts (drop k s))"
| "glob_match nocase (GAny # ts) s = (s \<noteq> [] \<and> glob_match nocase ts (tl s))"
| "glob_match nocase (GSet neg is # ts) s =
     (s \<noteq> [] \<and> (list_ex (item_matches nocase (hd s)) is \<noteq> neg) \<and> glob_match nocase ts (tl s))"
| "glob_match nocase (GLit c # ts) s = (s \<noteq> [] \<and> char_eq nocase c (hd s) \<and> glob_match nocase ts (tl s))"

section \<open>The matcher against the meaning\<close>

lemma glob_nul [simp]:
  "c_star \<noteq> 0" "c_bslash \<noteq> 0" "c_close \<noteq> 0" "0 \<noteq> c_star" "0 \<noteq> c_bslash" "0 \<noteq> c_close"
  "c_quest \<noteq> c_star" "c_open \<noteq> c_star" "c_open \<noteq> c_quest" "c_bslash \<noteq> c_star" "c_bslash \<noteq> c_quest" "c_bslash \<noteq> c_open"
  "c_caret \<noteq> 0" "0 \<noteq> c_caret"
  by (simp_all add: glob_chars)

lemma class_loop_parse:
  "class_loop nocase x (p @ [0]) m =
     map_option (\<lambda>(is, r). (m \<or> list_ex (item_matches nocase x) is, r @ [0])) (parse_class p)"
proof (induction p arbitrary: m rule: parse_class.induct)
  case 1
  show ?case by (simp add: glob_chars)
next
  case (2 c p)
  show ?case
  proof (cases "c = c_bslash")
    case True
    show ?thesis
      by (cases p) (auto simp: True "2.IH"(1) [OF True] glob_chars option.map_comp comp_def split_beta intro!: map_option_cong)
  next
    case False
    show ?thesis
      using "2.IH"(2,3) False
      by (auto simp: option.map_comp comp_def split_beta nth_append hd_append numeral_2_eq_2 intro!: map_option_cong)
  qed
qed

lemma drop_stars_nul: "drop_stars (p @ [0]) = Some (dropWhile (\<lambda>c. c = c_star) p @ [0])"
  by (induction p) auto

lemma at_string_end_nul: "at_string_end (p @ [0]) = Some (\<forall>c \<in> set p. c = c_star)"
  by (auto simp: at_string_end_def drop_stars_nul dropWhile_eq_Nil_conv)

lemma skip_stars_nul:
  "skip_stars (c_star # p @ [0]) = c_star # dropWhile (\<lambda>c. c = c_star) p @ [0]"
proof (induction p)
  case (Cons c p)
  then show ?case by (cases "c = c_star") auto
qed simp

lemma glob_parse_stars:
  "glob_parse p = Some ts \<Longrightarrow>
     \<exists>n ts'. ts = replicate n GStar @ ts' \<and> glob_parse (dropWhile (\<lambda>c. c = c_star) p) = Some ts'"
proof (induction p arbitrary: ts)
  case Nil
  then show ?case by (intro exI [of _ 0]) simp
next
  case (Cons c p)
  show ?case
  proof (cases "c = c_star")
    case True
    then obtain ts1 where "glob_parse p = Some ts1" and ts: "ts = GStar # ts1"
      using Cons.prems by auto
    from Cons.IH [OF this(1)] obtain n ts' where "ts1 = replicate n GStar @ ts'"
      and "glob_parse (dropWhile (\<lambda>c. c = c_star) p) = Some ts'" by blast
    then show ?thesis using True ts by (intro exI [of _ "Suc n"]) auto
  next
    case False
    then show ?thesis using Cons.prems by (intro exI [of _ 0]) simp
  qed
qed

lemma glob_match_stars:
  "glob_match nocase (replicate n GStar @ ts) s \<Longrightarrow> \<exists>k \<le> length s. glob_match nocase ts (drop k s)"
proof (induction n arbitrary: s)
  case (Suc n)
  then obtain k where "k \<le> length s" and "glob_match nocase (replicate n GStar @ ts) (drop k s)" by auto
  moreover obtain j where "j \<le> length (drop k s)" and "glob_match nocase ts (drop j (drop k s))"
    using Suc.IH [OF calculation(2)] by blast
  ultimately show ?case by (intro exI [of _ "j + k"]) simp
qed auto

lemma glob_match_stars_skip:
  "glob_match nocase ts s \<Longrightarrow> glob_match nocase (replicate n GStar @ ts) s"
  by (induction n) (auto intro: exI [of _ 0])

lemma glob_match_star_run:
  "glob_match nocase (GStar # replicate n GStar @ ts) s \<longleftrightarrow> (\<exists>k \<le> length s. glob_match nocase ts (drop k s))"
  using glob_match_stars [of nocase "Suc n" ts s] glob_match_stars_skip [of nocase ts _ n]
  by auto

lemma glob_match_Nil:
  "glob_parse p = Some ts \<Longrightarrow> glob_match nocase ts [] \<longleftrightarrow> (\<forall>c \<in> set p. c = c_star)"
proof (induction p arbitrary: ts)
  case (Cons c p)
  show ?case
  proof (cases "c = c_star")
    case True
    then show ?thesis using Cons by auto
  next
    case False
    then show ?thesis
      using Cons.prems by (auto simp: Let_def split: if_splits option.splits prod.splits)
  qed
qed simp

lemma star_loop_spec:
  assumes "\<And>s. s \<noteq> [] \<Longrightarrow> stringmatchlen nocase p (s @ [0]) = Some (g s)"
  shows "star_loop nocase p (s @ [0]) = Some (\<exists>k < length s. g (drop k s))"
proof (induction s)
  case (Cons x s)
  have "(\<exists>k < length (x # s). g (drop k (x # s))) \<longleftrightarrow> g (x # s) \<or> (\<exists>k < length s. g (drop k s))"
    by (simp only: length_Cons less_Suc_eq_0_disj) auto
  moreover obtain y ys where "s @ [0] = y # ys" by (cases "s @ [0]") auto
  ultimately show ?case
    using assms [of "x # s"] Cons.IH by (simp split: option.splits bool.splits)
qed simp

text \<open>
  C36. On a pattern that does not end right after a backslash inside brackets, and a non-empty
  string, the matcher reads only inside its buffers and decides whether the string is in the
  language of the pattern: stars, question marks, bracket expressions with ranges, negation
  and escapes, with and without case folding.
\<close>

theorem stringmatchlen_correct:
  "glob_parse p = Some ts \<Longrightarrow> s \<noteq> [] \<Longrightarrow>
     stringmatchlen nocase (p @ [0]) (s @ [0]) = Some (glob_match nocase ts s)"
proof (induction "length p" arbitrary: p ts s rule: less_induct)
  case less
  show ?case
  proof (cases p)
    case Nil
    then show ?thesis using less.prems by simp
  next
    case (Cons c p1)
    obtain x s' where s: "s = x # s'" using less.prems(2) by (cases s) auto
    obtain d p2 where d: "p1 @ [0] = d # p2" by (cases "p1 @ [0]") auto
    have next_round: "(if length (s' @ [0]) = 1 then at_string_end (q @ [0]) else stringmatchlen nocase (q @ [0]) (s' @ [0])) =
        Some (glob_match nocase us s')" if q: "glob_parse q = Some us" and l: "length q < length p" for q us
      using less.hyps [OF l q, of s'] at_string_end_nul glob_match_Nil [OF q] by simp
    show ?thesis
    proof (cases "c = c_star")
      case True
      define q where "q = dropWhile (\<lambda>c. c = c_star) p1"
      obtain ts1 where ts1: "glob_parse p1 = Some ts1" "ts = GStar # ts1"
        using less.prems(1) Cons True by auto
      obtain n us where us: "ts1 = replicate n GStar @ us" "glob_parse q = Some us"
        using glob_parse_stars [OF ts1(1)] by (auto simp: q_def)
      have lq: "length q < length p" unfolding q_def Cons using length_dropWhile_le [of _ p1] by (simp add: le_imp_less_Suc)
      have m: "glob_match nocase ts s \<longleftrightarrow> (\<exists>k \<le> length s. glob_match nocase us (drop k s))"
        by (simp only: ts1(2) us(1) glob_match_star_run)
      have sk: "skip_stars (c # p1 @ [0]) = c_star # q @ [0]"
        using skip_stars_nul [of p1] by (simp add: True q_def)
      show ?thesis
      proof (cases "q = []")
        case True
        then have "us = []" using us(2) by simp
        then have "glob_match nocase ts s" using m by (auto intro: exI [of _ "length s"])
        then show ?thesis using sk True \<open>c = c_star\<close> by (simp add: Cons d)
      next
        case False
        have "star_loop nocase (q @ [0]) (s @ [0]) = Some (\<exists>k < length s. glob_match nocase us (drop k s))"
          by (rule star_loop_spec) (rule less.hyps [OF lq us(2)])
        moreover have "hd q \<noteq> c_star" using hd_dropWhile [of "\<lambda>c. c = c_star" p1] False by (simp add: q_def)
        then have "\<not> glob_match nocase us []"
          using glob_match_Nil [OF us(2)] False by (metis list.set_sel(1))
        then have "(\<exists>k < length s. glob_match nocase us (drop k s)) \<longleftrightarrow> glob_match nocase ts s"
          unfolding m using le_eq_less_or_eq by auto
        ultimately show ?thesis using sk False \<open>c = c_star\<close> by (simp add: Cons d)
      qed
    next
      case ns: False
      show ?thesis
      proof (cases "c = c_open")
        case no: False
        show ?thesis
        proof (cases "c = c_bslash \<and> p1 \<noteq> []")
          case True
          then obtain e p3 where p1: "p1 = e # p3" by (cases p1) auto
          show ?thesis
            using less.prems(1) True next_round [of p3] by (auto simp: Cons s p1)
        next
          case False
          then have b: "(c = c_bslash \<and> Suc 0 \<le> length p2) = False" using d by (cases p1) auto
          show ?thesis
            using less.prems(1) ns no False next_round [of p1] d b
            by (cases "c = c_quest") (auto simp: Cons s)
        qed
      next
        case True
        define neg where "neg = (p1 \<noteq> [] \<and> hd p1 = c_caret)"
        obtain "is" r where r: "parse_class (if neg then tl p1 else p1) = Some (is, r)"
          using less.prems(1) ns True by (auto simp: Cons neg_def Let_def split: option.splits)
        obtain us where us: "glob_parse r = Some us" "ts = GSet neg is # us"
          using less.prems(1) True r by (auto simp: Cons neg_def [symmetric])
        have neg': "hd (p1 @ [0]) = c_caret \<longleftrightarrow> neg" by (auto simp: neg_def hd_append)
        have tl': "(if neg then tl (p1 @ [0]) else p1 @ [0]) = (if neg then tl p1 else p1) @ [0]"
          by (auto simp: neg_def)
        have "class_loop nocase x ((if neg then tl p1 else p1) @ [0]) False =
            Some (list_ex (item_matches nocase x) is, r @ [0])"
          unfolding class_loop_parse r by simp
        then have "class_loop nocase x (if neg then p2 else d # p2) False =
            Some (list_ex (item_matches nocase x) is, r @ [0])"
          unfolding tl' [symmetric, unfolded d] by (simp only: list.sel)
        moreover have "length r < length p"
          using parse_class_length [OF r] by (auto simp: Cons split: if_splits)
        ultimately show ?thesis
          using next_round [OF us(1)] us(2) neg' d True
          by (cases neg) (auto simp: Cons s Let_def simp del: class_loop.simps)
      qed
    qed
  qed
qed

theorem stringmatchlen_correct_witness:
  "glob_parse [104, c_star, c_open, 97, c_dash, 99, c_close] =
     Some [GLit 104, GStar, GSet False [CRange 97 99]] \<and>
   stringmatchlen False ([104, c_star, c_open, 97, c_dash, 99, c_close] @ [0]) ([104, 105, 98] @ [0]) = Some True"
proof -
  have p: "glob_parse [104, c_star, c_open, 97, c_dash, 99, c_close] =
      Some [GLit 104, GStar, GSet False [CRange 97 99]]"
    by (simp add: glob_chars)
  have "glob_match False [GLit 104, GStar, GSet False [CRange 97 99]] [104, 105, 98]"
    by (auto simp: char_eq_def in_range_def intro!: exI [of _ 1])
  then show ?thesis using p stringmatchlen_correct [OF p, of "[104, 105, 98]" False] by simp
qed

text \<open>
  On the empty string a bracket expression is not guarded by the length of the string:
  \<^verbatim>\<open>[^a]*\<close> matches the empty string, which has no character outside the brackets' set.
\<close>

theorem stringmatchlen_empty_string:
  "\<exists>p ts. glob_parse p = Some ts \<and> p = [c_open, c_caret, 97, c_close, c_star] \<and>
     \<not> glob_match nocase ts [] \<and> stringmatchlen nocase (p @ [0]) ([] @ [0]) = Some True"
proof (intro exI conjI)
  show "glob_parse [c_open, c_caret, 97, c_close, c_star] = Some [GSet True [CChar 97], GStar]"
    by (simp add: glob_chars)
qed (simp_all add: glob_chars char_eq_def tolower_def)

text \<open>
  A backslash that ends the pattern inside an open bracket makes the matcher step over the
  terminator and read outside the pattern's buffer, whatever the string.
\<close>

theorem stringmatchlen_reads_outside:
  "stringmatchlen nocase ([c_open, c_bslash] @ [0]) (x # s) = None"
  by (simp add: glob_chars)

end
