(* ===== verification/Intset.thy ===== *)
theory Intset
  imports Bytes Interfaces
begin

text \<open>
  The integer set of \<^verbatim>\<open>intset.c\<close>: a sorted array of integers of 2, 4 or 8 bytes in one
  buffer, upgraded to wider elements when a value needs them.  The contents are the bytes of
  the buffer; element reads and writes go through the casts of the code.  Values are 64-bit
  words read with \<open>sint\<close>; \<^verbatim>\<open>length\<close> and the byte counts are 32 bits wide, so that the
  arithmetic of \<^verbatim>\<open>intsetResize\<close> and \<^verbatim>\<open>intsetMoveTail\<close> wraps as in C.
\<close>

section \<open>Model\<close>

record intset =
  is_encoding :: nat
  is_length :: u32
  is_contents :: bytes

definition INTSET_ENC_INT16 :: nat where "INTSET_ENC_INT16 = 2"
definition INTSET_ENC_INT32 :: nat where "INTSET_ENC_INT32 = 4"
definition INTSET_ENC_INT64 :: nat where "INTSET_ENC_INT64 = 8"

lemmas intset_encs = INTSET_ENC_INT16_def INTSET_ENC_INT32_def INTSET_ENC_INT64_def

definition intsetValueEncoding :: "u64 \<Rightarrow> nat" where
  "intsetValueEncoding v =
     (if sint v < - (2 ^ 31) \<or> 2 ^ 31 - 1 < sint v then INTSET_ENC_INT64
      else if sint v < - (2 ^ 15) \<or> 2 ^ 15 - 1 < sint v then INTSET_ENC_INT32
      else INTSET_ENC_INT16)"

text \<open>The 2- and 4-byte values are sign-extended to \<^verbatim>\<open>int64_t\<close>.\<close>

definition intsetGetEncoded :: "intset \<Rightarrow> nat \<Rightarrow> nat \<Rightarrow> u64" where
  "intsetGetEncoded is pos enc =
     (let v = (\<lambda>n. le_val (take n (drop (pos * n) (is_contents is))))
      in if enc = INTSET_ENC_INT64 then of_nat (v 8)
         else if enc = INTSET_ENC_INT32 then scast (of_nat (v 4) :: 32 word)
         else scast (of_nat (v 2) :: 16 word))"

definition intset_get_at :: "intset \<Rightarrow> nat \<Rightarrow> u64" where
  "intset_get_at is pos = intsetGetEncoded is pos (is_encoding is)"

definition intsetSet :: "intset \<Rightarrow> nat \<Rightarrow> u64 \<Rightarrow> intset" where
  "intsetSet is pos v =
     (let st = (\<lambda>n u. is\<lparr>is_contents := write_at (pos * n) (le_bytes n u) (is_contents is)\<rparr>)
      in if is_encoding is = INTSET_ENC_INT64 then st 8 (unat v)
         else if is_encoding is = INTSET_ENC_INT32 then st 4 (unat (ucast v :: 32 word))
         else st 2 (unat (ucast v :: 16 word)))"

definition intsetNew :: intset where
  "intsetNew = \<lparr>is_encoding = INTSET_ENC_INT16, is_length = 0, is_contents = []\<rparr>"

text \<open>
  \<^verbatim>\<open>zrealloc\<close> keeps the common prefix; the bytes it adds are unspecified in C and zero here
  (they are written before they are read).
\<close>

definition intsetResize :: "intset \<Rightarrow> u32 \<Rightarrow> intset" where
  "intsetResize is len =
     (let size = unat (len * of_nat (is_encoding is))
      in is\<lparr>is_contents := take size (is_contents is) @ replicate (size - length (is_contents is)) 0\<rparr>)"

text \<open>
  The binary search.  \<^verbatim>\<open>min\<close> and \<^verbatim>\<open>max\<close> are \<^verbatim>\<open>int\<close>s that are not negative while the loop runs,
  so that the \<^verbatim>\<open>unsigned\<close> sum of the two does not wrap.
\<close>

function isearch_loop :: "intset \<Rightarrow> u64 \<Rightarrow> int \<Rightarrow> int \<Rightarrow> int \<Rightarrow> u64 \<Rightarrow> int \<times> int \<times> u64" where
  "isearch_loop is v lo hi mid cur =
     (if lo \<le> hi then
        let mid = (lo + hi) div 2; cur = intset_get_at is (nat mid)
        in if sint cur < sint v then isearch_loop is v (mid + 1) hi mid cur
           else if sint v < sint cur then isearch_loop is v lo (mid - 1) mid cur
           else (lo, mid, cur)
      else (lo, mid, cur))"
  by pat_completeness auto
termination by (relation "measure (\<lambda>(is, v, lo, hi, mid, cur). nat (hi - lo + 1))") auto

declare isearch_loop.simps [simp del]

definition intsetSearch :: "intset \<Rightarrow> u64 \<Rightarrow> bool \<times> nat" where
  "intsetSearch is v =
     (let len = unat (is_length is)
      in if len = 0 then (False, 0)
         else if sint (intset_get_at is (len - 1)) < sint v then (False, len)
         else if sint v < sint (intset_get_at is 0) then (False, 0)
         else
           let (lo, mid, cur) = isearch_loop is v 0 (int len - 1) (- 1) (- 1)
           in if v = cur then (True, nat mid) else (False, nat lo))"

text \<open>\<^verbatim>\<open>while(length--)\<close>: the elements are rewritten in the new width from the last one down.\<close>

fun upgrade_loop :: "nat \<Rightarrow> nat \<Rightarrow> nat \<Rightarrow> intset \<Rightarrow> intset" where
  "upgrade_loop prepend curenc 0 is = is"
| "upgrade_loop prepend curenc (Suc n) is =
     upgrade_loop prepend curenc n (intsetSet is (n + prepend) (intsetGetEncoded is n curenc))"

definition intsetUpgradeAndAdd :: "intset \<Rightarrow> u64 \<Rightarrow> intset" where
  "intsetUpgradeAndAdd is v =
     (let curenc = is_encoding is;
          newenc = intsetValueEncoding v;
          len = unat (is_length is);
          prepend = (if sint v < 0 then 1 else 0);
          is = is\<lparr>is_encoding := newenc\<rparr>;
          is = intsetResize is (is_length is + 1);
          is = upgrade_loop prepend curenc len is;
          is = (if prepend = 1 then intsetSet is 0 v else intsetSet is (unat (is_length is)) v)
      in is\<lparr>is_length := is_length is + 1\<rparr>)"

definition intsetMoveTail :: "intset \<Rightarrow> nat \<Rightarrow> nat \<Rightarrow> intset" where
  "intsetMoveTail is from to =
     (let n = is_length is - of_nat from; enc = is_encoding is
      in is\<lparr>is_contents :=
           memmove_at (to * enc) (from * enc) (unat (n * of_nat enc)) (is_contents is)\<rparr>)"

definition intsetAdd :: "intset \<Rightarrow> u64 \<Rightarrow> intset \<times> bool" where
  "intsetAdd is v =
     (if is_encoding is < intsetValueEncoding v then (intsetUpgradeAndAdd is v, True)
      else case intsetSearch is v of
          (True, pos) \<Rightarrow> (is, False)
        | (False, pos) \<Rightarrow>
            let is = intsetResize is (is_length is + 1);
                is = (if pos < unat (is_length is) then intsetMoveTail is pos (pos + 1) else is);
                is = intsetSet is pos v
            in (is\<lparr>is_length := is_length is + 1\<rparr>, True))"

definition intsetRemove :: "intset \<Rightarrow> u64 \<Rightarrow> intset \<times> bool" where
  "intsetRemove is v =
     (if intsetValueEncoding v \<le> is_encoding is then
        (case intsetSearch is v of
           (True, pos) \<Rightarrow>
             let len = is_length is;
                 is = (if pos < unat (len - 1) then intsetMoveTail is (pos + 1) pos else is);
                 is = intsetResize is (len - 1)
             in (is\<lparr>is_length := len - 1\<rparr>, True)
         | (False, pos) \<Rightarrow> (is, False))
      else (is, False))"

definition intsetFind :: "intset \<Rightarrow> u64 \<Rightarrow> bool" where
  "intsetFind is v \<longleftrightarrow> intsetValueEncoding v \<le> is_encoding is \<and> fst (intsetSearch is v)"

definition intsetGet :: "intset \<Rightarrow> nat \<Rightarrow> u64 option" where
  "intsetGet is pos = (if pos < unat (is_length is) then Some (intset_get_at is pos) else None)"

definition intsetLen :: "intset \<Rightarrow> nat" where
  "intsetLen is = unat (is_length is)"

text \<open>\<^verbatim>\<open>sizeof(intset)\<close> is 8; the product is of two \<^verbatim>\<open>uint32_t\<close>.\<close>

definition intsetBlobLen :: "intset \<Rightarrow> nat" where
  "intsetBlobLen is = 8 + unat (is_length is * of_nat (is_encoding is))"

section \<open>Elements\<close>

definition fits :: "nat \<Rightarrow> int \<Rightarrow> bool" where
  "fits n x \<longleftrightarrow> - (2 ^ (8 * n - 1)) \<le> x \<and> x < 2 ^ (8 * n - 1)"

definition enc_int :: "nat \<Rightarrow> int \<Rightarrow> bytes" where
  "enc_int n x = le_bytes n (nat (x mod 256 ^ n))"

lemma length_enc_int: "\<forall>x. length (enc_int n x) = n"
  by (simp add: enc_int_def)

lemma le_val_enc_int: "int (le_val (enc_int n x)) = x mod 256 ^ n"
proof -
  have "nat (x mod 256 ^ n) mod 256 ^ n = nat (x mod 256 ^ n)"
    by (intro mod_less) (simp add: nat_less_iff)
  then show ?thesis by (simp add: enc_int_def le_val_bytes)
qed

lemma sint_of_mod:
  assumes "fits n x" and "LENGTH('a::len) = 8 * n"
  shows "sint (of_int (x mod 256 ^ n) :: 'a word) = x"
proof -
  have "(256 :: int) ^ n = 2 ^ (8 * n)" by (simp add: power_mult)
  then have "sint (of_int (x mod 256 ^ n) :: 'a word) = signed_take_bit (8 * n - 1) (take_bit (8 * n) x)"
    using assms(2) by (simp add: sint_sbintrunc' take_bit_eq_mod)
  also have "\<dots> = signed_take_bit (8 * n - 1) x"
  proof -
    have "\<not> 8 * n \<le> 8 * n - 1" using assms(2) len_gt_0 [where 'a = 'a] by linarith
    then show ?thesis by (simp only: signed_take_bit_take_bit if_False)
  qed
  also have "\<dots> = x" using assms(1) by (simp add: fits_def signed_take_bit_int_eq_self)
  finally show ?thesis .
qed

text \<open>A buffer that holds the integers \<open>xs\<close> in the width \<open>n\<close>.\<close>

definition holds :: "intset \<Rightarrow> nat \<Rightarrow> int list \<Rightarrow> bool" where
  "holds is n xs \<longleftrightarrow> n \<in> {2, 4, 8} \<and> is_contents is = encode_all (enc_int n) xs \<and> (\<forall>x \<in> set xs. fits n x)"

lemma of_nat_enc_int: "of_nat (le_val (enc_int n x)) = (of_int (x mod 256 ^ n) :: 'a :: len word)"
  by (metis le_val_enc_int of_int_of_nat_eq)

lemma get_encoded_bytes:
  assumes "n \<in> {2, 4, 8}" and "take n (drop (i * n) (is_contents is)) = enc_int n x" and "fits n x"
  shows "sint (intsetGetEncoded is i n) = x"
proof -
  from assms(1) consider "n = 2" | "n = 4" | "n = 8" by blast
  then show ?thesis
  proof cases
    case 1
    then show ?thesis
      using assms(2,3) sint_of_mod [where 'a = 16, of n x] of_nat_enc_int [of n x, where 'a = 16]
      by (simp add: intsetGetEncoded_def Let_def intset_encs sint_up_scast is_up)
  next
    case 2
    then show ?thesis
      using assms(2,3) sint_of_mod [where 'a = 32, of n x] of_nat_enc_int [of n x, where 'a = 32]
      by (simp add: intsetGetEncoded_def Let_def intset_encs sint_up_scast is_up)
  next
    case 3
    then show ?thesis
      using assms(2,3) sint_of_mod [where 'a = 64, of n x] of_nat_enc_int [of n x, where 'a = 64]
      by (simp add: intsetGetEncoded_def Let_def intset_encs)
  qed
qed

lemma get_encoded:
  "holds is n xs \<Longrightarrow> i < length xs \<Longrightarrow> sint (intsetGetEncoded is i n) = xs ! i"
  by (rule get_encoded_bytes) (auto simp: holds_def nth_encode_all [OF length_enc_int])

lemma value_encoding: "intsetValueEncoding v \<in> {2, 4, 8}" "fits (intsetValueEncoding v) (sint v)"
proof -
  have "- (2 ^ 63) \<le> sint v" and "sint v < 2 ^ 63"
    using sint_greater_eq [of v] sint_less [of v] by simp_all
  then show "intsetValueEncoding v \<in> {2, 4, 8}" "fits (intsetValueEncoding v) (sint v)"
    by (auto simp: intsetValueEncoding_def intset_encs fits_def)
qed

lemma fits_iff_encoding: "n \<in> {2, 4, 8} \<Longrightarrow> fits n (sint v) \<longleftrightarrow> intsetValueEncoding v \<le> n"
  using value_encoding(2) [of v] by (auto simp: intsetValueEncoding_def intset_encs fits_def split: if_splits)

lemma fits_mono: "m \<le> n \<Longrightarrow> 0 < m \<Longrightarrow> fits m x \<Longrightarrow> fits n x"
proof -
  assume "m \<le> n" "0 < m" "fits m x"
  moreover from this have "(2 :: int) ^ (8 * m - 1) \<le> 2 ^ (8 * n - 1)" by (intro power_increasing) auto
  ultimately show ?thesis unfolding fits_def by linarith
qed

lemma unat_ucast_sint:
  assumes "LENGTH('a :: len) \<le> 64"
  shows "unat (ucast (v :: u64) :: 'a word) = nat (sint v mod 2 ^ LENGTH('a))"
proof -
  have "uint v = take_bit 64 (sint v)" by (simp add: uint_sint)
  then have "take_bit LENGTH('a) (uint v) = take_bit LENGTH('a) (sint v)"
    using assms by (simp add: min_def)
  moreover have "uint (ucast v :: 'a word) = take_bit LENGTH('a) (uint v)"
    by transfer simp
  ultimately show ?thesis by (simp add: unat_eq_nat_uint take_bit_eq_mod)
qed

lemma stored_value:
  assumes "is_encoding is \<in> {2, 4, 8}"
  shows "intsetSet is i v = is\<lparr>is_contents := write_at (i * is_encoding is) (enc_int (is_encoding is) (sint v)) (is_contents is)\<rparr>"
proof -
  from assms consider "is_encoding is = 2" | "is_encoding is = 4" | "is_encoding is = 8" by blast
  then show ?thesis
  proof cases
    case 1
    then show ?thesis using unat_ucast_sint [of v, where 'a = 16] by (simp add: intsetSet_def intset_encs enc_int_def)
  next
    case 2
    then show ?thesis using unat_ucast_sint [of v, where 'a = 32] by (simp add: intsetSet_def intset_encs enc_int_def)
  next
    case 3
    then show ?thesis using unat_ucast_sint [of v, where 'a = 64] by (simp add: intsetSet_def intset_encs enc_int_def)
  qed
qed

lemma set_holds:
  assumes "holds is (is_encoding is) xs" and "i < length xs" and "intsetValueEncoding v \<le> is_encoding is"
  shows "holds (intsetSet is i v) (is_encoding is) (xs[i := sint v])"
proof -
  have n: "is_encoding is \<in> {2, 4, 8}" using assms(1) by (auto simp: holds_def)
  have "fits (is_encoding is) (sint v)" using assms(3) fits_iff_encoding [OF n] by blast
  then show ?thesis
    using assms(1,2) set_update_subset_insert [of xs i "sint v"]
    by (auto simp: holds_def stored_value [OF n] write_encode_all [OF length_enc_int])
qed

section \<open>The set a buffer stands for\<close>

text \<open>
  A well-formed integer set holds a strictly increasing list.  The bound on its length keeps
  the 32-bit byte counts from wrapping: the code has no such guard, and Redis converts a set
  long before (\<^verbatim>\<open>set-max-intset-entries\<close>).
\<close>

definition intset_cap :: nat where "intset_cap = 2 ^ 28"

definition intset_rep :: "intset \<Rightarrow> int list \<Rightarrow> bool" where
  "intset_rep is xs \<longleftrightarrow>
     holds is (is_encoding is) xs \<and> unat (is_length is) = length xs \<and> sorted_wrt (<) xs \<and>
     length xs \<le> intset_cap"

lemma rep_get: "intset_rep is xs \<Longrightarrow> i < length xs \<Longrightarrow> sint (intset_get_at is i) = xs ! i"
  by (simp add: intset_rep_def intset_get_at_def get_encoded)

lemma rep_encoding: "intset_rep is xs \<Longrightarrow> is_encoding is \<in> {2, 4, 8}"
  by (simp add: intset_rep_def holds_def)

lemma sorted_nth_less: "sorted_wrt (<) xs \<Longrightarrow> i < j \<Longrightarrow> j < length xs \<Longrightarrow> xs ! i < (xs ! j :: int)"
  by (simp add: sorted_wrt_iff_nth_less)

text \<open>Where a value is, or would be inserted.\<close>

definition insert_point :: "int list \<Rightarrow> int \<Rightarrow> nat \<Rightarrow> bool" where
  "insert_point xs x p \<longleftrightarrow> p \<le> length xs \<and> (\<forall>i < p. xs ! i < x) \<and> (\<forall>i < length xs. p \<le> i \<longrightarrow> x < xs ! i)"

lemma insert_point_notin: "insert_point xs x p \<Longrightarrow> x \<notin> set xs"
  unfolding insert_point_def in_set_conv_nth by (metis less_irrefl not_le)

lemma isearch_loop_spec:
  assumes "intset_rep is xs" and "0 \<le> lo" and "hi < int (length xs)" and "lo \<le> hi + 1"
    and "\<forall>i < nat lo. xs ! i < sint v" and "\<forall>i < length xs. hi < int i \<longrightarrow> sint v < xs ! i"
    and "lo \<le> hi \<or> cur \<noteq> v" and "isearch_loop is v lo hi mid cur = (lo', mid', cur')"
  shows "if cur' = v then 0 \<le> mid' \<and> nat mid' < length xs \<and> xs ! nat mid' = sint v
    else insert_point xs (sint v) (nat lo')"
  using assms
proof (induction "is" v lo hi mid cur rule: isearch_loop.induct)
  case (1 "is" v lo hi mid cur)
  note pre = "1.prems"
  show ?case
  proof (cases "lo \<le> hi")
    case False
    then have "cur' = cur \<and> lo' = lo" and "lo = hi + 1" using pre by (auto simp: isearch_loop.simps)
    then show ?thesis using pre False by (auto simp: insert_point_def)
  next
    case True
    define m where "m = (lo + hi) div 2"
    have m: "lo \<le> m" "m \<le> hi" using True by (auto simp: m_def)
    then have m': "nat m < length xs" "0 \<le> m" using pre(2,3) by auto
    define c where "c = intset_get_at is (nat m)"
    have c: "sint c = xs ! nat m" using rep_get [OF pre(1) m'(1)] by (simp add: c_def)
    have srt: "sorted_wrt (<) xs" using pre(1) by (simp add: intset_rep_def)
    consider "sint c < sint v" | "sint v < sint c" | "sint c = sint v" by linarith
    then show ?thesis
    proof cases
      case 1
      have "\<forall>i < nat (m + 1). xs ! i < sint v"
      proof (intro allI impI)
        fix i assume "i < nat (m + 1)"
        then have "i = nat m \<or> i < nat m" by linarith
        then show "xs ! i < sint v" using sorted_nth_less [OF srt _ m'(1)] c 1 by fastforce
      qed
      moreover have "c \<noteq> v" using 1 by auto
      moreover have "isearch_loop is v (m + 1) hi m c = (lo', mid', cur')"
        using pre(8) True 1 by (subst (asm) isearch_loop.simps) (simp add: m_def c_def Let_def)
      ultimately show ?thesis
        using "1.IH"(1) [OF True m_def c_def 1 pre(1)] m m' pre by auto
    next
      case 2
      have "\<forall>i < length xs. m - 1 < int i \<longrightarrow> sint v < xs ! i"
      proof (intro allI impI)
        fix i assume "i < length xs" "m - 1 < int i"
        then have "i = nat m \<or> nat m < i" by linarith
        then show "sint v < xs ! i" using sorted_nth_less [OF srt _ \<open>i < length xs\<close>] c 2 by fastforce
      qed
      moreover have "c \<noteq> v" using 2 by auto
      moreover have "isearch_loop is v lo (m - 1) m c = (lo', mid', cur')"
        using pre(8) True 2 by (subst (asm) isearch_loop.simps) (simp add: m_def c_def Let_def)
      ultimately show ?thesis
        using "1.IH"(2) [OF True m_def c_def _ 2 pre(1)] m m' pre 2 by auto
    next
      case 3
      then have "c = v" by (simp add: signed_word_eqI)
      then have "cur' = v \<and> mid' = m"
        using pre(8) True 3 by (subst (asm) isearch_loop.simps) (auto simp: m_def c_def Let_def)
      then show ?thesis using m' c 3 by simp
    qed
  qed
qed

lemma intsetSearch_spec:
  assumes rep: "intset_rep is xs" and s: "intsetSearch is v = (found, pos)"
  shows "if found then pos < length xs \<and> xs ! pos = sint v else insert_point xs (sint v) pos"
proof (cases "xs = []")
  case True
  then show ?thesis using rep s by (auto simp: intsetSearch_def intset_rep_def insert_point_def)
next
  case False
  let ?n = "length xs"
  have n: "unat (is_length is) = ?n" using rep by (simp add: intset_rep_def)
  have srt: "sorted_wrt (<) xs" using rep by (simp add: intset_rep_def)
  have last: "sint (intset_get_at is (?n - 1)) = xs ! (?n - 1)" and first: "sint (intset_get_at is 0) = xs ! 0"
    using rep_get [OF rep] False by simp_all
  have le_last: "xs ! i \<le> xs ! (?n - 1)" if "i < ?n" for i
    using that sorted_nth_less [OF srt, of i "?n - 1"] False
    by (cases "i = ?n - 1") (auto intro: less_imp_le)
  have ge_first: "xs ! 0 \<le> xs ! i" if "i < ?n" for i
    using that sorted_nth_less [OF srt, of 0 i] by (cases "i = 0") auto
  consider "xs ! (?n - 1) < sint v" | "\<not> xs ! (?n - 1) < sint v" "sint v < xs ! 0"
    | "\<not> xs ! (?n - 1) < sint v" "\<not> sint v < xs ! 0" by blast
  then show ?thesis
  proof cases
    case 1
    then have "found = False \<and> pos = ?n"
      using s n False last by (auto simp: intsetSearch_def Let_def)
    then show ?thesis using 1 le_last by (auto simp: insert_point_def intro: le_less_trans)
  next
    case 2
    then have "found = False \<and> pos = 0"
      using s n False last first by (auto simp: intsetSearch_def Let_def)
    then show ?thesis using 2 ge_first by (auto simp: insert_point_def intro: less_le_trans)
  next
    case 3
    obtain lo mid cur where l: "isearch_loop is v 0 (int ?n - 1) (- 1) (- 1) = (lo, mid, cur)"
      by (metis prod_cases3)
    then have r: "(found, pos) = (if v = cur then (True, nat mid) else (False, nat lo))"
      using s 3 n False last first by (auto simp: intsetSearch_def Let_def)
    show ?thesis
      using isearch_loop_spec [OF rep _ _ _ _ _ _ l] r False by (auto split: if_splits)
  qed
qed

section \<open>Insertion and removal\<close>

lemma byte_count: "n \<in> {2, 4, 8} \<Longrightarrow> k \<le> intset_cap + 1 \<Longrightarrow> unat (of_nat k * of_nat n :: u32) = k * n"
proof -
  assume a: "n \<in> {2, 4, 8}" "k \<le> intset_cap + 1"
  then have "k * n \<le> (intset_cap + 1) * 8" by (intro mult_le_mono) auto
  then have "k * n < 2 ^ 32" by (simp add: intset_cap_def)
  then show ?thesis by (simp add: unat_of_nat flip: of_nat_mult)
qed

lemma length_word: "unat (w :: u32) = k \<Longrightarrow> w = of_nat k"
  by (metis of_nat_unat ucast_id)

lemma length_succ: "unat (w :: u32) = k \<Longrightarrow> k \<le> intset_cap \<Longrightarrow> unat (w + 1) = k + 1 \<and> unat (1 + w) = k + 1 \<and> w + 1 = of_nat (k + 1)"
  by (auto simp: length_word unat_word_ariths intset_cap_def unat_of_nat)

lemma length_pred: "unat (w :: u32) = k \<Longrightarrow> 0 < k \<Longrightarrow> unat (w - 1) = k - 1 \<and> w - 1 = of_nat (k - 1)"
proof -
  assume a: "unat w = k" "0 < k"
  then have "1 \<le> w" by (simp add: word_le_nat_alt)
  then have "unat (w - 1) = k - 1" using a by (simp add: unat_sub)
  then show ?thesis using length_word by blast
qed

lemma enc_int_0: "enc_int n 0 = replicate n 0"
proof -
  have "le_bytes n 0 = replicate n 0" by (induction n) auto
  then show ?thesis by (simp add: enc_int_def)
qed

lemma resize_grow:
  assumes "holds is (is_encoding is) xs" and "length xs \<le> intset_cap"
  shows "holds (intsetResize is (of_nat (length xs + 1))) (is_encoding is) (xs @ [0])"
    and "is_encoding (intsetResize is w) = is_encoding is" "is_length (intsetResize is w) = is_length is"
proof -
  have n: "is_encoding is \<in> {2, 4, 8}" using assms(1) by (auto simp: holds_def)
  have "unat (of_nat (length xs + 1) * of_nat (is_encoding is) :: u32) = (length xs + 1) * is_encoding is"
    using byte_count [OF n, of "length xs + 1"] assms(2) by simp
  moreover have "fits (is_encoding is) 0" using n by (auto simp: fits_def)
  ultimately show "holds (intsetResize is (of_nat (length xs + 1))) (is_encoding is) (xs @ [0])"
    using assms(1) by (auto simp: holds_def intsetResize_def Let_def length_encode_all [OF length_enc_int] enc_int_0
        simp del: of_nat_Suc of_nat_add)
qed (simp_all add: intsetResize_def Let_def)

lemma resize_shrink:
  assumes "holds is (is_encoding is) xs" and "k \<le> length xs" and "k \<le> intset_cap"
  shows "holds (intsetResize is (of_nat k)) (is_encoding is) (take k xs)"
proof -
  have n: "is_encoding is \<in> {2, 4, 8}" using assms(1) by (auto simp: holds_def)
  have "unat (of_nat k * of_nat (is_encoding is) :: u32) = k * is_encoding is"
    using byte_count [OF n, of k] assms(3) by simp
  moreover have "k * is_encoding is \<le> length xs * is_encoding is" using assms(2) by simp
  ultimately show ?thesis
    using assms(1) by (auto simp: holds_def intsetResize_def Let_def length_encode_all [OF length_enc_int]
        take_encode_all [OF length_enc_int] dest: in_set_takeD)
qed

lemma move_tail_holds:
  assumes "holds is (is_encoding is) ys" and "unat (is_length is) = k" and "from \<le> k" and "k \<le> intset_cap"
    and "k \<le> length ys"
  shows "holds (intsetMoveTail is from to) (is_encoding is) (memmove_at to from (k - from) ys)"
proof -
  have n: "is_encoding is \<in> {2, 4, 8}" using assms(1) by (auto simp: holds_def)
  have "is_length is - of_nat from = of_nat (k - from)"
    using assms(2,3) length_word [OF assms(2)] by (simp add: of_nat_diff)
  then have "unat ((is_length is - of_nat from) * of_nat (is_encoding is)) = (k - from) * is_encoding is"
    using byte_count [OF n, of "k - from"] assms(4) by simp
  moreover have "set (memmove_at to from (k - from) ys) \<subseteq> set ys"
    unfolding memmove_at_def write_at_def
    by (auto dest!: in_set_takeD in_set_dropD)
  ultimately show ?thesis
    using assms by (auto simp: holds_def intsetMoveTail_def Let_def memmove_encode_all [OF length_enc_int])
qed

lemma sorted_insert:
  assumes "sorted_wrt (<) xs" and "insert_point xs x p"
  shows "sorted_wrt (<) (take p xs @ x # drop p xs :: int list)"
proof -
  have "\<forall>y \<in> set (take p xs). y < x"
    using assms(2) by (auto simp: insert_point_def in_set_conv_nth)
  moreover have "\<forall>y \<in> set (drop p xs). x < y"
    using assms(2) by (auto simp: insert_point_def in_set_conv_nth)
  moreover have "sorted_wrt (<) (take p xs @ drop p xs)" using assms(1) by simp
  ultimately show ?thesis by (auto simp: sorted_wrt_append simp del: append_take_drop_id dest: less_trans)
qed

lemma insert_contents:
  fixes xs :: "int list"
  assumes "p < length xs"
  shows "(memmove_at (p + 1) p (length xs - p) (xs @ [z]))[p := x] = take p xs @ x # drop p xs"
  using assms by (simp add: memmove_at_def write_at_def list_update_append upd_conv_take_nth_drop min_def)

lemma remove_contents:
  fixes xs :: "int list"
  assumes "p < length xs"
  shows "take (length xs - 1) (memmove_at p (p + 1) (length xs - (p + 1)) xs) = take p xs @ drop (p + 1) xs"
  using assms by (simp add: memmove_at_def write_at_def)

lemma intset_add_narrow:
  assumes rep: "intset_rep is xs" and cap: "length xs < intset_cap"
    and enc: "intsetValueEncoding v \<le> is_encoding is" and a: "intsetAdd is v = (is', ok)"
  shows "\<exists>ys. intset_rep is' ys \<and> set ys = insert (sint v) (set xs) \<and> (ok \<longleftrightarrow> sint v \<notin> set xs) \<and>
    length ys = (if ok then length xs + 1 else length xs)"
proof -
  obtain found pos where s: "intsetSearch is v = (found, pos)" by fastforce
  note sp = intsetSearch_spec [OF rep s]
  show ?thesis
  proof (cases found)
    case True
    then have "is' = is \<and> \<not> ok" using a s enc by (simp add: intsetAdd_def)
    then show ?thesis using rep sp True by (auto intro!: exI [of _ xs] dest: nth_mem)
  next
    case False
    then have ip: "insert_point xs (sint v) pos" using sp by simp
    let ?n = "length xs"
    let ?e = "is_encoding is"
    have h: "holds is ?e xs" and len: "unat (is_length is) = ?n" and srt: "sorted_wrt (<) xs"
      using rep by (auto simp: intset_rep_def)
    have n: "?e \<in> {2, 4, 8}" by (rule rep_encoding [OF rep])
    note succ = length_succ [OF len less_imp_le [OF cap]]
    define i1 where "i1 = intsetResize is (is_length is + 1)"
    have i1: "holds i1 ?e (xs @ [0])" "is_encoding i1 = ?e" "is_length i1 = is_length is"
      using resize_grow [OF h] cap succ by (simp_all add: i1_def add.commute)
    define i2 where "i2 = (if pos < unat (is_length i1) then intsetMoveTail i1 pos (pos + 1) else i1)"
    define zs where "zs = (if pos < ?n then memmove_at (pos + 1) pos (?n - pos) (xs @ [0]) else xs @ [0])"
    have i2: "holds i2 ?e zs" "is_encoding i2 = ?e" "is_length i2 = is_length is"
      using move_tail_holds [of i1 "xs @ [0]" ?n pos "pos + 1"] i1 len cap
      by (auto simp: i2_def zs_def intsetMoveTail_def Let_def)
    have p: "pos \<le> ?n" using ip by (simp add: insert_point_def)
    have lz: "length zs = ?n + 1" using p by (auto simp: zs_def memmove_at_def write_at_def)
    have ys: "zs[pos := sint v] = take pos xs @ sint v # drop pos xs"
      using insert_contents [of pos xs 0 "sint v"] p by (auto simp: zs_def)
    have "holds (intsetSet i2 pos v) ?e (zs[pos := sint v])"
      using set_holds [of i2 zs pos v] i2 lz p enc by simp
    moreover have "is' = (intsetSet i2 pos v)\<lparr>is_length := is_length (intsetSet i2 pos v) + 1\<rparr> \<and> ok"
      using a s False enc by (auto simp: intsetAdd_def Let_def i1_def i2_def)
    moreover have "is_length (intsetSet i2 pos v) = is_length is" "is_encoding (intsetSet i2 pos v) = ?e"
      using i2 n by (simp_all add: stored_value)
    ultimately have "intset_rep is' (take pos xs @ sint v # drop pos xs) \<and> ok"
      using succ cap p sorted_insert [OF srt ip] unfolding ys
      by (auto simp: intset_rep_def holds_def)
    moreover have "set (take pos xs @ sint v # drop pos xs) = insert (sint v) (set xs)"
      by (metis append_take_drop_id list.set(2) set_append Un_insert_right)
    ultimately show ?thesis
      using insert_point_notin [OF ip] p by (intro exI [of _ "take pos xs @ sint v # drop pos xs"]) auto
  qed
qed

lemma intset_remove_rep:
  assumes rep: "intset_rep is xs" and a: "intsetRemove is v = (is', ok)"
  shows "\<exists>ys. intset_rep is' ys \<and> set ys = set xs - {sint v} \<and> (ok \<longleftrightarrow> sint v \<in> set xs)"
proof -
  let ?n = "length xs"
  let ?e = "is_encoding is"
  have h: "holds is ?e xs" and len: "unat (is_length is) = ?n" and srt: "sorted_wrt (<) xs"
    using rep by (auto simp: intset_rep_def)
  have n: "?e \<in> {2, 4, 8}" by (rule rep_encoding [OF rep])
  obtain found pos where s: "intsetSearch is v = (found, pos)" by fastforce
  note sp = intsetSearch_spec [OF rep s]
  show ?thesis
  proof (cases "intsetValueEncoding v \<le> ?e \<and> found")
    case False
    then have "is' = is \<and> \<not> ok" using a s by (auto simp: intsetRemove_def split: if_splits)
    moreover have "sint v \<notin> set xs"
      using False sp insert_point_notin fits_iff_encoding [OF n, of v] h by (auto simp: holds_def)
    ultimately show ?thesis using rep by (auto intro!: exI [of _ xs])
  next
    case True
    then have p: "pos < ?n" and x: "xs ! pos = sint v" using sp by auto
    then have pos: "0 < ?n" by auto
    note pred = length_pred [OF len pos]
    have cap: "?n \<le> intset_cap" using rep by (simp add: intset_rep_def)
    define i1 where "i1 = (if pos < unat (is_length is - 1) then intsetMoveTail is (pos + 1) pos else is)"
    define zs where "zs = (if pos < ?n - 1 then memmove_at pos (pos + 1) (?n - (pos + 1)) xs else xs)"
    have i1: "holds i1 ?e zs" "is_encoding i1 = ?e"
      using move_tail_holds [OF h len, of "pos + 1" pos] pred h p cap
      by (auto simp: i1_def zs_def intsetMoveTail_def Let_def)
    have lz: "length zs = ?n" using p by (auto simp: zs_def memmove_at_def write_at_def)
    have ys: "take (?n - 1) zs = take pos xs @ drop (pos + 1) xs"
    proof (cases "pos < ?n - 1")
      case True
      then show ?thesis using remove_contents [OF p] by (simp add: zs_def)
    next
      case False
      then have "?n - 1 = pos" using p by simp
      then show ?thesis using False by (simp add: zs_def)
    qed
    have "holds (intsetResize i1 (of_nat (?n - 1))) ?e (take (?n - 1) zs)"
      using resize_shrink [of i1 zs "?n - 1"] i1 lz cap by simp
    moreover have "is' = (intsetResize i1 (of_nat (?n - 1)))\<lparr>is_length := is_length is - 1\<rparr>" and ok
      using a s True pred by (auto simp: intsetRemove_def Let_def i1_def)
    moreover have "sorted_wrt (<) (take pos xs @ drop (pos + 1) xs)"
    proof -
      have "sorted_wrt (<) (take pos xs @ xs ! pos # drop (pos + 1) xs)"
        using srt id_take_nth_drop [OF p] by simp
      then show ?thesis by (auto simp: sorted_wrt_append)
    qed
    moreover have "is_encoding (intsetResize i1 (of_nat (?n - 1))) = ?e"
      using i1 by (simp add: intsetResize_def Let_def)
    ultimately have "intset_rep is' (take pos xs @ drop (pos + 1) xs)"
      using pred cap p ys by (auto simp: intset_rep_def holds_def)
    moreover have "set (take pos xs @ drop (pos + 1) xs) = set xs - {sint v}"
    proof -
      have "distinct xs" using srt by (simp add: strict_sorted_iff)
      then have "distinct (take pos xs @ xs ! pos # drop (pos + 1) xs)"
        using id_take_nth_drop [OF p] by simp
      moreover have "set xs = set (take pos xs @ xs ! pos # drop (pos + 1) xs)"
        using id_take_nth_drop [OF p] by simp
      ultimately show ?thesis by (auto simp: x)
    qed
    moreover have "sint v \<in> set xs" using nth_mem [OF p] by (simp add: x)
    ultimately show ?thesis using \<open>ok\<close> by blast
  qed
qed

section \<open>Upgrade\<close>

text \<open>
  While the elements are rewritten from the last to the first, the ones still in the old width
  are intact at the front of the buffer, the others are in place at its end.
\<close>

lemma upgrade_loop_spec:
  assumes enc: "is_encoding is = w" "w \<in> {2, 4, 8}" "u \<in> {2, 4, 8}" "u \<le> w"
    and len: "length (is_contents is) = (length xs + 1) * w" and pre: "pre \<le> 1" and k: "k \<le> length xs"
    and fits: "\<forall>x \<in> set xs. fits u x"
    and "take (k * u) (is_contents is) = encode_all (enc_int u) (take k xs)"
    and "drop ((k + pre) * w) (is_contents is) = encode_all (enc_int w) (drop k xs) @ rest"
  shows "\<exists>c. upgrade_loop pre u k is = is\<lparr>is_contents := c\<rparr> \<and> length c = (length xs + 1) * w \<and>
    drop (pre * w) c = encode_all (enc_int w) xs @ rest"
  using assms
proof (induction k arbitrary: "is")
  case 0
  then show ?case by (intro exI [of _ "is_contents is"]) simp
next
  case (Suc k)
  let ?b = "is_contents is"
  have k: "k < length xs" using Suc.prems(7) by simp
  have fw: "fits w (xs ! k)"
    using Suc.prems(2-4,8) fits_mono [of u w "xs ! k"] k by auto
  have "take u (drop (k * u) (take (Suc k * u) ?b)) = enc_int u (xs ! k)"
    unfolding Suc.prems(9) using nth_encode_all [OF length_enc_int, of k "take (Suc k) xs" u] k by simp
  then have rd: "take u (drop (k * u) ?b) = enc_int u (xs ! k)" by (simp add: drop_take min_def)
  have v: "sint (intsetGetEncoded is k u) = xs ! k"
    using get_encoded_bytes [OF Suc.prems(3) rd] Suc.prems(8) k by simp
  define b where "b = write_at ((k + pre) * w) (enc_int w (xs ! k)) ?b"
  have room: "(k + pre) * w + w \<le> length ?b"
  proof -
    have "(k + pre + 1) * w \<le> (length xs + 1) * w" using k Suc.prems(6) by (intro mult_le_mono1) simp
    then show ?thesis using Suc.prems(5) by (simp add: add_mult_distrib)
  qed
  have lw: "length (enc_int w (xs ! k)) = w" by (simp add: length_enc_int)
  have st: "intsetSet is (k + pre) (intsetGetEncoded is k u) = is\<lparr>is_contents := b\<rparr>"
    using stored_value [of "is" "k + pre" "intsetGetEncoded is k u"] Suc.prems(1,2) v by (simp add: b_def)
  have "length b = (length xs + 1) * w" using room lw Suc.prems(5) by (simp add: b_def)
  moreover have "take (k * u) b = encode_all (enc_int u) (take k xs)"
  proof -
    have "k * u \<le> (k + pre) * w" using Suc.prems(4) by (intro mult_le_mono) auto
    then have "take (k * u) b = take (k * u) (take (Suc k * u) ?b)"
      using room by (simp add: b_def take_write_at min_def)
    also have "\<dots> = encode_all (enc_int u) (take k xs)"
      unfolding Suc.prems(9) using take_encode_all [OF length_enc_int, of k u "take (Suc k) xs"] by (simp add: min_def)
    finally show ?thesis .
  qed
  moreover have "drop ((k + pre) * w) b = encode_all (enc_int w) (drop k xs) @ rest"
  proof -
    have "drop ((k + pre) * w) b = enc_int w (xs ! k) @ drop ((Suc k + pre) * w) ?b"
      using room lw by (simp add: b_def write_at_def add.commute)
    then show ?thesis unfolding Suc.prems(10) using k by (simp add: Cons_nth_drop_Suc [symmetric])
  qed
  ultimately have "\<exists>c. upgrade_loop pre u k (is\<lparr>is_contents := b\<rparr>) = is\<lparr>is_contents := b\<rparr>\<lparr>is_contents := c\<rparr> \<and>
      length c = (length xs + 1) * w \<and> drop (pre * w) c = encode_all (enc_int w) xs @ rest"
    using Suc.prems k by (intro Suc.IH) simp_all
  then show ?case by (simp add: st)
qed

lemma intset_upgrade_rep:
  assumes rep: "intset_rep is xs" and cap: "length xs < intset_cap" and enc: "is_encoding is < intsetValueEncoding v"
  shows "\<exists>ys. intset_rep (intsetUpgradeAndAdd is v) ys \<and> set ys = insert (sint v) (set xs) \<and>
    sint v \<notin> set xs \<and> length ys = length xs + 1"
proof -
  let ?n = "length xs"
  let ?u = "is_encoding is"
  define w where "w = intsetValueEncoding v"
  define pre :: nat where "pre = (if sint v < 0 then 1 else 0)"
  have h: "holds is ?u xs" and len: "unat (is_length is) = ?n" and srt: "sorted_wrt (<) xs"
    using rep by (auto simp: intset_rep_def)
  have u: "?u \<in> {2, 4, 8}" by (rule rep_encoding [OF rep])
  have w: "w \<in> {2, 4, 8}" "fits w (sint v)" unfolding w_def by (rule value_encoding)+
  have uw: "?u \<le> w" using enc by (simp add: w_def)
  note succ = length_succ [OF len less_imp_le [OF cap]]
  define i1 where "i1 = intsetResize (is\<lparr>is_encoding := w\<rparr>) (is_length is + 1)"
  have old: "is_contents is = encode_all (enc_int ?u) xs" and fit: "\<forall>x \<in> set xs. fits ?u x"
    using h by (auto simp: holds_def)
  have size: "unat ((is_length is + 1) * of_nat w) = (?n + 1) * w"
    using succ byte_count [OF w(1), of "?n + 1"] cap by (simp add: add.commute)
  have shorter: "?n * ?u \<le> (?n + 1) * w" using uw by (intro mult_le_mono) auto
  have i1c: "is_contents i1 = encode_all (enc_int ?u) xs @ replicate ((?n + 1) * w - ?n * ?u) 0"
    using size shorter by (simp add: i1_def intsetResize_def Let_def old length_encode_all [OF length_enc_int])
  have i1: "is_encoding i1 = w" "is_length i1 = is_length is" by (simp_all add: i1_def intsetResize_def Let_def)
  have "\<exists>c. upgrade_loop pre ?u ?n i1 = i1\<lparr>is_contents := c\<rparr> \<and> length c = (?n + 1) * w \<and>
      drop (pre * w) c = encode_all (enc_int w) xs @ drop ((?n + pre) * w) (is_contents i1)"
    by (rule upgrade_loop_spec [OF i1(1) w(1) u uw])
      (use fit shorter in \<open>simp_all add: i1c length_encode_all [OF length_enc_int] pre_def\<close>)
  then obtain c where loop: "upgrade_loop pre ?u ?n i1 = i1\<lparr>is_contents := c\<rparr>" and lc: "length c = (?n + 1) * w"
    and c: "drop (pre * w) c = encode_all (enc_int w) xs @ drop ((?n + pre) * w) (is_contents i1)" by blast
  define ys where "ys = (if sint v < 0 then sint v # xs else xs @ [sint v])"
  define pos where "pos = (if pre = 1 then 0 else ?n)"
  have out: "\<forall>x \<in> set xs. if sint v < 0 then sint v < x else x < sint v"
  proof -
    have "\<not> fits ?u (sint v)" using enc fits_iff_encoding [OF u] by simp
    then show ?thesis using fit by (auto simp: fits_def not_le not_less)
  qed
  have "write_at (pos * w) (enc_int w (sint v)) c = encode_all (enc_int w) ys"
  proof (cases "sint v < 0")
    case True
    then have "drop w c = encode_all (enc_int w) xs"
      using c lc i1c shorter by (simp add: pre_def length_encode_all [OF length_enc_int])
    then show ?thesis using True by (simp add: write_at_def pos_def pre_def ys_def length_enc_int)
  next
    case False
    have "take (?n * w) c = encode_all (enc_int w) xs"
      using c False by (simp add: pre_def length_encode_all [OF length_enc_int])
    then show ?thesis using False lc by (simp add: write_at_def pos_def pre_def ys_def length_enc_int)
  qed
  moreover have "intsetUpgradeAndAdd is v =
      (intsetSet (i1\<lparr>is_contents := c\<rparr>) pos v)\<lparr>is_length := is_length (intsetSet (i1\<lparr>is_contents := c\<rparr>) pos v) + 1\<rparr>"
    using loop len i1(2) by (auto simp: intsetUpgradeAndAdd_def Let_def w_def [symmetric] i1_def pre_def pos_def)
  ultimately have is': "intsetUpgradeAndAdd is v =
      \<lparr>is_encoding = w, is_length = is_length is + 1, is_contents = encode_all (enc_int w) ys\<rparr>"
    using stored_value [of "i1\<lparr>is_contents := c\<rparr>" pos v] i1 w(1) by (cases i1) simp
  have "\<forall>x \<in> set ys. fits w x"
    using w(2) fit fits_mono [OF uw] u by (auto simp: ys_def)
  moreover have "sorted_wrt (<) ys" using srt out by (auto simp: ys_def sorted_wrt_append)
  ultimately have "intset_rep (intsetUpgradeAndAdd is v) ys"
    using w(1) succ cap by (auto simp: is' intset_rep_def holds_def ys_def)
  then show ?thesis using out by (intro exI [of _ ys]) (auto simp: ys_def split: if_splits)
qed

section \<open>The set interface\<close>

definition intset_vals :: "intset \<Rightarrow> u64 list" where
  "intset_vals is = map (intset_get_at is) [0..<intsetLen is]"

definition intset_set :: "intset \<Rightarrow> u64 set" where
  "intset_set is = set (intset_vals is)"

definition intset_inv :: "intset \<Rightarrow> bool" where
  "intset_inv is \<longleftrightarrow> (\<exists>xs. intset_rep is xs)"

lemma rep_vals: "intset_rep is xs \<Longrightarrow> map sint (intset_vals is) = xs"
proof -
  assume r: "intset_rep is xs"
  then have "intsetLen is = length xs" by (simp add: intset_rep_def intsetLen_def)
  then show ?thesis using rep_get [OF r] by (auto simp: intset_vals_def intro!: nth_equalityI)
qed

lemma sint_eq_iff: "sint (v :: u64) = sint w \<longleftrightarrow> v = w"
  using signed_word_eqI by blast

lemma rep_set: "intset_rep is xs \<Longrightarrow> v \<in> intset_set is \<longleftrightarrow> sint v \<in> set xs"
  using rep_vals [of "is" xs] by (auto simp: intset_set_def sint_eq_iff)

lemma rep_card: "intset_rep is xs \<Longrightarrow> card (intset_set is) = length xs \<and> length xs = intsetLen is"
proof -
  assume r: "intset_rep is xs"
  then have "distinct (map sint (intset_vals is))"
    using rep_vals [OF r] by (simp add: intset_rep_def strict_sorted_iff)
  then have "distinct (intset_vals is)" by (rule distinct_map [THEN iffD1, THEN conjunct1])
  then show ?thesis
    using rep_vals [OF r] r by (auto simp: intset_set_def distinct_card intset_rep_def intsetLen_def)
qed

lemma intset_add_rep:
  assumes "intset_rep is xs" and "length xs < intset_cap" and "intsetAdd is v = (is', ok)"
  shows "\<exists>ys. intset_rep is' ys \<and> set ys = insert (sint v) (set xs) \<and> (ok \<longleftrightarrow> sint v \<notin> set xs)"
proof (cases "is_encoding is < intsetValueEncoding v")
  case True
  then have "is' = intsetUpgradeAndAdd is v \<and> ok" using assms(3) by (simp add: intsetAdd_def)
  then show ?thesis using intset_upgrade_rep [OF assms(1,2) True] by blast
next
  case False
  then show ?thesis using intset_add_narrow [OF assms(1,2) _ assms(3)] by (meson not_le)
qed

lemma intset_find_rep:
  assumes rep: "intset_rep is xs"
  shows "intsetFind is v \<longleftrightarrow> sint v \<in> set xs"
proof -
  obtain found pos where s: "intsetSearch is v = (found, pos)" by fastforce
  have "sint v \<notin> set xs" if "\<not> intsetValueEncoding v \<le> is_encoding is"
    using that fits_iff_encoding [OF rep_encoding [OF rep], of v] rep by (auto simp: intset_rep_def holds_def)
  moreover have "found \<longleftrightarrow> sint v \<in> set xs"
    using intsetSearch_spec [OF rep s] insert_point_notin by (metis nth_mem)
  ultimately show ?thesis using s by (auto simp: intsetFind_def)
qed

interpretation intset: bounded_set intset_inv intset_set intset_cap intsetNew intsetAdd intsetRemove intsetFind intsetLen
proof unfold_locales
  show "intset_inv intsetNew"
    by (auto simp: intset_inv_def intset_rep_def holds_def intsetNew_def intset_encs intro!: exI [of _ "[]"])
  show "intset_set intsetNew = {}" by (simp add: intset_set_def intset_vals_def intsetNew_def intsetLen_def)
  show "finite (intset_set s)" for s by (simp add: intset_set_def)
  show "intsetLen s = card (intset_set s)" if "intset_inv s" for s
    using that rep_card by (auto simp: intset_inv_def)
  show "intset_inv s' \<and> (ok \<longleftrightarrow> x \<notin> intset_set s) \<and> intset_set s' = insert x (intset_set s)"
    if iv: "intset_inv s" and c: "card (intset_set s) < intset_cap" and a: "intsetAdd s x = (s', ok)" for s x s' ok
  proof -
    obtain xs where xs: "intset_rep s xs" using iv unfolding intset_inv_def by blast
    obtain ys where ys: "intset_rep s' ys" "set ys = insert (sint x) (set xs)" "ok \<longleftrightarrow> sint x \<notin> set xs"
      using intset_add_rep [OF xs _ a] c rep_card [OF xs] by auto
    then show ?thesis
      using rep_set [OF xs] rep_set [OF ys(1)] by (auto simp: intset_inv_def sint_eq_iff)
  qed
  show "intset_inv s' \<and> (ok \<longleftrightarrow> x \<in> intset_set s) \<and> intset_set s' = intset_set s - {x}"
    if iv: "intset_inv s" and a: "intsetRemove s x = (s', ok)" for s x s' ok
  proof -
    obtain xs where xs: "intset_rep s xs" using iv unfolding intset_inv_def by blast
    obtain ys where ys: "intset_rep s' ys" "set ys = set xs - {sint x}" "ok \<longleftrightarrow> sint x \<in> set xs"
      using intset_remove_rep [OF xs a] by auto
    then show ?thesis
      using rep_set [OF xs] rep_set [OF ys(1)] by (auto simp: intset_inv_def sint_eq_iff)
  qed
  show "intsetFind s x \<longleftrightarrow> x \<in> intset_set s" if "intset_inv s" for s x
    using that intset_find_rep rep_set by (auto simp: intset_inv_def)
qed

text \<open>
  C32. The integer set refines the mathematical set: started empty, up to 2^28 insertions,
  removals, membership tests and size queries, in any order, with every upgrade of the element
  width they cause, give the answers of a set of 64-bit integers.
\<close>

theorem intset_refines_set:
  assumes "length ops \<le> 2 ^ 28"
  shows "snd (run (set_step intsetAdd intsetRemove intsetFind intsetLen) intsetNew ops) =
    snd (run pure_set_step {} ops)"
  using intset.run_refines [OF intset.inv_empty, of ops] assms by (simp add: intset.abs_empty intset_cap_def)

theorem intset_refines_set_witness:
  "snd (run (set_step intsetAdd intsetRemove intsetFind intsetLen) intsetNew
     [SAdd 5, SAdd (- 70000), SAdd 5, SMem (- 70000), SDel 5, SCount]) =
   [SFlag True, SFlag True, SFlag False, SFlag True, SFlag True, SNum 1]"
  using intset_refines_set [of "[SAdd 5, SAdd (- 70000), SAdd 5, SMem (- 70000), SDel 5, SCount]"]
  by (simp add: Let_def)

text \<open>
  C33. An upgrade keeps the array sorted: the elements are in strictly increasing order after
  every insertion and removal, so \<^verbatim>\<open>intsetGet\<close> enumerates the set in order and each position
  below the length has a value.
\<close>

theorem intset_enumerates_sorted:
  assumes "intset_inv is" and "card (intset_set is) < intset_cap"
  shows "(\<forall>s \<in> {fst (intsetAdd is v), fst (intsetRemove is v)}.
     sorted_wrt (<) (map sint (intset_vals s)) \<and>
     (\<forall>i. intsetGet s i = (if i < intsetLen s then Some (intset_vals s ! i) else None)))"
proof -
  have "sorted_wrt (<) (map sint (intset_vals s))" if "intset_inv s" for s
    using that rep_vals by (auto simp: intset_inv_def intset_rep_def)
  moreover have "intsetGet s i = (if i < intsetLen s then Some (intset_vals s ! i) else None)" for s i
    by (simp add: intsetGet_def intset_vals_def intsetLen_def)
  moreover have "intset_inv (fst (intsetAdd is v))" "intset_inv (fst (intsetRemove is v))"
    using intset.add_law [OF assms] intset.del_law [OF assms(1)] by (metis prod.collapse)+
  ultimately show ?thesis by auto
qed

theorem intset_enumerates_sorted_witness:
  "sorted_wrt (<) (map sint (intset_vals (fst (intsetAdd intsetNew 5))))"
  using intset_enumerates_sorted [OF intset.inv_empty, of 5] by (simp add: intset.abs_empty intset_cap_def)

end
