(* ===== verification/Sds.thy ===== *)
theory Sds
  imports Bytes Numbers Interfaces
begin

text \<open>
  Dynamic strings (\<^verbatim>\<open>sds.c\<close>, \<^verbatim>\<open>sds.h\<close>): a header with the length and the free space, and a
  buffer that always ends in a NUL byte after the string.  Allocation does not fail
  (\<^verbatim>\<open>zmalloc\<close> aborts the process); bytes that an allocation leaves unspecified are zero.
  The \<^verbatim>\<open>unsigned int\<close> header fields are \<open>nat\<close>: Redis bounds strings by 512 MB.
\<close>

section \<open>Model\<close>

record sdshdr =
  sds_len :: nat
  sds_free :: nat
  sds_buf :: bytes

definition SDS_MAX_PREALLOC :: nat where "SDS_MAX_PREALLOC = 1024 * 1024"

definition zrealloc :: "bytes \<Rightarrow> nat \<Rightarrow> bytes" where
  "zrealloc b n = take n b @ replicate (n - length b) 0"

text \<open>\<open>None\<close> is the \<^verbatim>\<open>NULL\<close> pointer for \<^verbatim>\<open>init\<close>.\<close>

definition sdsnewlen :: "bytes option \<Rightarrow> nat \<Rightarrow> sdshdr" where
  "sdsnewlen init n =
     \<lparr>sds_len = n, sds_free = 0,
      sds_buf = (case init of Some b \<Rightarrow> take n b | None \<Rightarrow> replicate n 0) @ [0]\<rparr>"

definition sdsempty :: sdshdr where "sdsempty = sdsnewlen (Some []) 0"

definition sdsnew :: "bytes option \<Rightarrow> sdshdr" where
  "sdsnew init = sdsnewlen init (case init of None \<Rightarrow> 0 | Some b \<Rightarrow> length (c_str b))"

definition sdsdup :: "sdshdr \<Rightarrow> sdshdr" where
  "sdsdup s = sdsnewlen (Some (sds_buf s)) (sds_len s)"

definition sdsupdatelen :: "sdshdr \<Rightarrow> sdshdr" where
  "sdsupdatelen s =
     (let reallen = length (c_str (sds_buf s))
      in s\<lparr>sds_free := sds_free s + (sds_len s - reallen), sds_len := reallen\<rparr>)"

definition sdsclear :: "sdshdr \<Rightarrow> sdshdr" where
  "sdsclear s = s\<lparr>sds_buf := (sds_buf s)[0 := 0], sds_free := sds_free s + sds_len s, sds_len := 0\<rparr>"

definition sdsMakeRoomFor :: "sdshdr \<Rightarrow> nat \<Rightarrow> sdshdr" where
  "sdsMakeRoomFor s addlen =
     (if addlen \<le> sds_free s then s
      else
        let len = sds_len s; newlen = len + addlen;
            newlen = (if newlen < SDS_MAX_PREALLOC then newlen * 2 else newlen + SDS_MAX_PREALLOC)
        in s\<lparr>sds_buf := zrealloc (sds_buf s) (newlen + 1), sds_free := newlen - len\<rparr>)"

definition sdsRemoveFreeSpace :: "sdshdr \<Rightarrow> sdshdr" where
  "sdsRemoveFreeSpace s = s\<lparr>sds_buf := zrealloc (sds_buf s) (sds_len s + 1), sds_free := 0\<rparr>"

text \<open>\<^verbatim>\<open>sizeof(struct sdshdr)\<close> is 8.\<close>

definition sdsAllocSize :: "sdshdr \<Rightarrow> nat" where
  "sdsAllocSize s = 8 + sds_len s + sds_free s + 1"

text \<open>\<open>None\<close>: an assertion of the code fails.\<close>

definition sdsIncrLen :: "sdshdr \<Rightarrow> int \<Rightarrow> sdshdr option" where
  "sdsIncrLen s incr =
     (if (if 0 \<le> incr then nat incr \<le> sds_free s else nat (- incr) \<le> sds_len s)
      then
        let len = nat (int (sds_len s) + incr); free = nat (int (sds_free s) - incr)
        in Some (s\<lparr>sds_len := len, sds_free := free, sds_buf := (sds_buf s)[len := 0]\<rparr>)
      else None)"

definition sdsgrowzero :: "sdshdr \<Rightarrow> nat \<Rightarrow> sdshdr" where
  "sdsgrowzero s len =
     (let curlen = sds_len s
      in if len \<le> curlen then s
         else
           let s = sdsMakeRoomFor s (len - curlen);
               buf = write_at curlen (replicate (len - curlen + 1) 0) (sds_buf s);
               totlen = sds_len s + sds_free s
           in s\<lparr>sds_buf := buf, sds_len := len, sds_free := totlen - len\<rparr>)"

definition sdscatlen :: "sdshdr \<Rightarrow> bytes \<Rightarrow> sdshdr" where
  "sdscatlen s t =
     (let curlen = sds_len s; len = length t;
          s = sdsMakeRoomFor s len;
          buf = write_at curlen t (sds_buf s)
      in s\<lparr>sds_buf := buf[curlen + len := 0], sds_len := curlen + len, sds_free := sds_free s - len\<rparr>)"

definition sdscat :: "sdshdr \<Rightarrow> bytes \<Rightarrow> sdshdr" where
  "sdscat s t = sdscatlen s (c_str t)"

definition sdscatsds :: "sdshdr \<Rightarrow> sdshdr \<Rightarrow> sdshdr" where
  "sdscatsds s t = sdscatlen s (take (sds_len t) (sds_buf t))"

definition sdscpylen :: "sdshdr \<Rightarrow> bytes \<Rightarrow> sdshdr" where
  "sdscpylen s t =
     (let len = length t; totlen = sds_free s + sds_len s;
          s = (if totlen < len then sdsMakeRoomFor s (len - sds_len s) else s);
          totlen = (if totlen < len then sds_free s + sds_len s else totlen)
      in s\<lparr>sds_buf := (write_at 0 t (sds_buf s))[len := 0], sds_len := len, sds_free := totlen - len\<rparr>)"

definition sdscpy :: "sdshdr \<Rightarrow> bytes \<Rightarrow> sdshdr" where
  "sdscpy s t = sdscpylen s (c_str t)"

text \<open>
  The digits least significant first, the sign at the end, and the reversal by swapping the
  two ends until they meet.
\<close>

function ll2str_digits :: "u64 \<Rightarrow> bytes" where
  "ll2str_digits v = (48 + ucast (v mod 10)) # (if v div 10 = 0 then [] else ll2str_digits (v div 10))"
  by pat_completeness auto
termination
proof (relation "measure unat", simp, goal_cases)
  case (1 v)
  then have "unat (v div 10) \<noteq> 0" by (simp add: unat_eq_0)
  then show ?case by (simp add: unat_div)
qed

declare ll2str_digits.simps [simp del]

function swap_ends :: "nat \<Rightarrow> nat \<Rightarrow> 'a list \<Rightarrow> 'a list" where
  "swap_ends s p xs = (if s < p then swap_ends (s + 1) (p - 1) (xs[s := xs ! p, p := xs ! s]) else xs)"
  by pat_completeness auto
termination by (relation "measure (\<lambda>(s, p, xs). p - s)") auto

declare swap_ends.simps [simp del]

definition sdsll2str :: "u64 \<Rightarrow> bytes" where
  "sdsll2str value =
     (let v = (if sint value < 0 then - value else value);
          b = ll2str_digits v @ (if sint value < 0 then [45] else []);
          l = length b
      in swap_ends 0 (l - 1) b)"

definition sdsull2str :: "u64 \<Rightarrow> bytes" where
  "sdsull2str v = (let b = ll2str_digits v in swap_ends 0 (length b - 1) b)"

definition sdsfromlonglong :: "u64 \<Rightarrow> sdshdr" where
  "sdsfromlonglong value = (let b = sdsll2str value in sdsnewlen (Some b) (length b))"

text \<open>
  \<^verbatim>\<open>strchr\<close> also finds the terminator of the set, so that NUL bytes count as members.  The
  two loops give the number of bytes skipped in front and behind.
\<close>

definition in_cset :: "bytes \<Rightarrow> u8 \<Rightarrow> bool" where
  "in_cset cset c \<longleftrightarrow> c = 0 \<or> c \<in> set (c_str cset)"

fun trim_front :: "bytes \<Rightarrow> int \<Rightarrow> nat \<Rightarrow> bytes \<Rightarrow> nat" where
  "trim_front cset e sp [] = sp"
| "trim_front cset e sp (c # buf) =
     (if int sp \<le> e \<and> in_cset cset c then trim_front cset e (sp + 1) buf else sp)"

function trim_back :: "bytes \<Rightarrow> int \<Rightarrow> bytes \<Rightarrow> int" where
  "trim_back cset ep buf =
     (if 0 < ep \<and> in_cset cset (buf ! nat ep) then trim_back cset (ep - 1) buf else ep)"
  by pat_completeness auto
termination by (relation "measure (\<lambda>(cset, ep, buf). nat ep)") auto

declare trim_back.simps [simp del]

definition sdstrim :: "sdshdr \<Rightarrow> bytes \<Rightarrow> sdshdr" where
  "sdstrim s cset =
     (let e = int (sds_len s) - 1;
          sp = trim_front cset e 0 (sds_buf s);
          ep = trim_back cset e (sds_buf s);
          len = (if ep < int sp then 0 else nat (ep - int sp + 1));
          buf = (if sp \<noteq> 0 then memmove_at 0 sp len (sds_buf s) else sds_buf s)
      in s\<lparr>sds_buf := buf[len := 0], sds_free := sds_free s + (sds_len s - len), sds_len := len\<rparr>)"

definition sdsrange :: "sdshdr \<Rightarrow> int \<Rightarrow> int \<Rightarrow> sdshdr" where
  "sdsrange s start stop =
     (let len = int (sds_len s)
      in if len = 0 then s
         else
           let start = (if start < 0 then max 0 (len + start) else start);
               stop = (if stop < 0 then max 0 (len + stop) else stop);
               newlen = (if stop < start then 0 else stop - start + 1);
               (start, newlen) =
                 (if newlen \<noteq> 0 then
                    (if len \<le> start then (start, 0)
                     else if len \<le> stop then (start, if len - 1 < start then 0 else len - 1 - start + 1)
                     else (start, newlen))
                  else (0, newlen));
               buf = (if start \<noteq> 0 \<and> newlen \<noteq> 0
                      then memmove_at 0 (nat start) (nat newlen) (sds_buf s) else sds_buf s)
           in s\<lparr>sds_buf := buf[nat newlen := 0],
                sds_free := sds_free s + (sds_len s - nat newlen), sds_len := nat newlen\<rparr>)"

definition sds_map :: "(u8 \<Rightarrow> u8) \<Rightarrow> sdshdr \<Rightarrow> sdshdr" where
  "sds_map f s = s\<lparr>sds_buf := map f (take (sds_len s) (sds_buf s)) @ drop (sds_len s) (sds_buf s)\<rparr>"

text \<open>The sign of \<^verbatim>\<open>memcmp\<close>: bytes compare as \<^verbatim>\<open>unsigned char\<close>.\<close>

fun memcmp :: "bytes \<Rightarrow> bytes \<Rightarrow> nat \<Rightarrow> int" where
  "memcmp (a # x) (b # y) (Suc n) = (if a < b then -1 else if b < a then 1 else memcmp x y n)"
| "memcmp _ _ _ = 0"

definition sdscmp :: "sdshdr \<Rightarrow> sdshdr \<Rightarrow> int" where
  "sdscmp s1 s2 =
     (let l1 = sds_len s1; l2 = sds_len s2; minlen = (if l1 < l2 then l1 else l2);
          cmp = memcmp (sds_buf s1) (sds_buf s2) minlen
      in if cmp = 0 then int l1 - int l2 else cmp)"

text \<open>The first occurrence in \<^verbatim>\<open>from\<close> of a byte, and the byte at its place in \<^verbatim>\<open>to\<close>.\<close>

fun map_char :: "bytes \<Rightarrow> bytes \<Rightarrow> u8 \<Rightarrow> u8" where
  "map_char (f # from) (t # to) c = (if c = f then t else map_char from to c)"
| "map_char _ _ c = c"

definition sdsmapchars :: "sdshdr \<Rightarrow> bytes \<Rightarrow> bytes \<Rightarrow> sdshdr" where
  "sdsmapchars s from to = sds_map (map_char from to) s"

fun sdsjoin_loop :: "bytes \<Rightarrow> bytes list \<Rightarrow> sdshdr \<Rightarrow> sdshdr" where
  "sdsjoin_loop sep [] join = join"
| "sdsjoin_loop sep (a # argv) join =
     (let join = sdscat join a;
          join = (if argv \<noteq> [] then sdscat join sep else join)
      in sdsjoin_loop sep argv join)"

definition sdsjoin :: "bytes list \<Rightarrow> bytes \<Rightarrow> sdshdr" where
  "sdsjoin argv sep = sdsjoin_loop sep argv sdsempty"

section \<open>Invariant\<close>

definition sds_inv :: "sdshdr \<Rightarrow> bool" where
  "sds_inv s \<longleftrightarrow> length (sds_buf s) = sds_len s + sds_free s + 1 \<and> sds_buf s ! sds_len s = 0"

definition sds_str :: "sdshdr \<Rightarrow> bytes" where
  "sds_str s = take (sds_len s) (sds_buf s)"

lemma length_sds_str: "sds_inv s \<Longrightarrow> length (sds_str s) = sds_len s"
  by (simp add: sds_inv_def sds_str_def)

lemma sdsnewlen_ok:
  "n \<le> length b \<Longrightarrow> sds_inv (sdsnewlen (Some b) n) \<and> sds_str (sdsnewlen (Some b) n) = take n b"
  "sds_inv (sdsnewlen None n) \<and> sds_str (sdsnewlen None n) = replicate n 0"
  by (simp_all add: sds_inv_def sds_str_def sdsnewlen_def nth_append)

lemma sdsnew_ok:
  "sds_inv (sdsnew (Some b)) \<and> sds_str (sdsnew (Some b)) = c_str b"
proof -
  have "length (c_str b) \<le> length b" by (simp add: c_str_def length_takeWhile_le)
  moreover have "take (length (c_str b)) b = c_str b" unfolding c_str_def by (metis takeWhile_eq_take)
  ultimately show ?thesis using sdsnewlen_ok(1) [of "length (c_str b)" b] by (simp add: sdsnew_def)
qed

lemma sdsMakeRoomFor_ok:
  assumes "sds_inv s"
  shows "sds_inv (sdsMakeRoomFor s n)" "sds_str (sdsMakeRoomFor s n) = sds_str s"
    "sds_len (sdsMakeRoomFor s n) = sds_len s" "n \<le> sds_free (sdsMakeRoomFor s n)"
proof -
  have *: "sds_inv s' \<and> sds_str s' = sds_str s \<and> sds_len s' = sds_len s \<and> n \<le> sds_free s'"
    if m: "sds_len s + n \<le> m" and n: "sds_free s < n"
      and s': "s' = s\<lparr>sds_buf := zrealloc (sds_buf s) (m + 1), sds_free := m - sds_len s\<rparr>" for m s'
  proof -
    have l: "length (sds_buf s) = sds_len s + sds_free s + 1" and z: "sds_buf s ! sds_len s = 0"
      using assms by (auto simp: sds_inv_def)
    have "take (m + 1) (sds_buf s) = sds_buf s" using l m n by simp
    then show ?thesis using l z m n by (simp add: s' sds_inv_def sds_str_def zrealloc_def nth_append)
  qed
  show "sds_inv (sdsMakeRoomFor s n)" "sds_str (sdsMakeRoomFor s n) = sds_str s"
    "sds_len (sdsMakeRoomFor s n) = sds_len s" "n \<le> sds_free (sdsMakeRoomFor s n)"
    using * [OF _ _ refl, of "2 * (sds_len s + n)"] * [OF _ _ refl, of "sds_len s + n + SDS_MAX_PREALLOC"] assms
    by (cases "n \<le> sds_free s"; cases "sds_len s + n < SDS_MAX_PREALLOC";
        simp add: sdsMakeRoomFor_def Let_def mult.commute)+
qed

lemma write_nul:
  assumes "i + length t < length b"
  shows "(write_at i t b)[i + length t := 0] = take i b @ t @ 0 # drop (i + length t + 1) b"
proof -
  have "length (take i b @ t) = i + length t" using assms by simp
  then show ?thesis using assms
    by (simp add: write_at_def list_update_append Cons_nth_drop_Suc [symmetric])
qed

lemma sdscatlen_ok:
  assumes "sds_inv s"
  shows "sds_inv (sdscatlen s t) \<and> sds_str (sdscatlen s t) = sds_str s @ t"
proof -
  let ?s = "sdsMakeRoomFor s (length t)"
  note m = sdsMakeRoomFor_ok [OF assms, of "length t"]
  have l: "length (sds_buf ?s) = sds_len s + sds_free ?s + 1" using m(1,3) by (simp add: sds_inv_def)
  then have "(write_at (sds_len s) t (sds_buf ?s))[sds_len s + length t := 0] =
      sds_str s @ t @ 0 # drop (sds_len s + length t + 1) (sds_buf ?s)"
    using m by (subst write_nul) (auto simp: sds_str_def)
  then show ?thesis
    using l m length_sds_str [OF assms]
    by (auto simp: sdscatlen_def Let_def sds_inv_def sds_str_def [of "_\<lparr>sds_buf := _, sds_len := _, sds_free := _\<rparr>"] nth_append)
qed

lemma sdscpylen_ok:
  assumes "sds_inv s"
  shows "sds_inv (sdscpylen s t) \<and> sds_str (sdscpylen s t) = t"
proof -
  define s1 where "s1 = (if sds_free s + sds_len s < length t then sdsMakeRoomFor s (length t - sds_len s) else s)"
  have i: "sds_inv s1" and room: "length t \<le> sds_free s1 + sds_len s1"
    using sdsMakeRoomFor_ok [OF assms, of "length t - sds_len s"] assms by (auto simp: s1_def)
  have l: "length (sds_buf s1) = sds_len s1 + sds_free s1 + 1" using i by (simp add: sds_inv_def)
  then have "(write_at 0 t (sds_buf s1))[length t := 0] = t @ 0 # drop (length t + 1) (sds_buf s1)"
    using room write_nul [of 0 t "sds_buf s1"] by simp
  then have "sdscpylen s t = s1\<lparr>sds_buf := t @ 0 # drop (length t + 1) (sds_buf s1), sds_len := length t,
      sds_free := sds_free s1 + sds_len s1 - length t\<rparr>"
    by (auto simp: sdscpylen_def Let_def s1_def)
  then show ?thesis using l room by (auto simp: sds_inv_def sds_str_def)
qed

lemma sdsgrowzero_ok:
  assumes "sds_inv s"
  shows "sds_inv (sdsgrowzero s n) \<and> sds_str (sdsgrowzero s n) = sds_str s @ replicate (n - sds_len s) 0"
proof (cases "n \<le> sds_len s")
  case True
  then show ?thesis using assms by (simp add: sdsgrowzero_def)
next
  case False
  let ?k = "n - sds_len s"
  let ?s = "sdsMakeRoomFor s ?k"
  note m = sdsMakeRoomFor_ok [OF assms, of ?k]
  have l: "length (sds_buf ?s) = sds_len s + sds_free ?s + 1" using m(1,3) by (simp add: sds_inv_def)
  have "write_at (sds_len s) (replicate (?k + 1) 0) (sds_buf ?s) =
      sds_str s @ replicate (?k + 1) 0 @ drop (sds_len s + ?k + 1) (sds_buf ?s)"
    using m(2,3) by (simp add: write_at_def sds_str_def)
  then show ?thesis
    using False l m(3,4) length_sds_str [OF assms]
    by (auto simp: sdsgrowzero_def Let_def sds_inv_def sds_str_def [of "_\<lparr>sds_buf := _, sds_len := _, sds_free := _\<rparr>"]
        nth_append replicate_append_same simp del: replicate_Suc)
qed

lemma shrink_ok:
  assumes "sds_inv s" and "n \<le> sds_len s" and "length b = length (sds_buf s)"
  shows "sds_inv (s\<lparr>sds_buf := b[n := 0], sds_free := sds_free s + (sds_len s - n), sds_len := n\<rparr>) \<and>
    sds_str (s\<lparr>sds_buf := b[n := 0], sds_free := sds_free s + (sds_len s - n), sds_len := n\<rparr>) = take n b"
  using assms by (auto simp: sds_inv_def sds_str_def)

lemma sdsclear_ok: "sds_inv s \<Longrightarrow> sds_inv (sdsclear s) \<and> sds_str (sdsclear s) = []"
  using shrink_ok [of s 0 "sds_buf s"] by (simp add: sdsclear_def)

lemma sdsRemoveFreeSpace_ok:
  "sds_inv s \<Longrightarrow> sds_inv (sdsRemoveFreeSpace s) \<and> sds_str (sdsRemoveFreeSpace s) = sds_str s \<and> sds_free (sdsRemoveFreeSpace s) = 0"
  by (simp add: sds_inv_def sds_str_def sdsRemoveFreeSpace_def zrealloc_def)

lemma sdsIncrLen_ok:
  assumes "sds_inv s" and "sdsIncrLen s incr = Some s'"
  shows "sds_inv s' \<and> int (sds_len s') = int (sds_len s) + incr \<and> sds_str s' = take (sds_len s') (sds_buf s)"
proof -
  have "nat incr \<le> sds_free s \<or> incr < 0" "nat (- incr) \<le> sds_len s"
    using assms(2) by (auto simp: sdsIncrLen_def split: if_splits)
  moreover have s': "s' = s\<lparr>sds_len := nat (int (sds_len s) + incr), sds_free := nat (int (sds_free s) - incr),
      sds_buf := (sds_buf s)[nat (int (sds_len s) + incr) := 0]\<rparr>"
    using assms(2) by (auto simp: sdsIncrLen_def Let_def split: if_splits)
  ultimately show ?thesis
    using assms(1) by (auto simp: sds_inv_def sds_str_def)
qed

interpretation sds: byte_string sds_inv sds_str "\<lambda>t. sdsnewlen (Some t) (length t)" sdscatlen
  by unfold_locales (simp_all add: sdsnewlen_ok sdscatlen_ok)

lemma take_memmove: "i + n \<le> length b \<Longrightarrow> take n (memmove_at 0 i n b) = take n (drop i b)"
  by (simp add: memmove_at_def write_at_def)

lemma length_memmove: "i + n \<le> length b \<Longrightarrow> length (memmove_at 0 i n b) = length b"
  by (simp add: memmove_at_def)

section \<open>Ranges\<close>

text \<open>What a pair of range indexes denotes: negative indexes count from the end, and both are clipped at 0.\<close>

definition range_of :: "int \<Rightarrow> int \<Rightarrow> 'a list \<Rightarrow> 'a list" where
  "range_of a b xs =
     (let n = int (length xs);
          norm = (\<lambda>i. nat (if i < 0 then max 0 (n + i) else i))
      in take (norm b + 1 - norm a) (drop (norm a) xs))"

lemma range_of_nonneg: "0 \<le> a \<Longrightarrow> 0 \<le> b \<Longrightarrow> range_of a b xs = take (nat b + 1 - nat a) (drop (nat a) xs)"
  by (simp add: range_of_def)



section \<open>Numbers\<close>

lemma swap_ends_nth:
  "p < length xs \<Longrightarrow> length (swap_ends s p xs) = length xs \<and>
     (\<forall>i < length xs. swap_ends s p xs ! i = (if s \<le> i \<and> i \<le> p then xs ! (s + p - i) else xs ! i))"
proof (induction s p xs rule: swap_ends.induct)
  case (1 s p xs)
  show ?case
  proof (cases "s < p")
    case True
    let ?ys = "xs[s := xs ! p, p := xs ! s]"
    have IH: "length (swap_ends (s + 1) (p - 1) ?ys) = length ?ys \<and>
      (\<forall>i < length ?ys. swap_ends (s + 1) (p - 1) ?ys ! i =
         (if s + 1 \<le> i \<and> i \<le> p - 1 then ?ys ! (s + 1 + (p - 1) - i) else ?ys ! i))"
      using True "1.prems" by (intro "1.IH") simp_all
    have eq: "swap_ends s p xs = swap_ends (s + 1) (p - 1) ?ys"
      using True by (subst swap_ends.simps) simp
    show ?thesis
      unfolding eq using IH True "1.prems" by (auto simp: nth_list_update)
  next
    case False
    then have "xs ! i = xs ! (s + p - i)" if "s \<le> i" "i \<le> p" for i
    proof -
      have "i = p" "s = p" using that False by linarith+
      then show ?thesis by simp
    qed
    then show ?thesis using False by (subst (1 2) swap_ends.simps) simp
  qed
qed

lemma swap_ends_rev: "swap_ends 0 (length xs - 1) xs = rev xs"
proof (cases "xs = []")
  case True
  then show ?thesis by (subst swap_ends.simps) simp
next
  case False
  then have "length xs - 1 < length xs" by simp
  from swap_ends_nth [OF this, of 0] show ?thesis
    by (auto intro!: nth_equalityI simp: rev_nth)
qed

lemma ll2str_digits_rev: "ll2str_digits v = rev (dec_nat (unat v))"
proof (induction v rule: ll2str_digits.induct)
  case (1 v)
  have m: "ucast (v mod 10) = (of_nat (unat v mod 10) :: u8)"
  proof -
    have "ucast (v mod 10) = (of_nat (unat (v mod 10)) :: u8)" by (rule of_nat_unat [symmetric])
    also have "unat (v mod 10) = unat v mod 10" by (simp add: unat_mod)
    finally show ?thesis .
  qed
  show ?case
  proof (cases "v div 10 = 0")
    case True
    then have "unat (v div 10) = 0" by simp
    then have "unat v < 10" by (simp add: unat_div)
    then show ?thesis using True m by (subst ll2str_digits.simps) (simp add: dec_nat_small)
  next
    case False
    then have "unat (v div 10) \<noteq> 0" by (simp add: unat_eq_0)
    then have "10 \<le> unat v" by (simp add: unat_div)
    then show ?thesis
      using "1.IH" [OF False] False m dec_nat_big [of "unat v"] by (subst ll2str_digits.simps) (simp add: unat_div)
  qed
qed

lemma sdsll2str_text: "sdsll2str v = dec_int (sint v)"
proof -
  have "unat (if sint v < 0 then - v else v) = nat \<bar>sint v\<bar>"
  proof -
    have "(if v \<noteq> LLONG_MIN then - v else LLONG_MAX + 1) = - v" by (simp add: LLONG_unat(3))
    from ll_abs [of v, unfolded this] show ?thesis .
  qed
  then show ?thesis
    unfolding sdsll2str_def Let_def swap_ends_rev ll2str_digits_rev by (simp add: dec_int_abs)
qed

text \<open>
  The two independent integer printers agree: the string \<^verbatim>\<open>sdsfromlonglong\<close> builds by
  reversing in place is the one \<^verbatim>\<open>ll2string\<close> writes with its table of digit pairs.
\<close>

theorem sdsfromlonglong_correct:
  "sds_inv (sdsfromlonglong v) \<and> sds_str (sdsfromlonglong v) = dec_int (sint v) \<and>
   (case ll2string (replicate 32 0) v of (buf, len) \<Rightarrow> sds_str (sdsfromlonglong v) = take len buf)"
proof -
  have "length (dec_int (sint v)) \<le> 21"
  proof -
    have "length (dec_int (sint v)) \<le> 1 + length (dec_nat (nat \<bar>sint v\<bar>))" by (simp add: dec_int_abs)
    also have "length (dec_nat (nat \<bar>sint v\<bar>)) \<le> 20"
      using length_dec_nat_u64 [of "if sint v < 0 then (if v \<noteq> LLONG_MIN then - v else LLONG_MAX + 1) else v"]
      by (simp only: ll_abs)
    finally show ?thesis by simp
  qed
  moreover have "sds_inv (sdsfromlonglong v) \<and> sds_str (sdsfromlonglong v) = dec_int (sint v)"
    unfolding sdsfromlonglong_def Let_def sdsll2str_text using sds.make_law by blast
  ultimately show ?thesis by (simp add: ll2string_text)
qed

section \<open>Trimming\<close>

definition strip :: "('a \<Rightarrow> bool) \<Rightarrow> 'a list \<Rightarrow> 'a list" where
  "strip P xs = rev (dropWhile P (rev (dropWhile P xs)))"

lemma dropWhile_nth_drop:
  "(\<forall>i < a. P (xs ! i)) \<Longrightarrow> a < length xs \<Longrightarrow> \<not> P (xs ! a) \<Longrightarrow> dropWhile P xs = drop a xs"
proof (induction xs arbitrary: a)
  case (Cons x xs)
  show ?case
  proof (cases a)
    case (Suc b)
    have "P x" using Cons.prems(1) Suc by auto
    moreover have "\<forall>i < b. P (xs ! i)" using Cons.prems(1) Suc by auto
    ultimately show ?thesis using Cons.IH [of b] Cons.prems Suc by simp
  qed (use Cons.prems in simp)
qed simp

lemma strip_eq:
  assumes "\<forall>i < a. P (xs ! i)" and "a \<le> b" and "b < length xs" and "\<not> P (xs ! a)" and "\<not> P (xs ! b)"
    and "\<forall>i < length xs. b < i \<longrightarrow> P (xs ! i)"
  shows "strip P xs = take (b + 1 - a) (drop a xs)"
proof -
  have d: "dropWhile P xs = drop a xs"
    using assms by (intro dropWhile_nth_drop) auto
  let ?ys = "drop a xs"
  have "\<forall>i < length ?ys - (b + 1 - a). P (rev ?ys ! i)"
    using assms(2,3,6) by (auto simp: rev_nth)
  moreover have "\<not> P (rev ?ys ! (length ?ys - (b + 1 - a)))"
    using assms(2,3,5) by (simp add: rev_nth Suc_diff_le)
  ultimately have "dropWhile P (rev ?ys) = drop (length ?ys - (b + 1 - a)) (rev ?ys)"
    using assms(2,3) by (intro dropWhile_nth_drop) auto
  then show ?thesis using assms(2,3) by (simp add: strip_def d drop_rev)
qed

lemma strip_all: "\<forall>x \<in> set xs. P x \<Longrightarrow> strip P xs = []"
proof -
  assume "\<forall>x \<in> set xs. P x"
  then have "dropWhile P xs = []" by (simp add: dropWhile_eq_Nil_conv)
  then show ?thesis by (simp only: strip_def) simp
qed

lemma trim_front_takeWhile:
  "trim_front cset e sp buf = sp + length (takeWhile (in_cset cset) (take (nat (e + 1 - int sp)) buf))"
proof (induction cset e sp buf rule: trim_front.induct)
  case (2 cset e sp c buf)
  show ?case
  proof (cases "int sp \<le> e \<and> in_cset cset c")
    case True
    then have "nat (e + 1 - int sp) = Suc (nat (e + 1 - int (sp + 1)))" by (simp add: Suc_nat_eq_nat_zadd1 algebra_simps)
    then show ?thesis using "2.IH" [OF True] True by (simp only: take_Suc_Cons) simp
  next
    case False
    then show ?thesis by (cases "nat (e + 1 - int sp)") auto
  qed
qed simp

lemma trim_front_spec:
  assumes "trim_front cset (int n - 1) 0 buf = sp" and "n \<le> length buf"
  shows "sp \<le> n" "\<forall>i < sp. in_cset cset (buf ! i)" "sp < n \<Longrightarrow> \<not> in_cset cset (buf ! sp)"
proof -
  let ?t = "take n buf"
  have sp: "sp = length (takeWhile (in_cset cset) ?t)"
    using trim_front_takeWhile [of cset "int n - 1" 0 buf] assms(1) by simp
  have le: "length (takeWhile (in_cset cset) ?t) \<le> length ?t" by (rule length_takeWhile_le)
  show n: "sp \<le> n" using sp le by simp
  show "\<forall>i < sp. in_cset cset (buf ! i)"
  proof (intro allI impI)
    fix i assume "i < sp"
    then have i: "i < length (takeWhile (in_cset cset) ?t)" using sp by simp
    from nth_mem [OF i] have "in_cset cset (?t ! i)"
      unfolding takeWhile_nth [OF i] by (rule set_takeWhileD [THEN conjunct2])
    then show "in_cset cset (buf ! i)" using n \<open>i < sp\<close> by simp
  qed
  show "\<not> in_cset cset (buf ! sp)" if "sp < n"
    using nth_length_takeWhile [of "in_cset cset" ?t] that sp assms(2) by simp
qed

lemma trim_back_spec:
  "trim_back cset ep buf = ep' \<Longrightarrow> ep' \<le> ep \<and> (0 \<le> ep \<longrightarrow> 0 \<le> ep') \<and>
     (\<forall>i. ep' < int i \<longrightarrow> int i \<le> ep \<longrightarrow> in_cset cset (buf ! i)) \<and> (0 < ep' \<longrightarrow> \<not> in_cset cset (buf ! nat ep'))"
proof (induction cset ep buf rule: trim_back.induct)
  case (1 cset ep buf)
  show ?case
  proof (cases "0 < ep \<and> in_cset cset (buf ! nat ep)")
    case True
    then have "trim_back cset (ep - 1) buf = ep'" using "1.prems" by (subst (asm) trim_back.simps) simp
    from "1.IH" [OF True this] have IH: "ep' \<le> ep - 1" "0 \<le> ep'" "0 < ep' \<longrightarrow> \<not> in_cset cset (buf ! nat ep')"
      "\<forall>i. ep' < int i \<longrightarrow> int i \<le> ep - 1 \<longrightarrow> in_cset cset (buf ! i)" using True by auto
    have "in_cset cset (buf ! i)" if "ep' < int i" "int i \<le> ep" for i
    proof (cases "int i = ep")
      case e: True
      then have "nat ep = i" by simp
      then show ?thesis using True by simp
    next
      case False
      then show ?thesis using IH(4) that by simp
    qed
    then show ?thesis using IH by auto
  next
    case False
    then have "ep' = ep" using "1.prems" by (subst (asm) trim_back.simps) auto
    then show ?thesis using False by auto
  qed
qed

text \<open>
  \<^verbatim>\<open>sdstrim\<close> keeps the string well-formed and removes from both ends exactly the longest
  runs of bytes that are in the set or are NUL (which \<^verbatim>\<open>strchr\<close> finds as the set's terminator).
\<close>

theorem sdstrim_correct:
  assumes inv: "sds_inv s"
  shows "sds_inv (sdstrim s cset) \<and> sds_str (sdstrim s cset) = strip (in_cset cset) (sds_str s)"
proof -
  let ?P = "in_cset cset" and ?b = "sds_buf s" and ?n = "sds_len s"
  define sp where "sp = trim_front cset (int ?n - 1) 0 ?b"
  define ep where "ep = trim_back cset (int ?n - 1) ?b"
  define k where "k = (if ep < int sp then 0 else nat (ep - int sp + 1))"
  define buf where "buf = (if sp \<noteq> 0 then memmove_at 0 sp k ?b else ?b)"
  have l: "length ?b = ?n + sds_free s + 1" using inv by (simp add: sds_inv_def)
  have F: "\<forall>i < sp. ?P (?b ! i)" "sp < ?n \<Longrightarrow> \<not> ?P (?b ! sp)" and sp: "sp \<le> ?n"
    using trim_front_spec [OF sp_def [symmetric]] l by auto
  have B: "ep \<le> int ?n - 1" "0 < ?n \<Longrightarrow> 0 \<le> ep" "\<forall>i. ep < int i \<longrightarrow> int i \<le> int ?n - 1 \<longrightarrow> ?P (?b ! i)"
    "0 < ep \<Longrightarrow> \<not> ?P (?b ! nat ep)"
    using trim_back_spec [OF ep_def [symmetric]] by auto
  have kn: "k \<le> ?n" "sp + k \<le> ?n \<or> k = 0" using B(1) by (auto simp: k_def)
  have lb: "length buf = length ?b" and tb: "take k buf = take k (drop sp ?b)"
    using kn l sp by (auto simp: buf_def length_memmove take_memmove)
  have run: "sdstrim s cset = s\<lparr>sds_buf := buf[k := 0], sds_free := sds_free s + (?n - k), sds_len := k\<rparr>"
    by (simp add: sdstrim_def Let_def sp_def ep_def k_def buf_def)
  have nth: "sds_str s ! i = ?b ! i" if "i < ?n" for i using that by (simp add: sds_str_def)
  have "take k (drop sp ?b) = strip ?P (sds_str s)"
  proof (cases "sp < ?n")
    case False
    then have "sp = ?n" using sp by simp
    then have "\<forall>x \<in> set (sds_str s). ?P x"
      using F(1) length_sds_str [OF inv] nth by (auto simp: in_set_conv_nth)
    moreover have "k = 0" using \<open>sp = ?n\<close> B(1) by (simp add: k_def)
    ultimately show ?thesis by (simp add: strip_all)
  next
    case True
    have ns: "\<not> ?P (?b ! sp)" using F(2) True by simp
    have "int sp \<le> ep"
    proof (rule ccontr)
      assume "\<not> ?thesis"
      then have "?P (?b ! sp)" using B(3) True by auto
      then show False using ns by simp
    qed
    have ep0: "0 \<le> ep" using B(2) True by auto
    have "\<not> ?P (?b ! nat ep)"
    proof (cases "ep = 0")
      case e: True
      then have "sp = 0" using \<open>int sp \<le> ep\<close> by simp
      then show ?thesis using ns e by simp
    qed (use B(4) ep0 in auto)
    then have "strip ?P (sds_str s) = take (nat ep + 1 - sp) (drop sp (sds_str s))"
      using F(1) B(1,3) True ns \<open>int sp \<le> ep\<close> ep0 nth length_sds_str [OF inv]
      by (intro strip_eq) auto
    also have "\<dots> = take (nat ep + 1 - sp) (drop sp ?b)"
      using B(1) ep0 by (simp add: sds_str_def drop_take)
    also have "nat ep + 1 - sp = k" using \<open>int sp \<le> ep\<close> ep0 by (simp add: k_def nat_diff_distrib' nat_add_distrib)
    finally show ?thesis by simp
  qed
  then show ?thesis using shrink_ok [OF inv kn(1) lb] tb by (simp add: run)
qed

theorem sdstrim_correct_witness:
  "sds_str (sdstrim (sdsnewlen (Some [32, 97, 32, 98, 32]) 5) [32]) = [97, 32, 98]"
  using sdstrim_correct [of "sdsnewlen (Some [32, 97, 32, 98, 32]) 5" "[32]"] sdsnewlen_ok(1) [of 5 "[32, 97, 32, 98, 32]"]
  by (simp add: strip_def in_cset_def c_str_def)

end
