(* ===== verification/Server.thy ===== *)
theory Server
  imports Dict_Types Intset "HOL-Library.Monad_Syntax"
begin

text \<open>
  The server state of \<^verbatim>\<open>redis.h\<close> that the command layer works on: objects, commands, clients,
  databases and the server itself.

  A handler takes the server (and the client it serves) and returns the new server; \<open>None\<close>
  is a failed \<^verbatim>\<open>redisAssert\<close> or an aborting allocation.  The dictionaries of a database are
  maps over key texts, which is what the dictionary of \<^verbatim>\<open>dict.c\<close> refines for the types
  \<^verbatim>\<open>dbDictType\<close> and \<^verbatim>\<open>keyptrDictType\<close>.  Clients and databases are addressed by number.
  Objects are values: sharing and reference counts are not represented.
\<close>

section \<open>Text literals\<close>

definition str :: "string \<Rightarrow> bytes" where
  "str t = map of_char t"

lemma str_simps [simp]: "str [] = []" "str (c # t) = of_char c # str t" "length (str t) = length t"
  by (simp_all add: str_def)

definition crlf :: bytes where "crlf = [13, 10]"

section \<open>Objects\<close>

text \<open>
  A set object is an integer set or a dictionary of string objects.  Lists, hashes and sorted
  sets only occur as values that key-space commands move around: their elements.
\<close>

datatype setobj = SetIntset intset | SetHT "(strobj, unit) dict"

datatype robj =
    StringObj strobj
  | SetObj setobj
  | ListObj "bytes list"
  | HashObj "(bytes \<times> bytes) list"
  | ZsetObj "(bytes \<times> u64) list"

datatype objtype = REDIS_STRING | REDIS_LIST | REDIS_SET | REDIS_ZSET | REDIS_HASH

fun otype :: "robj \<Rightarrow> objtype" where
  "otype (StringObj _) = REDIS_STRING"
| "otype (SetObj _) = REDIS_SET"
| "otype (ListObj _) = REDIS_LIST"
| "otype (HashObj _) = REDIS_HASH"
| "otype (ZsetObj _) = REDIS_ZSET"

section \<open>Commands\<close>

datatype cmdflag =
    REDIS_CMD_WRITE | REDIS_CMD_READONLY | REDIS_CMD_DENYOOM | REDIS_CMD_ADMIN | REDIS_CMD_PUBSUB
  | REDIS_CMD_NOSCRIPT | REDIS_CMD_RANDOM | REDIS_CMD_SORT_FOR_SCRIPT | REDIS_CMD_LOADING
  | REDIS_CMD_STALE | REDIS_CMD_SKIP_MONITOR | REDIS_CMD_FAST

text \<open>The implementing function and the key extraction function are named by their C names.\<close>

record redisCommand =
  cmd_name :: string
  cmd_proc :: string
  cmd_arity :: int
  cmd_sflags :: string
  cmd_flags :: "cmdflag set"
  cmd_getkeys :: "string option"
  cmd_firstkey :: int
  cmd_lastkey :: int
  cmd_keystep :: int

section \<open>Clients, databases and the server\<close>

text \<open>
  Of the replication state \<^verbatim>\<open>replstate\<close> only whether it is none or online is kept;
  \<open>c_event_ok\<close> is the answer of \<^verbatim>\<open>aeCreateFileEvent\<close> when the write handler is
  installed.  An entry \<open>None\<close> of the reply list is a multi-bulk length still to be filled in.
\<close>

datatype clientflag =
    REDIS_SLAVE | REDIS_MASTER | REDIS_MULTI | REDIS_DIRTY_CAS | REDIS_CLOSE_AFTER_REPLY
  | REDIS_DIRTY_EXEC | REDIS_MASTER_FORCE_REPLY | REDIS_FORCE_AOF | REDIS_FORCE_REPL
  | REDIS_PUBSUB | REDIS_LUA_CLIENT

record client =
  c_db :: nat
  c_argv :: "strobj list"
  c_cmd :: redisCommand
  c_flags :: "clientflag set"
  c_authenticated :: bool
  c_mstate :: "(strobj list \<times> redisCommand) list"
  c_watched :: "(bytes \<times> nat) list"
  c_fd :: int
  c_repl_online :: bool
  c_event_ok :: bool
  c_buf :: bytes
  c_reply :: "bytes option list"

record redisDb =
  db_dict :: "bytes \<rightharpoonup> robj"
  db_expires :: "bytes \<rightharpoonup> int"
  db_watched :: "bytes \<rightharpoonup> nat list"

datatype notifyclass =
    REDIS_NOTIFY_KEYSPACE | REDIS_NOTIFY_KEYEVENT | REDIS_NOTIFY_GENERIC | REDIS_NOTIFY_STRING
  | REDIS_NOTIFY_LIST | REDIS_NOTIFY_SET | REDIS_NOTIFY_HASH | REDIS_NOTIFY_ZSET
  | REDIS_NOTIFY_EXPIRED | REDIS_NOTIFY_EVICTED

text \<open>
  The clock is the sequence of microsecond readings the server will make; \<open>ticks\<close> counts
  those made so far.  \<open>aof_log\<close>, \<open>repl_log\<close>, \<open>monitor_log\<close> and \<open>published\<close>
  are the calls made so far of \<^verbatim>\<open>feedAppendOnlyFile\<close>, \<^verbatim>\<open>replicationFeedSlaves\<close>,
  \<^verbatim>\<open>replicationFeedMonitors\<close> and \<^verbatim>\<open>pubsubPublishMessage\<close>.
\<close>

record server =
  sv_db :: "nat \<Rightarrow> redisDb"
  sv_dbnum :: nat
  sv_client :: "nat \<Rightarrow> client"
  sv_clients :: "nat list"
  commands :: "bytes \<rightharpoonup> redisCommand"
  orig_commands :: "bytes \<rightharpoonup> redisCommand"
  dirty :: int
  clock :: "nat \<Rightarrow> int"
  ticks :: nat
  loading :: bool
  masterhost :: bool
  lua_start :: "int option"
  aof_on :: bool
  monitors :: bool
  requirepass :: "bytes option"
  maxmemory :: nat
  set_max_intset_entries :: nat
  hash_seed :: u32
  can_resize :: bool
  notify_flags :: "notifyclass set"
  aof_log :: "(nat \<times> bytes list) list"
  repl_log :: "(nat \<times> bytes list) list"
  monitor_log :: "(nat \<times> bytes list) list"
  published :: "(bytes \<times> bytes) list"
  stat_expiredkeys :: nat
  stat_keyspace_hits :: nat
  stat_keyspace_misses :: nat
  stat_numcommands :: nat
  stop_writes_on_bgsave_err :: bool
  saveparamslen :: nat
  lastbgsave_ok :: bool
  aof_last_write_ok :: bool
  aof_last_write_strerror :: bytes
  repl_min_slaves_to_write :: nat
  repl_min_slaves_max_lag :: nat
  repl_good_slaves_count :: nat
  repl_slave_ro :: bool
  repl_connected :: bool
  repl_serve_stale_data :: bool
  lua_timedout :: bool

definition upd_db :: "nat \<Rightarrow> (redisDb \<Rightarrow> redisDb) \<Rightarrow> server \<Rightarrow> server" where
  "upd_db d f s = s\<lparr>sv_db := (sv_db s)(d := f (sv_db s d))\<rparr>"

definition upd_client :: "nat \<Rightarrow> (client \<Rightarrow> client) \<Rightarrow> server \<Rightarrow> server" where
  "upd_client c f s = s\<lparr>sv_client := (sv_client s)(c := f (sv_client s c))\<rparr>"

definition argc :: "server \<Rightarrow> nat \<Rightarrow> nat" where
  "argc s c = length (c_argv (sv_client s c))"

definition argv :: "server \<Rightarrow> nat \<Rightarrow> nat \<Rightarrow> strobj" where
  "argv s c j = c_argv (sv_client s c) ! j"

definition arg :: "server \<Rightarrow> nat \<Rightarrow> nat \<Rightarrow> bytes" where
  "arg s c j = getDecodedObject (argv s c j)"

definition set_argv :: "nat \<Rightarrow> nat \<Rightarrow> strobj \<Rightarrow> server \<Rightarrow> server" where
  "set_argv c j v = upd_client c (c_argv_update (\<lambda>av. av[j := v]))"

definition client_db :: "server \<Rightarrow> nat \<Rightarrow> nat" where
  "client_db s c = c_db (sv_client s c)"

definition add_dirty :: "int \<Rightarrow> server \<Rightarrow> server" where
  "add_dirty n s = s\<lparr>dirty := dirty s + n\<rparr>"

text \<open>Signed 64-bit arithmetic: the value a \<^verbatim>\<open>long long\<close> holds after wrapping around.\<close>

definition llong :: "int \<Rightarrow> int" where
  "llong i = sint (word_of_int i :: u64)"

lemma llong_id: "- (2 ^ 63) \<le> i \<Longrightarrow> i < 2 ^ 63 \<Longrightarrow> llong i = i"
  by (simp add: llong_def signed_of_int signed_take_bit_int_eq_self)

text \<open>A value converted to \<^verbatim>\<open>int\<close>, of 32 bits.\<close>

definition c_int :: "int \<Rightarrow> int" where
  "c_int i = sint (word_of_int i :: u32)"

text \<open>\<^verbatim>\<open>ustime\<close> and \<^verbatim>\<open>mstime\<close>: each call is a new reading.\<close>

definition ustime :: "server \<Rightarrow> int \<times> server" where
  "ustime s = (clock s (ticks s), s\<lparr>ticks := Suc (ticks s)\<rparr>)"

definition mstime :: "server \<Rightarrow> int \<times> server" where
  "mstime s = (let (us, s) = ustime s in (us div 1000, s))"

end
