(* ===== verification/Reply.thy ===== *)
theory Reply
  imports Server "HOL-Library.Signed_Division"
begin

text \<open>
  The output buffers of a client and the reply functions of \<^verbatim>\<open>networking.c\<close>.  Output goes to
  the static buffer while it fits and the reply list is empty, and is glued to the last node of the
  list or put in a new one afterwards.  What the client will read is the concatenation of both;
  the lemmas show that every reply function appends its text to it.  Not modelled: closing clients
  whose output exceeds a limit.
\<close>

section \<open>Low-level functions\<close>

definition REDIS_REPLY_CHUNK_BYTES :: nat where "REDIS_REPLY_CHUNK_BYTES = 16 * 1024"

definition prepareClientToWrite :: "client \<Rightarrow> bool" where
  "prepareClientToWrite c =
     (if REDIS_LUA_CLIENT \<in> c_flags c then True
      else if REDIS_MASTER \<in> c_flags c \<and> REDIS_MASTER_FORCE_REPLY \<notin> c_flags c then False
      else if c_fd c \<le> 0 then False
      else if c_buf c = [] \<and> c_reply c = [] \<and> c_repl_online c \<and> \<not> c_event_ok c then False
      else True)"

text \<open>\<open>None\<close> is \<^verbatim>\<open>REDIS_ERR\<close>: the text does not fit the static buffer.\<close>

definition addReplyToBuffer :: "bytes \<Rightarrow> client \<Rightarrow> client option" where
  "addReplyToBuffer t c =
     (let available = REDIS_REPLY_CHUNK_BYTES - length (c_buf c)
      in if REDIS_CLOSE_AFTER_REPLY \<in> c_flags c then Some c
         else if 0 < length (c_reply c) then None
         else if available < length t then None
         else Some (c\<lparr>c_buf := c_buf c @ t\<rparr>))"

definition addReplyStringToList :: "bytes \<Rightarrow> client \<Rightarrow> client" where
  "addReplyStringToList t c =
     (if REDIS_CLOSE_AFTER_REPLY \<in> c_flags c then c
      else if length (c_reply c) = 0 then c\<lparr>c_reply := [Some t]\<rparr>
      else
        case last (c_reply c) of
          Some tail \<Rightarrow>
            if length tail + length t \<le> REDIS_REPLY_CHUNK_BYTES
            then c\<lparr>c_reply := butlast (c_reply c) @ [Some (tail @ t)]\<rparr>
            else c\<lparr>c_reply := c_reply c @ [Some t]\<rparr>
        | None \<Rightarrow> c\<lparr>c_reply := c_reply c @ [Some t]\<rparr>)"

text \<open>\<^verbatim>\<open>_addReplySdsToList\<close> does the same with a string it owns.\<close>

definition addReplySdsToList :: "bytes \<Rightarrow> client \<Rightarrow> client" where
  "addReplySdsToList t c =
     (if REDIS_CLOSE_AFTER_REPLY \<in> c_flags c then c
      else if length (c_reply c) = 0 then c\<lparr>c_reply := [Some t]\<rparr>
      else
        case last (c_reply c) of
          Some tail \<Rightarrow>
            if length tail + length t \<le> REDIS_REPLY_CHUNK_BYTES
            then c\<lparr>c_reply := butlast (c_reply c) @ [Some (tail @ t)]\<rparr>
            else c\<lparr>c_reply := c_reply c @ [Some t]\<rparr>
        | None \<Rightarrow> c\<lparr>c_reply := c_reply c @ [Some t]\<rparr>)"

definition addReplyObjectToList :: "bytes \<Rightarrow> client \<Rightarrow> client" where
  "addReplyObjectToList ob c =
     (if REDIS_CLOSE_AFTER_REPLY \<in> c_flags c then c
      else if length (c_reply c) = 0 then c\<lparr>c_reply := c_reply c @ [Some ob]\<rparr>
      else
        case last (c_reply c) of
          Some tail \<Rightarrow>
            if length tail + length ob \<le> REDIS_REPLY_CHUNK_BYTES
            then c\<lparr>c_reply := (c_reply c)[length (c_reply c) - 1 := Some (tail @ ob)]\<rparr>
            else c\<lparr>c_reply := c_reply c @ [Some ob]\<rparr>
        | None \<Rightarrow> c\<lparr>c_reply := c_reply c @ [Some ob]\<rparr>)"

section \<open>Adding replies\<close>

definition client_addReplyString :: "bytes \<Rightarrow> client \<Rightarrow> client" where
  "client_addReplyString t c =
     (if \<not> prepareClientToWrite c then c
      else case addReplyToBuffer t c of Some c' \<Rightarrow> c' | None \<Rightarrow> addReplyStringToList t c)"

definition client_addReply :: "strobj \<Rightarrow> client \<Rightarrow> client" where
  "client_addReply ob c =
     (if \<not> prepareClientToWrite c then c
      else
        case ob of
          ObjRaw t \<Rightarrow>
            (case addReplyToBuffer t c of Some c' \<Rightarrow> c' | None \<Rightarrow> addReplyObjectToList t c)
        | ObjInt n \<Rightarrow>
            let direct =
              (if length (c_reply c) = 0 \<and> 32 \<le> REDIS_REPLY_CHUNK_BYTES - length (c_buf c)
               then case ll2string (replicate 32 0) n of (buf, len) \<Rightarrow> addReplyToBuffer (take len buf) c
               else None)
            in case direct of
                 Some c' \<Rightarrow> c'
               | None \<Rightarrow>
                   let t = getDecodedObject ob
                   in case addReplyToBuffer t c of Some c' \<Rightarrow> c' | None \<Rightarrow> addReplyObjectToList t c)"

definition addReplyString :: "nat \<Rightarrow> bytes \<Rightarrow> server \<Rightarrow> server" where
  "addReplyString c t = upd_client c (client_addReplyString t)"

definition addReply :: "nat \<Rightarrow> strobj \<Rightarrow> server \<Rightarrow> server" where
  "addReply c ob = upd_client c (client_addReply ob)"

definition addReplySds :: "nat \<Rightarrow> bytes \<Rightarrow> server \<Rightarrow> server" where
  "addReplySds c t = upd_client c (\<lambda>cl.
     if \<not> prepareClientToWrite cl then cl
     else case addReplyToBuffer t cl of Some cl' \<Rightarrow> cl' | None \<Rightarrow> addReplySdsToList t cl)"

definition addReplyErrorLength :: "nat \<Rightarrow> bytes \<Rightarrow> server \<Rightarrow> server" where
  "addReplyErrorLength c t s =
     (let s = addReplyString c (str ''-ERR '') s;
          s = addReplyString c t s
      in addReplyString c crlf s)"

definition addReplyError :: "nat \<Rightarrow> string \<Rightarrow> server \<Rightarrow> server" where
  "addReplyError c err = addReplyErrorLength c (str err)"

text \<open>The text is the formatted one; line breaks in it become spaces.\<close>

definition addReplyErrorFormat :: "nat \<Rightarrow> bytes \<Rightarrow> server \<Rightarrow> server" where
  "addReplyErrorFormat c t = addReplyErrorLength c (map (\<lambda>b. if b = 13 \<or> b = 10 then 32 else b) t)"

definition addReplyStatusLength :: "nat \<Rightarrow> bytes \<Rightarrow> server \<Rightarrow> server" where
  "addReplyStatusLength c t s =
     (let s = addReplyString c (str ''+'') s;
          s = addReplyString c t s
      in addReplyString c crlf s)"

definition addReplyStatus :: "nat \<Rightarrow> string \<Rightarrow> server \<Rightarrow> server" where
  "addReplyStatus c t = addReplyStatusLength c (str t)"

section \<open>Shared objects\<close>

definition shared_crlf :: strobj where "shared_crlf = ObjRaw crlf"
definition shared_ok :: strobj where "shared_ok = ObjRaw (str ''+OK'' @ crlf)"
definition shared_emptybulk :: strobj where "shared_emptybulk = ObjRaw (str ''$0'' @ crlf @ crlf)"
definition shared_czero :: strobj where "shared_czero = ObjRaw (str '':0'' @ crlf)"
definition shared_cone :: strobj where "shared_cone = ObjRaw (str '':1'' @ crlf)"
definition shared_nullbulk :: strobj where "shared_nullbulk = ObjRaw (str ''$-1'' @ crlf)"
definition shared_nullmultibulk :: strobj where "shared_nullmultibulk = ObjRaw (str ''*-1'' @ crlf)"
definition shared_emptymultibulk :: strobj where "shared_emptymultibulk = ObjRaw (str ''*0'' @ crlf)"
definition shared_pong :: strobj where "shared_pong = ObjRaw (str ''+PONG'' @ crlf)"
definition shared_queued :: strobj where "shared_queued = ObjRaw (str ''+QUEUED'' @ crlf)"
definition shared_wrongtypeerr :: strobj where
  "shared_wrongtypeerr = ObjRaw (str ''-WRONGTYPE Operation against a key holding the wrong kind of value'' @ crlf)"
definition shared_nokeyerr :: strobj where "shared_nokeyerr = ObjRaw (str ''-ERR no such key'' @ crlf)"
definition shared_syntaxerr :: strobj where "shared_syntaxerr = ObjRaw (str ''-ERR syntax error'' @ crlf)"
definition shared_sameobjecterr :: strobj where
  "shared_sameobjecterr = ObjRaw (str ''-ERR source and destination objects are the same'' @ crlf)"
definition shared_outofrangeerr :: strobj where "shared_outofrangeerr = ObjRaw (str ''-ERR index out of range'' @ crlf)"
definition shared_loadingerr :: strobj where
  "shared_loadingerr = ObjRaw (str ''-LOADING Redis is loading the dataset in memory'' @ crlf)"
definition shared_noautherr :: strobj where "shared_noautherr = ObjRaw (str ''-NOAUTH Authentication required.'' @ crlf)"
definition shared_roslaveerr :: strobj where
  "shared_roslaveerr = ObjRaw (str ''-READONLY You can'' @ [39] @ str ''t write against a read only slave.'' @ crlf)"
definition shared_masterdownerr :: strobj where
  "shared_masterdownerr = ObjRaw (str ''-MASTERDOWN Link with MASTER is down and slave-serve-stale-data is set to '' @ [39] @ str ''no'' @ [39] @ str ''.'' @ crlf)"
definition shared_execaborterr :: strobj where
  "shared_execaborterr = ObjRaw (str ''-EXECABORT Transaction discarded because of previous errors.'' @ crlf)"
definition shared_noreplicaserr :: strobj where
  "shared_noreplicaserr = ObjRaw (str ''-NOREPLICAS Not enough good slaves to write.'' @ crlf)"
definition shared_slowscripterr :: strobj where
  "shared_slowscripterr = ObjRaw (str ''-BUSY Redis is busy running a script. You can only call SCRIPT KILL or SHUTDOWN NOSAVE.'' @ crlf)"
definition shared_bgsaveerr :: strobj where
  "shared_bgsaveerr = ObjRaw (str ''-MISCONF Redis is configured to save RDB snapshots, but is currently not able to persist on disk. Commands that may modify the data set are disabled. Please check Redis logs for details about the error.'' @ crlf)"
definition shared_colon :: strobj where "shared_colon = ObjRaw (str '':'')"

definition REDIS_SHARED_BULKHDR_LEN :: int where "REDIS_SHARED_BULKHDR_LEN = 32"

text \<open>The shared headers \<^verbatim>\<open>*<j><crlf>\<close> and \<^verbatim>\<open>$<j><crlf>\<close>, printed with \<^verbatim>\<open>%d\<close>.\<close>

definition shared_mbulkhdr :: "int \<Rightarrow> strobj" where "shared_mbulkhdr j = ObjRaw (str ''*'' @ dec_int j @ crlf)"
definition shared_bulkhdr :: "int \<Rightarrow> strobj" where "shared_bulkhdr j = ObjRaw (str ''$'' @ dec_int j @ crlf)"

section \<open>Numbers and bulks\<close>

definition addReplyLongLongWithPrefix :: "nat \<Rightarrow> int \<Rightarrow> char \<Rightarrow> server \<Rightarrow> server" where
  "addReplyLongLongWithPrefix c ll prefix s =
     (if prefix = CHR ''*'' \<and> ll < REDIS_SHARED_BULKHDR_LEN then addReply c (shared_mbulkhdr ll) s
      else if prefix = CHR ''$'' \<and> ll < REDIS_SHARED_BULKHDR_LEN then addReply c (shared_bulkhdr ll) s
      else
        case ll2string (replicate 127 0) (word_of_int ll) of
          (buf, len) \<Rightarrow> addReplyString c (of_char prefix # take len buf @ crlf) s)"

definition addReplyLongLong :: "nat \<Rightarrow> int \<Rightarrow> server \<Rightarrow> server" where
  "addReplyLongLong c ll =
     (if ll = 0 then addReply c shared_czero
      else if ll = 1 then addReply c shared_cone
      else addReplyLongLongWithPrefix c ll CHR '':'')"

definition addReplyMultiBulkLen :: "nat \<Rightarrow> int \<Rightarrow> server \<Rightarrow> server" where
  "addReplyMultiBulkLen c n =
     (if n < REDIS_SHARED_BULKHDR_LEN then addReply c (shared_mbulkhdr n)
      else addReplyLongLongWithPrefix c n CHR ''*'')"

text \<open>The loop of \<^verbatim>\<open>addReplyBulkLen\<close> that counts the digits of \<^verbatim>\<open>n\<close>; division truncates.\<close>

function bulk_digits :: "int \<Rightarrow> nat \<Rightarrow> nat" where
  "bulk_digits n len = (let n = n sdiv 10 in if n \<noteq> 0 then bulk_digits n (len + 1) else len)"
  by auto

termination
proof (relation "measure (\<lambda>(n, _). nat \<bar>n\<bar>)")
  fix n :: int and len x
  assume "x = n sdiv 10" "x \<noteq> 0"
  then show "((x, len + 1), n, len) \<in> measure (\<lambda>(n, _). nat \<bar>n\<bar>)"
    by (auto simp: signed_divide_int_def sgn_if split: if_splits)
qed simp

definition bulk_len :: "strobj \<Rightarrow> int" where
  "bulk_len ob =
     (case ob of
        ObjRaw t \<Rightarrow> int (length t)
      | ObjInt v \<Rightarrow>
          let n = sint v; len = 1;
              (n, len) = (if n < 0 then (sint (- v), len + 1) else (n, len))
          in int (bulk_digits n len))"

definition addReplyBulkLen :: "nat \<Rightarrow> strobj \<Rightarrow> server \<Rightarrow> server" where
  "addReplyBulkLen c ob =
     (if bulk_len ob < REDIS_SHARED_BULKHDR_LEN then addReply c (shared_bulkhdr (bulk_len ob))
      else addReplyLongLongWithPrefix c (bulk_len ob) CHR ''$'')"

definition addReplyBulk :: "nat \<Rightarrow> strobj \<Rightarrow> server \<Rightarrow> server" where
  "addReplyBulk c ob s =
     (let s = addReplyBulkLen c ob s;
          s = addReply c ob s
      in addReply c shared_crlf s)"

definition addReplyBulkCBuffer :: "nat \<Rightarrow> bytes \<Rightarrow> server \<Rightarrow> server" where
  "addReplyBulkCBuffer c p s =
     (let s = addReplyLongLongWithPrefix c (int (length p)) CHR ''$'' s;
          s = addReplyString c p s
      in addReply c shared_crlf s)"

definition addReplyBulkCString :: "nat \<Rightarrow> string option \<Rightarrow> server \<Rightarrow> server" where
  "addReplyBulkCString c t =
     (case t of None \<Rightarrow> addReply c shared_nullbulk | Some t \<Rightarrow> addReplyBulkCBuffer c (str t))"

definition addReplyBulkLongLong :: "nat \<Rightarrow> int \<Rightarrow> server \<Rightarrow> server" where
  "addReplyBulkLongLong c ll =
     (case ll2string (replicate 64 0) (word_of_int ll) of (buf, len) \<Rightarrow> addReplyBulkCBuffer c (take len buf))"

section \<open>What the client will read\<close>

definition chunk :: "bytes option \<Rightarrow> bytes" where
  "chunk n = (case n of None \<Rightarrow> [] | Some t \<Rightarrow> t)"

definition client_out :: "client \<Rightarrow> bytes" where
  "client_out c = c_buf c @ concat (map chunk (c_reply c))"

definition writes :: "client \<Rightarrow> bool" where
  "writes c \<longleftrightarrow> prepareClientToWrite c \<and> REDIS_CLOSE_AFTER_REPLY \<notin> c_flags c"

text \<open>Two clients that differ in their output buffers only.\<close>

definition same_client :: "client \<Rightarrow> client \<Rightarrow> bool" where
  "same_client c c' \<longleftrightarrow> (\<exists>b r. c' = c\<lparr>c_buf := b, c_reply := r\<rparr>)"

lemma chunk_simps [simp]: "chunk None = []" "chunk (Some t) = t"
  by (simp_all add: chunk_def)

text \<open>What adding a text to the output of a client does.\<close>

definition appends :: "bytes \<Rightarrow> client \<Rightarrow> client \<Rightarrow> bool" where
  "appends t c c' \<longleftrightarrow>
     client_out c' = client_out c @ (if writes c then t else []) \<and> same_client c c' \<and>
     writes c' = writes c \<and> (c_buf c = [] \<and> c_reply c = [] \<or> \<not> (c_buf c' = [] \<and> c_reply c' = [])) \<and>
     (length (c_buf c) \<le> REDIS_REPLY_CHUNK_BYTES \<longrightarrow> length (c_buf c') \<le> REDIS_REPLY_CHUNK_BYTES)"

lemma appends_none: "\<not> writes c \<Longrightarrow> appends t c c"
proof -
  have "c = c\<lparr>c_buf := c_buf c, c_reply := c_reply c\<rparr>" by simp
  then have "same_client c c" unfolding same_client_def by blast
  moreover assume "\<not> writes c"
  ultimately show ?thesis by (simp add: appends_def)
qed

lemma writes_update:
  assumes "writes c" and "c_buf c = [] \<and> c_reply c = [] \<or> \<not> (b = [] \<and> r = [])"
  shows "writes (c\<lparr>c_buf := b, c_reply := r\<rparr>)"
  using assms by (simp add: writes_def prepareClientToWrite_def split: if_splits) blast

lemma appends_to:
  assumes "writes c" and "c' = c\<lparr>c_buf := b, c_reply := r\<rparr>"
    and "b @ concat (map chunk r) = client_out c @ t"
    and "c_buf c = [] \<and> c_reply c = [] \<or> \<not> (b = [] \<and> r = [])"
    and "length (c_buf c) \<le> REDIS_REPLY_CHUNK_BYTES \<longrightarrow> length b \<le> REDIS_REPLY_CHUNK_BYTES"
  shows "appends t c c'"
proof -
  have "same_client c c'" using assms(2) by (auto simp: same_client_def)
  moreover have "client_out c' = client_out c @ t" using assms(2,3) by (simp add: client_out_def)
  moreover have "writes c'" unfolding assms(2) using assms(1,4) by (rule writes_update)
  ultimately show ?thesis using assms(1,2,4,5) by (simp add: appends_def)
qed

lemma to_buffer:
  assumes "prepareClientToWrite c" and "addReplyToBuffer t c = Some c'"
  shows "appends t c c'"
proof (cases "REDIS_CLOSE_AFTER_REPLY \<in> c_flags c")
  case True
  then show ?thesis using assms(2) by (auto simp: addReplyToBuffer_def writes_def intro: appends_none)
next
  case False
  then have "c' = c\<lparr>c_buf := c_buf c @ t, c_reply := c_reply c\<rparr>" "c_reply c = []"
    "length t \<le> REDIS_REPLY_CHUNK_BYTES - length (c_buf c)"
    using assms(2) by (auto simp: addReplyToBuffer_def Let_def split: if_splits)
  then show ?thesis using False assms(1)
    by (intro appends_to [where b = "c_buf c @ t" and r = "c_reply c"]) (auto simp: writes_def client_out_def)
qed

lemma list_last_split: "xs \<noteq> [] \<Longrightarrow> concat (map f xs) = concat (map f (butlast xs)) @ f (last xs)"
  by (induction xs rule: rev_induct) auto

lemma to_list:
  assumes "prepareClientToWrite c"
  shows "appends t c (addReplyStringToList t c)"
proof (cases "writes c")
  case True
  define r where "r =
    (if c_reply c = [] then [Some t]
     else case last (c_reply c) of
       Some ts \<Rightarrow> if length ts + length t \<le> REDIS_REPLY_CHUNK_BYTES
         then butlast (c_reply c) @ [Some (ts @ t)] else c_reply c @ [Some t]
     | None \<Rightarrow> c_reply c @ [Some t])"
  have "addReplyStringToList t c = c\<lparr>c_buf := c_buf c, c_reply := r\<rparr>"
    using True by (simp add: addReplyStringToList_def r_def writes_def split: option.split)
  moreover have "concat (map chunk r) = concat (map chunk (c_reply c)) @ t" and "r \<noteq> []"
    using list_last_split [of "c_reply c" chunk] by (simp_all add: r_def split: option.split)
  ultimately show ?thesis using True
    by (intro appends_to [where b = "c_buf c" and r = r]) (simp_all add: client_out_def)
next
  case False
  then have "addReplyStringToList t c = c"
    using assms by (simp add: addReplyStringToList_def writes_def)
  with False show ?thesis by (simp add: appends_none)
qed

lemma object_to_list: "addReplyObjectToList t c = addReplyStringToList t c"
proof -
  have "xs[length xs - Suc 0 := y] = butlast xs @ [y]" if "xs \<noteq> []" for xs and y :: "bytes option"
    using that by (induction xs rule: rev_induct) auto
  then show ?thesis
    by (cases "c_reply c = []"; cases "last (c_reply c)")
      (simp_all add: addReplyObjectToList_def addReplyStringToList_def)
qed

lemma client_string: "appends t c (client_addReplyString t c)"
  by (auto simp: client_addReplyString_def writes_def to_buffer to_list intro: appends_none split: option.splits)

lemma int_text: "ll2string (replicate 32 0) v = (dst, len) \<Longrightarrow> take len dst = getDecodedObject (ObjInt v)"
  by (simp add: getDecodedObject_def)

lemma client_object: "appends (getDecodedObject ob) c (client_addReply ob c)"
proof (cases "prepareClientToWrite c")
  case True
  have ind: "appends t c (case addReplyToBuffer t c of Some c' \<Rightarrow> c' | None \<Rightarrow> addReplyObjectToList t c)" for t
    using to_buffer [OF True] to_list [OF True] by (simp add: object_to_list split: option.splits)
  show ?thesis
  proof (cases ob)
    case (ObjInt v)
    obtain dst len where l: "ll2string (replicate 32 0) v = (dst, len)" by fastforce
    show ?thesis
      using ind [of "getDecodedObject ob"] to_buffer [OF True, of "getDecodedObject ob"] True
      by (auto simp: client_addReply_def ObjInt l int_text [OF l] split: option.splits)
  next
    case (ObjRaw t)
    then show ?thesis using ind [of t] True by (simp add: client_addReply_def getDecodedObject_def)
  qed
qed (simp add: client_addReply_def writes_def appends_none)

section \<open>Replies on the server\<close>

definition out :: "server \<Rightarrow> nat \<Rightarrow> bytes" where
  "out s c = client_out (sv_client s c)"

definition can_write :: "server \<Rightarrow> nat \<Rightarrow> bool" where
  "can_write s c \<longleftrightarrow> writes (sv_client s c)"

text \<open>\<open>says c t s s'\<close>: \<open>s'\<close> is \<open>s\<close> with the text \<open>t\<close> sent to client \<open>c\<close>.\<close>

definition says :: "nat \<Rightarrow> bytes \<Rightarrow> server \<Rightarrow> server \<Rightarrow> bool" where
  "says c t s s' \<longleftrightarrow> (\<exists>b r. s' = upd_client c (\<lambda>cl. cl\<lparr>c_buf := b, c_reply := r\<rparr>) s) \<and>
     out s' c = out s c @ (if can_write s c then t else []) \<and> can_write s' c = can_write s c"

lemma saysI: "appends t (sv_client s c) (f (sv_client s c)) \<Longrightarrow> says c t s (upd_client c f s)"
proof -
  assume a: "appends t (sv_client s c) (f (sv_client s c))"
  then obtain b r where "f (sv_client s c) = (sv_client s c)\<lparr>c_buf := b, c_reply := r\<rparr>"
    by (auto simp: appends_def same_client_def)
  then have "upd_client c f s = upd_client c (\<lambda>cl. cl\<lparr>c_buf := b, c_reply := r\<rparr>) s"
    by (simp add: upd_client_def)
  moreover have "sv_client (upd_client c f s) c = f (sv_client s c)" by (simp add: upd_client_def)
  ultimately show ?thesis using a unfolding says_def out_def can_write_def appends_def by metis
qed

lemma says_trans:
  assumes "says c t s s1" and "says c t' s1 s2"
  shows "says c (t @ t') s s2"
proof -
  obtain b r b' r' where "s1 = upd_client c (\<lambda>cl. cl\<lparr>c_buf := b, c_reply := r\<rparr>) s"
    "s2 = upd_client c (\<lambda>cl. cl\<lparr>c_buf := b', c_reply := r'\<rparr>) s1"
    using assms by (auto simp: says_def)
  then have "s2 = upd_client c (\<lambda>cl. cl\<lparr>c_buf := b', c_reply := r'\<rparr>) s" by (simp add: upd_client_def)
  then show ?thesis using assms by (auto simp: says_def)
qed

lemma says_string: "says c t s (addReplyString c t s)"
  unfolding addReplyString_def by (rule saysI) (rule client_string)

lemma says_sds: "says c t s (addReplySds c t s)"
proof -
  have same: "addReplySdsToList = addReplyStringToList"
    by (intro ext) (simp add: addReplySdsToList_def addReplyStringToList_def)
  have "addReplySds c t s = addReplyString c t s"
    unfolding addReplySds_def addReplyString_def client_addReplyString_def [abs_def] same ..
  then show ?thesis using says_string by simp
qed

lemma says_object: "says c (getDecodedObject ob) s (addReply c ob s)"
  unfolding addReply_def by (rule saysI) (rule client_object)

lemma decoded_raw [simp]: "getDecodedObject (ObjRaw t) = t"
  by (simp add: getDecodedObject_def)

lemma says_raw: "says c t s (addReply c (ObjRaw t) s)"
  using says_object [of c "ObjRaw t"] by simp

lemma ll2string_word:
  assumes "- (2 ^ 63) \<le> ll" "ll < 2 ^ 63" "64 \<le> length buf"
  shows "(case ll2string buf (word_of_int ll) of (buf, len) \<Rightarrow> take len buf) = dec_int ll"
proof -
  have "sint (word_of_int ll :: u64) = ll"
    using llong_id [OF assms(1,2)] by (simp only: llong_def)
  moreover from this have "length (dec_int ll) \<le> 21"
    using length_dec_int_u64 [of "word_of_int ll"] by simp
  ultimately show ?thesis using assms(3) by (simp add: ll2string_text)
qed

lemma says_with_prefix:
  assumes "- (2 ^ 63) \<le> ll" "ll < 2 ^ 63"
  shows "says c (of_char p # dec_int ll @ crlf) s (addReplyLongLongWithPrefix c ll p s)"
proof -
  have "(case ll2string (replicate 127 0) (word_of_int ll) of
      (buf, len) \<Rightarrow> addReplyString c (of_char p # take len buf @ crlf) s) =
    addReplyString c (of_char p # dec_int ll @ crlf) s"
    using ll2string_word [OF assms, of "replicate 127 0"] by (simp add: split_beta)
  then show ?thesis
    using says_string [of c "of_char p # dec_int ll @ crlf" s]
      says_raw [of c "str ''*'' @ dec_int ll @ crlf" s] says_raw [of c "str ''$'' @ dec_int ll @ crlf" s]
    by (simp add: addReplyLongLongWithPrefix_def shared_mbulkhdr_def shared_bulkhdr_def)
qed

lemma says_long_long:
  assumes "- (2 ^ 63) \<le> ll" "ll < 2 ^ 63"
  shows "says c (str '':'' @ dec_int ll @ crlf) s (addReplyLongLong c ll s)"
  using says_with_prefix [OF assms, of c "CHR '':''" s]
    says_raw [of c "str '':0'' @ crlf" s] says_raw [of c "str '':1'' @ crlf" s]
  by (simp add: addReplyLongLong_def shared_czero_def shared_cone_def dec_int_def dec_nat_small)

lemma says_multi_bulk_len:
  assumes "0 \<le> n" "n < 2 ^ 63"
  shows "says c (str ''*'' @ dec_int n @ crlf) s (addReplyMultiBulkLen c n s)"
  using says_with_prefix [of n c "CHR ''*''" s] assms says_raw [of c "str ''*'' @ dec_int n @ crlf" s]
  by (simp add: addReplyMultiBulkLen_def shared_mbulkhdr_def)

lemma abs_sdiv: "\<bar>n sdiv 10\<bar> = \<bar>n\<bar> div (10 :: int)"
  by (simp add: signed_divide_int_def abs_mult sgn_if)

declare bulk_digits.simps [simp del]

lemma bulk_digits_dec: "bulk_digits n len + 1 = len + length (dec_nat (nat \<bar>n\<bar>))"
proof (induction n len rule: bulk_digits.induct)
  case (1 n len)
  have q: "nat \<bar>n sdiv 10\<bar> = nat \<bar>n\<bar> div 10"
    by (simp add: abs_sdiv nat_div_distrib)
  show ?case
  proof (cases "n sdiv 10 = 0")
    case True
    then have "nat \<bar>n\<bar> div 10 = 0" using q by simp
    then have "nat \<bar>n\<bar> < 10" by simp
    then show ?thesis using True by (subst bulk_digits.simps) (simp add: dec_nat_small)
  next
    case False
    then have "nat \<bar>n sdiv 10\<bar> \<noteq> 0" by simp
    then have "10 \<le> nat \<bar>n\<bar>" unfolding q by simp
    note digits = length_dec_nat_div [OF this]
    have "bulk_digits n len = bulk_digits (n sdiv 10) (len + 1)"
      using False by (subst bulk_digits.simps) (simp only: Let_def if_True not_False_eq_True)
    also have "\<dots> + 1 = len + 1 + length (dec_nat (nat \<bar>n\<bar> div 10))"
      using 1 [OF refl False] unfolding q .
    finally show ?thesis using digits by linarith
  qed
qed

text \<open>The length in the header of a bulk is the length of the text that follows it.\<close>

lemma bulk_len_text: "bulk_len ob = int (length (getDecodedObject ob))"
proof (cases ob)
  case (ObjInt v)
  have "nat \<bar>sint (- v)\<bar> = nat \<bar>sint v\<bar>" if neg: "sint v < 0"
  proof -
    have "unat (- v) = nat \<bar>sint v\<bar>"
      using ll_abs [of v] neg by (cases "v = LLONG_MIN") (simp_all add: LLONG_unat)
    moreover have "nat \<bar>sint v\<bar> \<le> 2 ^ 63"
      using sint_greater_eq [of v] neg by simp
    ultimately show ?thesis unfolding sint_u64 [of "- v"] by (simp split: if_splits)
  qed
  then have "int (bulk_digits (if sint v < 0 then sint (- v) else sint v) (if sint v < 0 then 2 else 1)) =
      int (length (dec_int (sint v)))"
    using bulk_digits_dec [of "if sint v < 0 then sint (- v) else sint v" "if sint v < 0 then 2 else 1"]
    by (auto simp: dec_int_abs)
  then show ?thesis by (simp add: bulk_len_def ObjInt decoded_int split_beta Let_def numeral_2_eq_2 split: if_splits)
qed (simp add: bulk_len_def)

lemma says_bulk_len:
  assumes "length (getDecodedObject ob) < 2 ^ 63"
  shows "says c (str ''$'' @ dec_int (int (length (getDecodedObject ob))) @ crlf) s (addReplyBulkLen c ob s)"
proof -
  have lim: "int (length (getDecodedObject ob)) < 2 ^ 63" using assms by (simp add: of_nat_less_numeral_power_cancel_iff)
  show ?thesis
    using says_with_prefix [OF _ lim, of c "CHR ''$''" s]
      says_raw [of c "str ''$'' @ dec_int (int (length (getDecodedObject ob))) @ crlf" s]
    by (simp add: addReplyBulkLen_def bulk_len_text shared_bulkhdr_def)
qed

definition bulk :: "bytes \<Rightarrow> bytes" where
  "bulk t = str ''$'' @ dec_int (int (length t)) @ crlf @ t @ crlf"

lemma says_bulk:
  assumes "length (getDecodedObject ob) < 2 ^ 63"
  shows "says c (bulk (getDecodedObject ob)) s (addReplyBulk c ob s)"
  using says_trans [OF says_trans [OF says_bulk_len [OF assms, of c s] says_object [of c ob]] says_raw [of c crlf]]
  by (simp add: addReplyBulk_def bulk_def shared_crlf_def Let_def)

lemma says_bulk_cbuffer:
  assumes "length t < 2 ^ 63"
  shows "says c (bulk t) s (addReplyBulkCBuffer c t s)"
proof -
  have lim: "int (length t) < 2 ^ 63" using assms by (simp add: of_nat_less_numeral_power_cancel_iff)
  show ?thesis
    using says_trans [OF says_trans [OF says_with_prefix [OF _ lim, of c "CHR ''$''" s] says_string [of c t]] says_raw [of c crlf]]
    by (simp add: addReplyBulkCBuffer_def bulk_def shared_crlf_def Let_def)
qed

section \<open>Properties\<close>

text \<open>
  Every string object is sent as one well-formed bulk of the protocol: the header announces
  exactly the number of bytes of the text that follows, for integer-encoded objects (whose length
  is computed by repeated division, also for the smallest 64-bit integer) as for raw ones, whether
  the pieces go to the static buffer or to the reply list.
\<close>

theorem addReplyBulk_protocol:
  assumes "length (getDecodedObject ob) < 2 ^ 63"
  shows "out (addReplyBulk c ob s) c =
    out s c @ (if can_write s c
               then str ''$'' @ dec_int (int (length (getDecodedObject ob))) @ crlf @ getDecodedObject ob @ crlf
               else [])"
  using says_bulk [OF assms, of c s] by (simp add: says_def bulk_def)

theorem addReplyBulk_protocol_witness:
  "\<forall>c s. out (addReplyBulk c (ObjRaw [104, 105]) s) c =
    out s c @ (if can_write s c then [36, 50, 13, 10, 104, 105, 13, 10] else [])"
  using addReplyBulk_protocol [of "ObjRaw [104, 105]"]
  by (simp add: dec_int_def dec_nat_small crlf_def)

text \<open>
  The static buffer of a client never overflows, whatever object is added to the output.
\<close>

theorem addReply_buffer_bound:
  assumes "length (c_buf (sv_client s w)) \<le> 16384"
  shows "length (c_buf (sv_client (addReply c ob s) w)) \<le> 16384"
  using assms client_object [of ob "sv_client s c"]
  by (auto simp: addReply_def upd_client_def appends_def REDIS_REPLY_CHUNK_BYTES_def)

theorem addReply_buffer_bound_witness:
  "\<forall>s cl. length (c_buf (sv_client (addReply 0 shared_ok (s\<lparr>sv_client := (\<lambda>_. cl\<lparr>c_buf := []\<rparr>)\<rparr>)) 0)) \<le> 16384"
  by (intro allI addReply_buffer_bound) simp

end
