(* ===== verification/Objects.thy ===== *)
theory Objects
  imports Reply
begin

text \<open>
  String objects (\<^verbatim>\<open>object.c\<close>): creation, encoding, comparison, length and conversion to
  integers.  The lemmas show that a command cannot tell an integer-encoded object from the raw one
  it was made from, what texts are read as integers, and that comparison is the lexicographic order
  of the decoded texts.
\<close>

section \<open>Creation and encoding\<close>

definition REDIS_SHARED_INTEGERS :: int where "REDIS_SHARED_INTEGERS = 10000"

text \<open>The shared integers are integer-encoded objects; \<^verbatim>\<open>long\<close> has 64 bits.\<close>

definition shared_integers :: "int \<Rightarrow> strobj" where
  "shared_integers j = ObjInt (word_of_int j)"

definition createStringObjectFromLongLong :: "int \<Rightarrow> strobj" where
  "createStringObjectFromLongLong v =
     (if 0 \<le> v \<and> v < REDIS_SHARED_INTEGERS then shared_integers v
      else if - (2 ^ 63) \<le> v \<and> v \<le> 2 ^ 63 - 1 then ObjInt (word_of_int v)
      else ObjRaw (dec_int v))"

definition tryObjectEncoding :: "strobj \<Rightarrow> strobj" where
  "tryObjectEncoding ob =
     (case ob of
        ObjInt _ \<Rightarrow> ob
      | ObjRaw s \<Rightarrow>
          if 21 < length s then ob
          else case string2l s of
                 None \<Rightarrow> ob
               | Some v \<Rightarrow>
                   if 0 \<le> sint v \<and> sint v < REDIS_SHARED_INTEGERS then shared_integers (sint v)
                   else ObjInt v)"

definition isObjectRepresentableAsLongLong :: "strobj \<Rightarrow> u64 option" where
  "isObjectRepresentableAsLongLong ob =
     (case ob of ObjInt v \<Rightarrow> Some v | ObjRaw s \<Rightarrow> string2ll s)"

definition stringObjectLen :: "strobj \<Rightarrow> nat" where
  "stringObjectLen ob =
     (case ob of ObjRaw s \<Rightarrow> length s | ObjInt v \<Rightarrow> snd (ll2string (replicate 32 0) v))"

section \<open>Comparison\<close>

text \<open>The difference of the first bytes that differ within \<open>n\<close>, else 0.\<close>

fun memcmp :: "bytes \<Rightarrow> bytes \<Rightarrow> nat \<Rightarrow> int" where
  "memcmp (x # xs) (y # ys) (Suc n) = (if x = y then memcmp xs ys n else uint x - uint y)"
| "memcmp _ _ _ = 0"

text \<open>The text of an object as the comparison reads it, on the stack for an integer.\<close>

definition object_text :: "strobj \<Rightarrow> bytes \<times> nat" where
  "object_text ob =
     (case ob of ObjInt v \<Rightarrow> ll2string (replicate 128 0) v | ObjRaw s \<Rightarrow> (s, length s))"

definition compareStringObjects :: "strobj \<Rightarrow> strobj \<Rightarrow> int" where
  "compareStringObjects a b =
     (let (astr, alen) = object_text a;
          (bstr, blen) = object_text b;
          minlen = (if alen < blen then alen else blen);
          cmp = memcmp astr bstr minlen
      in if cmp = 0 then int alen - int blen else cmp)"

definition equalStringObjects :: "strobj \<Rightarrow> strobj \<Rightarrow> bool" where
  "equalStringObjects a b =
     (case (a, b) of
        (ObjInt v, ObjInt w) \<Rightarrow> v = w
      | _ \<Rightarrow> compareStringObjects a b = 0)"

section \<open>Reading integers\<close>

definition is_space :: "u8 \<Rightarrow> bool" where
  "is_space c \<longleftrightarrow> 9 \<le> c \<and> c \<le> 13 \<or> c = 32"

text \<open>
  \<^verbatim>\<open>strtoll(s, &end, 10)\<close> on a C string: the value, the offset of \<^verbatim>\<open>end\<close>, and whether
  \<^verbatim>\<open>errno\<close> is \<^verbatim>\<open>ERANGE\<close>.
\<close>

definition strtoll10 :: "bytes \<Rightarrow> int \<times> nat \<times> bool" where
  "strtoll10 s =
     (let ws = length (takeWhile is_space s);
          r = drop ws s;
          neg = (r \<noteq> [] \<and> hd r = 45);
          sg = (if r \<noteq> [] \<and> (hd r = 45 \<or> hd r = 43) then 1 else 0);
          ds = takeWhile is_digit (drop sg r);
          v = (if neg then - int (dec_val 0 ds) else int (dec_val 0 ds))
      in if ds = [] then (0, 0, False)
         else if v < - (2 ^ 63) then (- (2 ^ 63), ws + sg + length ds, True)
         else if 2 ^ 63 - 1 < v then (2 ^ 63 - 1, ws + sg + length ds, True)
         else (v, ws + sg + length ds, False))"

text \<open>\<open>None\<close> as argument is the null pointer; as result, \<^verbatim>\<open>REDIS_ERR\<close>.\<close>

definition getLongLongFromObject :: "strobj option \<Rightarrow> int option" where
  "getLongLongFromObject ob =
     (case ob of
        None \<Rightarrow> Some 0
      | Some (ObjRaw t) \<Rightarrow>
          (let p = c_str t @ [0];
               (v, e, erange) = strtoll10 (c_str t)
           in if is_space (p ! 0) \<or> p ! e \<noteq> 0 \<or> erange then None else Some v)
      | Some (ObjInt v) \<Rightarrow> Some (sint v))"

definition getLongLongFromObjectOrReply ::
    "nat \<Rightarrow> strobj option \<Rightarrow> string option \<Rightarrow> server \<Rightarrow> int option \<times> server" where
  "getLongLongFromObjectOrReply c ob msg s =
     (case getLongLongFromObject ob of
        None \<Rightarrow>
          (None, (case msg of
                    Some m \<Rightarrow> addReplyError c m s
                  | None \<Rightarrow> addReplyError c ''value is not an integer or out of range'' s))
      | Some v \<Rightarrow> (Some v, s))"

definition getLongFromObjectOrReply ::
    "nat \<Rightarrow> strobj option \<Rightarrow> string option \<Rightarrow> server \<Rightarrow> int option \<times> server" where
  "getLongFromObjectOrReply c ob msg s =
     (case getLongLongFromObjectOrReply c ob msg s of
        (None, s) \<Rightarrow> (None, s)
      | (Some v, s) \<Rightarrow>
          if v < - (2 ^ 63) \<or> 2 ^ 63 - 1 < v
          then (None, (case msg of
                         Some m \<Rightarrow> addReplyError c m s
                       | None \<Rightarrow> addReplyError c ''value is out of range'' s))
          else (Some v, s))"

definition checkType :: "nat \<Rightarrow> robj \<Rightarrow> objtype \<Rightarrow> server \<Rightarrow> bool \<times> server" where
  "checkType c ob t s =
     (if otype ob \<noteq> t then (True, addReply c shared_wrongtypeerr s) else (False, s))"

section \<open>Encodings are invisible\<close>

lemma decoded_encoding: "getDecodedObject (tryObjectEncoding ob) = getDecodedObject ob"
proof (cases ob)
  case (ObjRaw s)
  have "getDecodedObject (ObjInt v) = s" if "string2l s = Some v" for v
    using that by (simp add: decoded_int string2l_exact string2ll_iff)
  then show ?thesis
    by (auto simp: ObjRaw tryObjectEncoding_def shared_integers_def split: option.split)
qed (simp add: tryObjectEncoding_def)

lemma decoded_from_long_long:
  "- (2 ^ 63) \<le> v \<Longrightarrow> v < 2 ^ 63 \<Longrightarrow> getDecodedObject (createStringObjectFromLongLong v) = dec_int v"
  using llong_id [of v]
  by (simp add: createStringObjectFromLongLong_def shared_integers_def decoded_int llong_def)

lemma representable: "isObjectRepresentableAsLongLong ob = string2ll (getDecodedObject ob)"
  by (cases ob) (simp_all add: isObjectRepresentableAsLongLong_def decoded_int string2ll_complete)

lemma dec_int_fits: "22 \<le> n \<Longrightarrow> length (dec_int (sint (v :: u64))) < n"
  using length_dec_int_u64 [of v] by linarith

lemma stringObjectLen_decoded: "stringObjectLen ob = length (getDecodedObject ob)"
  by (cases ob) (simp_all add: stringObjectLen_def decoded_int dec_int_fits ll2string_text)

lemma object_text_decoded: "object_text ob = (t, n) \<Longrightarrow> n = length (getDecodedObject ob) \<and> take n t = getDecodedObject ob"
  by (cases ob) (auto simp: object_text_def decoded_int dec_int_fits ll2string_text)

lemma memcmp_take: "memcmp a b n = memcmp (take n a) (take n b) n"
  by (induction a b n rule: memcmp.induct) auto

text \<open>Comparing two texts up to the shorter length and then by length.\<close>

definition text_cmp :: "bytes \<Rightarrow> bytes \<Rightarrow> int" where
  "text_cmp u v =
     (let cmp = memcmp u v (min (length u) (length v)) in if cmp = 0 then int (length u) - int (length v) else cmp)"

lemma compare_text: "compareStringObjects a b = text_cmp (getDecodedObject a) (getDecodedObject b)"
proof -
  obtain s m t n where st: "object_text a = (s, m)" "object_text b = (t, n)" by fastforce
  define k where "k = (if m < n then m else n)"
  have len: "m = length (getDecodedObject a)" "n = length (getDecodedObject b)" "k = min m n"
    and pre: "take k s = take k (getDecodedObject a)" "take k t = take k (getDecodedObject b)"
    using object_text_decoded [OF st(1)] object_text_decoded [OF st(2)]
    by (auto simp: k_def take_take min_def dest: arg_cong [where f = "take k"])
  have "memcmp s t k = memcmp (getDecodedObject a) (getDecodedObject b) k"
    using memcmp_take [of s t k] memcmp_take [of "getDecodedObject a" "getDecodedObject b" k] pre by simp
  moreover have "compareStringObjects a b = (if memcmp s t k = 0 then int m - int n else memcmp s t k)"
    by (simp only: compareStringObjects_def st prod.case Let_def k_def)
  ultimately show ?thesis using len by (simp only: text_cmp_def Let_def)
qed

lemma text_cmp_Cons: "text_cmp (x # u) (y # v) = (if x = y then text_cmp u v else uint x - uint y)"
  by (auto simp: text_cmp_def Let_def word_uint_eq_iff)

lemma text_cmp_zero: "text_cmp u v = 0 \<longleftrightarrow> u = v"
  by (induction u v rule: list_induct2') (auto simp: text_cmp_Cons word_uint_eq_iff, auto simp: text_cmp_def)

lemma text_cmp_less: "text_cmp u v < 0 \<longleftrightarrow> (u, v) \<in> lexord {(x, y). x < y}"
  by (induction u v rule: list_induct2')
    (auto simp: text_cmp_Cons word_less_def, auto simp: text_cmp_def)

section \<open>Properties\<close>

text \<open>
  Comparing two string objects orders them lexicographically by the bytes of their decoded
  texts, whatever their encodings; the result is 0 exactly for equal texts, and
  \<^verbatim>\<open>equalStringObjects\<close> with its short cut for two integer-encoded objects decides the same.
\<close>

theorem compareStringObjects_lexicographic:
  "(compareStringObjects a b < 0 \<longleftrightarrow> (getDecodedObject a, getDecodedObject b) \<in> lexord {(x, y). x < y}) \<and>
   (compareStringObjects a b = 0 \<longleftrightarrow> getDecodedObject a = getDecodedObject b) \<and>
   (equalStringObjects a b \<longleftrightarrow> getDecodedObject a = getDecodedObject b)"
proof -
  have "equalStringObjects a b \<longleftrightarrow> getDecodedObject a = getDecodedObject b"
    by (cases a; cases b)
      (auto simp: equalStringObjects_def compare_text text_cmp_zero decoded_int dest: dec_int_sint_inj)
  then show ?thesis by (simp add: compare_text text_cmp_zero text_cmp_less)
qed

subsection \<open>Reading integers\<close>

lemma c_str_nonzero: "0 \<notin> set (c_str t)"
  by (auto simp: c_str_def dest: set_takeWhileD)

lemma digit_no_space: "is_digit c \<Longrightarrow> \<not> is_space c \<and> c \<noteq> 45 \<and> c \<noteq> 43 \<and> c \<noteq> 0"
proof -
  assume "is_digit c"
  then have c: "48 \<le> unat c" "unat c \<le> 57" by (simp_all add: is_digit_def word_le_nat_alt)
  have ne: "c \<noteq> k" if "unat k < 48" for k using that c(1) by (metis not_less)
  have "c \<noteq> 45" "c \<noteq> 43" "c \<noteq> 0" "c \<noteq> 32" by (rule ne, simp)+
  moreover have "\<not> c \<le> 13" using c by (simp add: word_le_nat_alt)
  ultimately show ?thesis by (simp add: is_space_def)
qed

text \<open>The shape of the texts \<^verbatim>\<open>strtoll\<close> consumes entirely: no white space, an optional sign, digits.\<close>

definition integer_text :: "bytes \<Rightarrow> int \<Rightarrow> bool" where
  "integer_text s v \<longleftrightarrow>
     (\<exists>sg ds. s = sg @ ds \<and> sg \<in> {[], [43], [45]} \<and> ds \<noteq> [] \<and> list_all is_digit ds \<and>
        v = (if sg = [45] then - int (dec_val 0 ds) else int (dec_val 0 ds)))"

lemma takeWhile_digits: "list_all is_digit ds \<Longrightarrow> takeWhile is_digit ds = ds"
  by (simp add: takeWhile_eq_all_conv list_all_iff)

lemma strtoll10_signed:
  assumes "list_all is_digit ds" "ds \<noteq> []" "sg \<in> {[], [43], [45]}"
  shows "strtoll10 (sg @ ds) =
    (let v = (if sg = [45] then - int (dec_val 0 ds) else int (dec_val 0 ds))
     in if v < - (2 ^ 63) then (- (2 ^ 63), length (sg @ ds), True)
        else if 2 ^ 63 - 1 < v then (2 ^ 63 - 1, length (sg @ ds), True)
        else (v, length (sg @ ds), False))"
proof -
  obtain d ds' where d: "ds = d # ds'" "is_digit d" using assms(1,2) by (cases ds) auto
  have sp: "takeWhile is_space ds = []" "hd ds \<noteq> 45" "hd ds \<noteq> 43" "\<not> is_space 43" "\<not> is_space 45"
    using digit_no_space [OF d(2)] by (simp_all add: d(1) is_space_def)
  note tw = takeWhile_digits [OF assms(1)]
  consider "sg = []" | "sg = [43]" | "sg = [45]" using assms(3) by blast
  then show ?thesis
  proof cases
    case 1
    show ?thesis using sp assms(2) by (simp only: 1 strtoll10_def) (simp add: tw Let_def)
  next
    case 2
    show ?thesis using sp assms(2) by (simp only: 2 strtoll10_def) (simp add: tw Let_def)
  next
    case 3
    show ?thesis using sp assms(2) by (simp only: 3 strtoll10_def) (simp add: tw Let_def)
  qed
qed

text \<open>What is consumed when the text starts without white space.\<close>

lemma strtoll10_consumed:
  assumes "strtoll10 s = (v, length s, e)" "s \<noteq> []" "\<not> is_space (hd s)"
  shows "\<exists>sg ds. s = sg @ ds \<and> sg \<in> {[], [43], [45]} \<and> ds \<noteq> [] \<and> list_all is_digit ds"
proof -
  define sg where "sg = (if hd s = 45 \<or> hd s = 43 then (1 :: nat) else 0)"
  define ds where "ds = takeWhile is_digit (drop sg s)"
  have ws: "takeWhile is_space s = []" using assms(2,3) by (cases s) auto
  have ne: "ds \<noteq> []" and len: "length s = sg + length ds"
    using assms(1,2) unfolding strtoll10_def ws
    by (auto simp: sg_def ds_def Let_def split: if_splits)
  have "length ds = length (drop sg s)" using len by simp
  then have "ds = drop sg s" unfolding ds_def by (metis takeWhile_eq_take take_all order_refl)
  then have all: "list_all is_digit (drop sg s)" unfolding ds_def by (simp add: takeWhile_eq_all_conv list_all_iff)
  have "s = take sg s @ drop sg s" by simp
  moreover have "take sg s \<in> {[], [43], [45]}" using assms(2) by (cases s) (auto simp: sg_def)
  ultimately show ?thesis using all ne \<open>ds = drop sg s\<close> by metis
qed

lemma end_of_text: "0 \<notin> set s \<Longrightarrow> e \<le> length s \<Longrightarrow> (s @ [0]) ! e = (0 :: u8) \<longleftrightarrow> e = length s"
  by (metis le_neq_implies_less nth_append nth_append_length nth_mem)

lemma strtoll10_end: "strtoll10 s = (v, e, r) \<Longrightarrow> e \<le> length s"
proof -
  assume a: "strtoll10 s = (v, e, r)"
  define w where "w = length (takeWhile is_space s)"
  define sg where "sg = (if drop w s \<noteq> [] \<and> (hd (drop w s) = 45 \<or> hd (drop w s) = 43) then 1 else 0 :: nat)"
  define ds where "ds = takeWhile is_digit (drop sg (drop w s))"
  have "e = 0 \<or> e = w + sg + length ds \<and> 0 < length ds"
    using a unfolding strtoll10_def w_def [symmetric] Let_def sg_def [symmetric] ds_def [symmetric]
    by (auto split: if_splits)
  moreover have "length ds \<le> length s - w - sg"
    using length_takeWhile_le [of is_digit "drop sg (drop w s)"] by (simp add: ds_def)
  ultimately show ?thesis by linarith
qed

lemma getLongLong_iff:
  "getLongLongFromObject (Some (ObjRaw t)) = Some v \<longleftrightarrow>
     c_str t = [] \<and> v = 0 \<or> integer_text (c_str t) v \<and> - (2 ^ 63) \<le> v \<and> v < 2 ^ 63"
proof -
  define s where "s = c_str t"
  obtain v' e r where p: "strtoll10 s = (v', e, r)" by (metis prod_cases3)
  have zero: "(s @ [0]) ! e = 0 \<longleftrightarrow> e = length s"
    using end_of_text [OF c_str_nonzero strtoll10_end] p by (simp add: s_def)
  have get: "getLongLongFromObject (Some (ObjRaw t)) = Some v \<longleftrightarrow>
      \<not> is_space ((s @ [0]) ! 0) \<and> e = length s \<and> \<not> r \<and> v' = v"
    using p zero by (auto simp: getLongLongFromObject_def s_def)
  show ?thesis
  proof (cases "s = []")
    case True
    then have "v' = 0" "e = 0" "\<not> r" using p by (auto simp: strtoll10_def Let_def)
    then show ?thesis unfolding get using True by (auto simp: s_def [symmetric] integer_text_def is_space_def)
  next
    case False
    then have hd: "(s @ [0]) ! 0 = hd s" by (cases s) auto
    have range: "v' = v \<and> e = length s \<and> \<not> r \<longleftrightarrow> - (2 ^ 63) \<le> v \<and> v < 2 ^ 63"
      if "s = sg @ ds" "sg \<in> {[], [43], [45]}" "ds \<noteq> []" "list_all is_digit ds"
        "v = (if sg = [45] then - int (dec_val 0 ds) else int (dec_val 0 ds))" for sg ds
      using p strtoll10_signed [OF that(4,3,2)] that(1,5) by (auto simp: Let_def split: if_splits)
    have form: "integer_text s v"
      if eqs: "v' = v" "e = length s" "\<not> r" "\<not> is_space (hd s)"
    proof -
      obtain sg ds where sp: "s = sg @ ds" "sg \<in> {[], [43], [45]}" "ds \<noteq> []" "list_all is_digit ds"
        using strtoll10_consumed [of s v' r] p eqs(2,4) False by blast
      have "v = (if sg = [45] then - int (dec_val 0 ds) else int (dec_val 0 ds))"
        using p strtoll10_signed [OF sp(4,3,2)] eqs(1,3) sp(1) by (auto simp: Let_def split: if_splits)
      with sp show ?thesis unfolding integer_text_def by blast
    qed
    have start: "\<not> is_space (hd s)" if "integer_text s v"
    proof -
      obtain sg ds where "s = sg @ ds" "sg \<in> {[], [43], [45]}" "ds \<noteq> []" "list_all is_digit ds"
        using \<open>integer_text s v\<close> by (auto simp: integer_text_def)
      then show ?thesis using digit_no_space [of "hd ds"] by (cases ds) (auto simp: is_space_def)
    qed
    have "v' = v \<and> e = length s \<and> \<not> r \<longleftrightarrow> - (2 ^ 63) \<le> v \<and> v < 2 ^ 63" if "integer_text s v"
      using that range unfolding integer_text_def by blast
    with form start show ?thesis unfolding get hd s_def [symmetric] using False by blast
  qed
qed

text \<open>
  C28. What a command reads as an integer from a raw argument or value: the text up to the first NUL
  byte must be an optional sign followed by digits, with a value of 64 bits; leading zeros and a plus
  sign are accepted, white space is not.  The empty text reads as 0.
\<close>

theorem getLongLongFromObject_exact:
  "getLongLongFromObject (Some (ObjRaw t)) = Some v \<longleftrightarrow>
     c_str t = [] \<and> v = 0 \<or> integer_text (c_str t) v \<and> - (2 ^ 63) \<le> v \<and> v < 2 ^ 63"
  by (rule getLongLong_iff)

lemma integer_text_dec: "integer_text (dec_int v) v"
proof -
  have digits: "list_all is_digit (dec_nat n) \<and> dec_val 0 (dec_nat n) = n" for n
  proof (cases "0 < n")
    case True
    from dec_nat_form [OF this] obtain c p where cp: "dec_nat n = c # p" "49 \<le> c" "c \<le> 57"
      "\<forall>c \<in> set p. is_digit c" "n = dec_val (unat (c - 48)) p" by blast
    have "(48 :: u8) \<le> c" using cp(2) by (simp add: word_le_nat_alt)
    with cp show ?thesis by (simp add: list_all_iff is_digit_def)
  next
    case False
    then have "dec_nat n = [48]" by (simp add: dec_nat_small)
    with False show ?thesis by (simp add: is_digit_def)
  qed
  have nz: "dec_nat n \<noteq> []" for n by (rule dec_nat_ne)
  show ?thesis
  proof (cases "v < 0")
    case True
    have "dec_int v = [45] @ dec_nat (nat (- v))" using True by (simp add: dec_int_def)
    moreover have "v = - int (dec_val 0 (dec_nat (nat (- v))))" using digits [of "nat (- v)"] True by simp
    ultimately show ?thesis unfolding integer_text_def
      using digits [of "nat (- v)"] nz by (intro exI [of _ "[45]"] exI [of _ "dec_nat (nat (- v))"]) simp
  next
    case False
    have "dec_int v = [] @ dec_nat (nat v)" using False by (simp add: dec_int_def)
    moreover have "v = int (dec_val 0 (dec_nat (nat v)))" using digits [of "nat v"] False by simp
    ultimately show ?thesis unfolding integer_text_def
      using digits [of "nat v"] nz by (intro exI [of _ "[]"] exI [of _ "dec_nat (nat v)"]) simp
  qed
qed

lemma dec_int_no_nul: "c_str (dec_int v) = dec_int v"
proof -
  obtain sg ds where t: "dec_int v = sg @ ds" "sg \<in> {[], [43], [45]}" "list_all is_digit ds"
    using integer_text_dec [of v] by (auto simp: integer_text_def)
  have "0 \<notin> set ds" using t(3) digit_no_space by (auto simp: list_all_iff)
  then have "0 \<notin> set (dec_int v)" using t(1,2) by auto
  then show ?thesis by (auto simp: c_str_def takeWhile_eq_all_conv)
qed

lemma reads_decimal: "- (2 ^ 63) \<le> v \<Longrightarrow> v < 2 ^ 63 \<Longrightarrow> getLongLongFromObject (Some (ObjRaw (dec_int v))) = Some v"
  unfolding getLongLong_iff dec_int_no_nul using integer_text_dec by blast

text \<open>
  C29. Encoding a string object loses nothing: the encoded object has the same text, the same length,
  compares equal to the original, and every command reads the same integer (or the same error) from
  it; encoding twice is encoding once.
\<close>

theorem tryObjectEncoding_invisible:
  "getDecodedObject (tryObjectEncoding ob) = getDecodedObject ob \<and>
   stringObjectLen (tryObjectEncoding ob) = stringObjectLen ob \<and>
   equalStringObjects (tryObjectEncoding ob) ob \<and>
   getLongLongFromObject (Some (tryObjectEncoding ob)) = getLongLongFromObject (Some ob) \<and>
   isObjectRepresentableAsLongLong (tryObjectEncoding ob) = isObjectRepresentableAsLongLong ob \<and>
   tryObjectEncoding (tryObjectEncoding ob) = tryObjectEncoding ob"
proof -
  have eq: "equalStringObjects (tryObjectEncoding ob) ob"
    using decoded_encoding [of ob]
    by (cases "tryObjectEncoding ob"; cases ob)
      (auto simp: equalStringObjects_def compare_text text_cmp_zero decoded_int dest: dec_int_sint_inj)
  have num: "getLongLongFromObject (Some (tryObjectEncoding ob)) = getLongLongFromObject (Some ob)"
  proof (cases ob)
    case (ObjRaw s)
    have "getLongLongFromObject (Some (ObjRaw s)) = Some (sint v)" if "string2l s = Some v" for v
    proof -
      have "s = dec_int (sint v)" using that by (simp add: string2l_exact string2ll_sound)
      then show ?thesis using reads_decimal [of "sint v"] sint_greater_eq [of v] sint_less [of v] by simp
    qed
    then show ?thesis
      by (auto simp: ObjRaw tryObjectEncoding_def shared_integers_def getLongLongFromObject_def split: option.split)
  qed (simp add: tryObjectEncoding_def)
  have twice: "tryObjectEncoding (tryObjectEncoding ob) = tryObjectEncoding ob"
    by (auto simp: tryObjectEncoding_def shared_integers_def split: strobj.splits option.splits)
  show ?thesis
    using decoded_encoding [of ob] eq num twice by (simp add: stringObjectLen_decoded representable)
qed

end
