(* ===== verification/Dict_Iter.thy ===== *)
theory Dict_Iter
  imports Dict_Map
begin

text \<open>
  The iterators of \<^verbatim>\<open>dict.c\<close>: \<^verbatim>\<open>dictGetIterator\<close>, \<^verbatim>\<open>dictNext\<close> and \<^verbatim>\<open>dictReleaseIterator\<close>, and
  what repeated calls return on a dictionary that does not change meanwhile, whatever step of a
  rehash it is in.
\<close>

section \<open>Model\<close>

text \<open>
  \<open>it_next\<close> is the chain that starts with the entry \<^verbatim>\<open>nextEntry\<close>, saved when the current
  entry was returned.  The fingerprint of unsafe iterators is not represented: it is made of the
  addresses of the tables.
\<close>

record ('k, 'v) dictIterator =
  it_index :: int
  it_table :: nat
  it_safe :: bool
  it_entry :: "('k, 'v) dictEntry option"
  it_next :: "('k, 'v) dictEntry list"

definition dictGetIterator :: "('k, 'v) dictIterator" where
  "dictGetIterator = \<lparr>it_index = - 1, it_table = 0, it_safe = False, it_entry = None, it_next = []\<rparr>"

definition dictGetSafeIterator :: "('k, 'v) dictIterator" where
  "dictGetSafeIterator = dictGetIterator\<lparr>it_safe := True\<rparr>"

text \<open>The iterations left: the buckets ahead, twice, and the step from a finished chain to its bucket.\<close>

definition iter_measure :: "('k, 'v) dict \<Rightarrow> ('k, 'v) dictIterator \<Rightarrow> nat" where
  "iter_measure d it =
     2 * nat (int (ht_size (dict_ht d (it_table it))) - it_index it) +
     (if it_table it = 0 then 2 * ht_size (ht1 d) + 4 else 0) + (if it_entry it = None then 0 else 1)"

text \<open>The next bucket; false at the end of the tables.\<close>

definition dict_next_bucket :: "('k, 'v) dict \<Rightarrow> ('k, 'v) dictIterator \<Rightarrow> ('k, 'v) dictIterator \<times> bool" where
  "dict_next_bucket d it =
     (let it = it\<lparr>it_index := it_index it + 1\<rparr>
      in if int (ht_size (dict_ht d (it_table it))) \<le> it_index it then
           if dictIsRehashing d \<and> it_table it = 0 then (it\<lparr>it_table := 1, it_index := 0\<rparr>, True)
           else (it, False)
         else (it, True))"

lemma next_bucket_measure:
  "it_entry it = None \<Longrightarrow> (it', b) = dict_next_bucket d it \<Longrightarrow> b = True \<Longrightarrow> iter_measure d it' < iter_measure d it"
  by (auto simp: dict_next_bucket_def iter_measure_def dict_ht_def Let_def split: if_splits)

text \<open>
  The rounds of \<^verbatim>\<open>while (1)\<close>: the next entry of the current chain, or the head of the next bucket.
\<close>

function dict_next_loop :: "('k, 'v) dict \<Rightarrow> ('k, 'v) dictIterator \<Rightarrow> ('k, 'v) dictIterator \<times> ('k, 'v) dictEntry option" where
  "dict_next_loop d it =
     (case it_entry it of
        None \<Rightarrow>
          (case dict_next_bucket d it of
             (it, False) \<Rightarrow> (it, None)
           | (it, True) \<Rightarrow>
               (case ht_table (dict_ht d (it_table it)) ! nat (it_index it) of
                  e # es \<Rightarrow> (it\<lparr>it_entry := Some e, it_next := es\<rparr>, Some e)
                | [] \<Rightarrow> dict_next_loop d it))
      | Some _ \<Rightarrow>
          (case it_next it of
             e # es \<Rightarrow> (it\<lparr>it_entry := Some e, it_next := es\<rparr>, Some e)
           | [] \<Rightarrow> dict_next_loop d (it\<lparr>it_entry := None\<rparr>)))"
  by pat_completeness auto

termination
proof (relation "measure (\<lambda>(d, it). iter_measure d it)", goal_cases)
  case 2
  then show ?case by (simp add: next_bucket_measure)
next
  case (3 d it)
  then show ?case by (simp add: iter_measure_def)
qed simp

declare dict_next_loop.simps [simp del]

definition dictNext :: "('k, 'v) dict \<Rightarrow> ('k, 'v) dictIterator \<Rightarrow>
    ('k, 'v) dict \<times> ('k, 'v) dictIterator \<times> ('k, 'v) dictEntry option" where
  "dictNext d it =
     (let first = (it_entry it = None \<and> it_index it = - 1 \<and> it_table it = 0);
          d = (if first \<and> it_safe it then d\<lparr>iterators := iterators d + 1\<rparr> else d)
      in (d, dict_next_loop d it))"

definition dictReleaseIterator :: "('k, 'v) dict \<Rightarrow> ('k, 'v) dictIterator \<Rightarrow> ('k, 'v) dict" where
  "dictReleaseIterator d it =
     (if \<not> (it_index it = - 1 \<and> it_table it = 0) \<and> it_safe it
      then d\<lparr>iterators := iterators d - 1\<rparr> else d)"

text \<open>\<^verbatim>\<open>while ((de = dictNext(di)) != NULL)\<close>: the entries in the order of the calls.\<close>

partial_function (option) dict_drain :: "('k, 'v) dict \<Rightarrow> ('k, 'v) dictIterator \<Rightarrow> ('k, 'v) dictEntry list \<Rightarrow>
    (('k, 'v) dict \<times> ('k, 'v) dictEntry list) option" where
  "dict_drain d it acc =
     (case dictNext d it of
        (d, it, None) \<Rightarrow> Some (dictReleaseIterator d it, acc)
      | (d, it, Some e) \<Rightarrow> dict_drain d it (acc @ [e]))"

section \<open>What an iteration returns\<close>

text \<open>The entries still to come, and the states an iterator can be in.\<close>

definition iter_rest :: "('k, 'v) dict \<Rightarrow> ('k, 'v) dictIterator \<Rightarrow> ('k, 'v) dictEntry list" where
  "iter_rest d it =
     (if it_entry it = None then [] else it_next it) @
     concat (drop (nat (it_index it + 1)) (ht_table (dict_ht d (it_table it)))) @
     (if dictIsRehashing d \<and> it_table it = 0 then concat (ht_table (ht1 d)) else [])"

definition tables_ok :: "('k, 'v) dict \<Rightarrow> bool" where
  "tables_ok d \<longleftrightarrow> length (ht_table (ht0 d)) = ht_size (ht0 d) \<and> length (ht_table (ht1 d)) = ht_size (ht1 d) \<and>
     (dictIsRehashing d \<longrightarrow> 0 < ht_size (ht1 d))"

lemma inv_tables: "dict_inv ty cn d \<Longrightarrow> tables_ok d"
  by (auto simp: dict_inv_def ht_inv_def tables_ok_def split: if_splits)

lemma drop_bucket:
  "i < length xs \<Longrightarrow> concat (drop i xs) = xs ! i @ concat (drop (Suc i) xs)"
  by (simp flip: Cons_nth_drop_Suc)

lemma next_loop_rest:
  assumes "tables_ok d" and "- 1 \<le> it_index it"
  shows "(case dict_next_loop d it of (it', r) \<Rightarrow> - 1 \<le> it_index it' \<and>
    (case iter_rest d it of [] \<Rightarrow> r = None | e # es \<Rightarrow> r = Some e \<and> iter_rest d it' = es))"
  using assms
proof (induction d it rule: dict_next_loop.induct)
  case (1 d it)
  show ?case
  proof (cases "it_entry it")
    case (Some e0)
    show ?thesis
    proof (cases "it_next it")
      case Nil
      then have "iter_rest d (it\<lparr>it_entry := None\<rparr>) = iter_rest d it" by (simp add: iter_rest_def Some)
      then show ?thesis
        using "1.IH"(2) [OF Some Nil] "1.prems" by (subst dict_next_loop.simps) (simp add: Some Nil)
    next
      case (Cons e es)
      then show ?thesis using "1.prems" by (subst dict_next_loop.simps) (simp add: Some iter_rest_def)
    qed
  next
    case None
    define i where "i = it_index it + 1"
    define t where "t = it_table it"
    have i: "0 \<le> i" using "1.prems" by (simp add: i_def)
    have len: "length (ht_table (dict_ht d t)) = ht_size (dict_ht d t)"
      using "1.prems" by (simp add: tables_ok_def dict_ht_def)
    show ?thesis
    proof (cases "int (ht_size (dict_ht d t)) \<le> i \<and> \<not> (dictIsRehashing d \<and> t = 0)")
      case True
      then have "iter_rest d it = []" using None len i by (auto simp: iter_rest_def t_def i_def)
      moreover have "dict_next_bucket d it = (it\<lparr>it_index := i\<rparr>, False)"
        using True by (auto simp: dict_next_bucket_def i_def t_def Let_def)
      ultimately show ?thesis using i by (subst dict_next_loop.simps) (simp add: None)
    next
      case False
      define it1 where "it1 = (if int (ht_size (dict_ht d t)) \<le> i then it\<lparr>it_table := 1, it_index := 0\<rparr> else it\<lparr>it_index := i\<rparr>)"
      define b where "b = ht_table (dict_ht d (it_table it1)) ! nat (it_index it1)"
      have next_b: "dict_next_bucket d it = (it1, True)"
        using False by (auto simp: dict_next_bucket_def i_def t_def it1_def Let_def)
      have rest: "iter_rest d it = b @ iter_rest d it1"
      proof (cases "int (ht_size (dict_ht d t)) \<le> i")
        case True
        then have r: "dictIsRehashing d" "t = 0" using False by simp_all
        then have "0 < length (ht_table (ht1 d))" using "1.prems" by (simp add: tables_ok_def)
        from drop_bucket [OF this] show ?thesis
          using True None len i r by (simp add: iter_rest_def it1_def b_def t_def i_def dict_ht_def)
      next
        case False
        then have "nat i < length (ht_table (dict_ht d t))" using len i by simp
        from drop_bucket [OF this] show ?thesis
          using False None i by (simp add: iter_rest_def it1_def b_def t_def i_def Suc_nat_eq_nat_zadd1 add.commute)
      qed
      have i1: "- 1 \<le> it_index it1" "it_entry it1 = None" using i None by (simp_all add: it1_def)
      show ?thesis
      proof (cases b)
        case Nil
        then have "dict_next_loop d it = dict_next_loop d it1"
          by (subst dict_next_loop.simps) (simp add: None next_b b_def)
        then show ?thesis
          using "1.IH"(1) [OF None next_b [symmetric] refl Nil [unfolded b_def] "1.prems"(1) i1(1)] rest Nil by simp
      next
        case (Cons e es)
        then have "dict_next_loop d it = (it1\<lparr>it_entry := Some e, it_next := es\<rparr>, Some e)"
          by (subst dict_next_loop.simps) (simp add: None next_b b_def)
        then show ?thesis using rest i1 Cons by (simp add: iter_rest_def)
      qed
    qed
  qed
qed

lemma next_bucket_safe: "dict_next_bucket d it = (it', r) \<Longrightarrow> it_safe it' = it_safe it"
  by (auto simp: dict_next_bucket_def Let_def split: if_splits)

lemma next_loop_safe: "it_safe (fst (dict_next_loop d it)) = it_safe it"
proof (induction d it rule: dict_next_loop.induct)
  case (1 d it)
  show ?case
  proof (cases "it_entry it")
    case (Some e)
    then show ?thesis
      using "1.IH"(2) [OF Some] by (subst dict_next_loop.simps) (simp split: list.split)
  next
    case None
    obtain it1 r where n: "dict_next_bucket d it = (it1, r)" by fastforce
    then show ?thesis
      using "1.IH"(1) [OF None n [symmetric]] next_bucket_safe [OF n]
      by (cases r; subst dict_next_loop.simps) (simp_all add: None n split: list.split)
  qed
qed

lemma drain_all:
  assumes "tables_ok d" and "- 1 \<le> it_index it" and "\<not> it_safe it"
  shows "dict_drain d it acc = Some (d, acc @ iter_rest d it)"
  using assms(2,3)
proof (induction "iter_rest d it" arbitrary: it acc)
  case Nil
  obtain it' r where l: "dict_next_loop d it = (it', r)" by fastforce
  then have "r = None" "\<not> it_safe it'"
    using next_loop_rest [OF assms(1) Nil.prems(1)] Nil next_loop_safe [of d it] by (simp_all split: list.splits)
  then show ?case
    using l Nil by (subst dict_drain.simps) (simp add: dictNext_def dictReleaseIterator_def)
next
  case (Cons e es)
  obtain it' r where l: "dict_next_loop d it = (it', r)" by fastforce
  then have n: "r = Some e" "es = iter_rest d it'" "- 1 \<le> it_index it'" "\<not> it_safe it'"
    using next_loop_rest [OF assms(1) Cons.prems(1)] Cons.hyps(2) [symmetric] Cons.prems(2) next_loop_safe [of d it] by simp_all
  have "dict_drain d it acc = dict_drain d it' (acc @ [e])"
    using l n Cons.prems(2) by (subst dict_drain.simps) (simp add: dictNext_def)
  then show ?case using Cons.hyps(1) [OF n(2-4), of "acc @ [e]"] Cons.hyps(2) n(2) by simp
qed

text \<open>An iteration returns every entry once: those of the first table, then, during a rehash, of the second.\<close>

lemma rest_all: "dict_inv ty cn d \<Longrightarrow> iter_rest d dictGetIterator = dict_entries d"
  by (simp add: iter_rest_def dictGetIterator_def dict_entries_def dict_ht_def dict_inv_def split: if_splits)

lemma drain_entries: "dict_inv ty cn d \<Longrightarrow> dict_drain d dictGetIterator [] = Some (d, dict_entries d)"
  using drain_all [OF inv_tables, of ty cn d dictGetIterator "[]"] rest_all [of ty cn d]
  by (simp add: dictGetIterator_def)

end
