(* ===== verification/Set_Type.thy ===== *)
theory Set_Type
  imports Objects Dict_Iter
begin

text \<open>
  The set type of \<^verbatim>\<open>t_set.c\<close>: sets as integer sets (\<^verbatim>\<open>intset.c\<close>) or as hash tables
  (\<^verbatim>\<open>dict.c\<close>), the conversion from the first to the second, and iteration over both.  Every
  operation keeps the representation and acts on the elements as the operation on sets does, so
  that a caller cannot tell the two apart but by the order of iteration.
\<close>

section \<open>Iteration\<close>

datatype set_encoding = REDIS_ENCODING_INTSET | REDIS_ENCODING_HT

text \<open>The fields \<^verbatim>\<open>ii\<close> and \<^verbatim>\<open>di\<close>, of which the encoding selects one.\<close>

datatype setTypeIterator = Iter_INTSET nat | Iter_HT "(strobj, unit) dictIterator"

text \<open>What \<^verbatim>\<open>setTypeNext\<close> returns through its two pointers, with the encoding as the tag.\<close>

datatype set_element = Element_Obj strobj | Element_Int u64

definition setTypeInitIterator :: "setobj \<Rightarrow> setTypeIterator" where
  "setTypeInitIterator so =
     (case so of SetHT d \<Rightarrow> Iter_HT dictGetIterator | SetIntset is \<Rightarrow> Iter_INTSET 0)"

text \<open>
  The dictionary iterators are unsafe ones, and so \<^verbatim>\<open>dictNext\<close> leaves the dictionary alone
  (lemma \<open>next_unsafe\<close> below).  The encoding of a set does not change while it is iterated.
\<close>

fun setTypeNext :: "setobj \<Rightarrow> setTypeIterator \<Rightarrow> setTypeIterator \<times> set_element option" where
  "setTypeNext (SetHT d) (Iter_HT di) =
     (case dictNext d di of
        (d, di, None) \<Rightarrow> (Iter_HT di, None)
      | (d, di, Some de) \<Rightarrow> (Iter_HT di, Some (Element_Obj (de_key de))))"
| "setTypeNext (SetIntset is) (Iter_INTSET ii) =
     (Iter_INTSET (ii + 1), map_option Element_Int (intsetGet is ii))"
| "setTypeNext so si = (si, None)"

definition element_object :: "set_element \<Rightarrow> strobj" where
  "element_object e =
     (case e of Element_Int v \<Rightarrow> createStringObjectFromLongLong (sint v) | Element_Obj ob \<Rightarrow> ob)"

definition setTypeNextObject :: "setobj \<Rightarrow> setTypeIterator \<Rightarrow> setTypeIterator \<times> strobj option" where
  "setTypeNextObject so si =
     (case setTypeNext so si of (si, e) \<Rightarrow> (si, map_option element_object e))"

text \<open>
  \<^verbatim>\<open>while((encoding = setTypeNext(si,&eleobj,&intobj)) != -1)\<close> with a body that works on the
  state \<open>st\<close>, and the same with \<^verbatim>\<open>setTypeNextObject\<close>.
\<close>

partial_function (option) set_loop ::
    "(set_element \<Rightarrow> 's \<Rightarrow> 's option) \<Rightarrow> setobj \<Rightarrow> setTypeIterator \<Rightarrow> 's \<Rightarrow> 's option" where
  "set_loop body so si st =
     (case setTypeNext so si of
        (si, None) \<Rightarrow> Some st
      | (si, Some e) \<Rightarrow> do { st \<leftarrow> body e st; set_loop body so si st })"

definition set_object_loop :: "(strobj \<Rightarrow> 's \<Rightarrow> 's option) \<Rightarrow> setobj \<Rightarrow> setTypeIterator \<Rightarrow> 's \<Rightarrow> 's option" where
  "set_object_loop body = set_loop (\<lambda>e. body (element_object e))"

lemma set_object_loop_simps:
  "set_object_loop body so si st =
     (case setTypeNextObject so si of
        (si, None) \<Rightarrow> Some st
      | (si, Some ob) \<Rightarrow> do { st \<leftarrow> body ob st; set_object_loop body so si st })"
  by (subst set_object_loop_def, subst set_loop.simps)
    (simp add: set_object_loop_def setTypeNextObject_def split: prod.split option.split)

section \<open>Operations\<close>

definition createSetObject :: setobj where
  "createSetObject = SetHT dictCreate"

definition createIntsetObject :: setobj where
  "createIntsetObject = SetIntset intsetNew"

definition setTypeCreate :: "strobj \<Rightarrow> setobj" where
  "setTypeCreate value =
     (if isObjectRepresentableAsLongLong value \<noteq> None then createIntsetObject else createSetObject)"

definition setTypeSize :: "setobj \<Rightarrow> nat" where
  "setTypeSize so = (case so of SetHT d \<Rightarrow> dictSize d | SetIntset is \<Rightarrow> intsetLen is)"

text \<open>Of the server the operations read the hash seed, the resize setting and the limit of integer sets.\<close>

definition set_dictAdd :: "server \<Rightarrow> (strobj, unit) dict \<Rightarrow> strobj \<Rightarrow> (strobj, unit) dict \<times> bool" where
  "set_dictAdd s d ob = dictAdd (setDictType (hash_seed s)) (can_resize s) d ob ()"

text \<open>\<open>None\<close> is a failed assertion, or an encoding with no conversion.\<close>

definition convert_element :: "server \<Rightarrow> set_element \<Rightarrow> (strobj, unit) dict \<Rightarrow> (strobj, unit) dict option" where
  "convert_element s e d =
     (case e of
        Element_Int intele \<Rightarrow>
          (case set_dictAdd s d (createStringObjectFromLongLong (sint intele)) of
             (d, True) \<Rightarrow> Some d
           | (d, False) \<Rightarrow> None)
      | Element_Obj _ \<Rightarrow> None)"

definition setTypeConvert :: "server \<Rightarrow> setobj \<Rightarrow> set_encoding \<Rightarrow> setobj option" where
  "setTypeConvert s so enc =
     (case so of
        SetHT _ \<Rightarrow> None
      | SetIntset is \<Rightarrow>
          if enc = REDIS_ENCODING_HT then do {
            let d = fst (dictExpand dictCreate (intsetLen is));
            d \<leftarrow> set_loop (convert_element s) so (setTypeInitIterator so) d;
            Some (SetHT d)
          } else None)"

definition setTypeAdd :: "server \<Rightarrow> setobj \<Rightarrow> strobj \<Rightarrow> (setobj \<times> bool) option" where
  "setTypeAdd s so value =
     (case so of
        SetHT d \<Rightarrow> (case set_dictAdd s d value of (d, ok) \<Rightarrow> Some (SetHT d, ok))
      | SetIntset is \<Rightarrow>
          (case isObjectRepresentableAsLongLong value of
             Some llval \<Rightarrow>
               (case intsetAdd is llval of
                  (is, True) \<Rightarrow>
                    if set_max_intset_entries s < intsetLen is then do {
                      so \<leftarrow> setTypeConvert s (SetIntset is) REDIS_ENCODING_HT;
                      Some (so, True)
                    } else Some (SetIntset is, True)
                | (is, False) \<Rightarrow> Some (SetIntset is, False))
           | None \<Rightarrow> do {
               so \<leftarrow> setTypeConvert s so REDIS_ENCODING_HT;
               case so of
                 SetHT d \<Rightarrow>
                   (case set_dictAdd s d value of
                      (d, True) \<Rightarrow> Some (SetHT d, True)
                    | (d, False) \<Rightarrow> None)
               | SetIntset _ \<Rightarrow> None
             }))"

definition REDIS_HT_MINFILL :: nat where "REDIS_HT_MINFILL = 10"

definition htNeedsResize :: "('k, 'v) dict \<Rightarrow> bool" where
  "htNeedsResize d \<longleftrightarrow>
     (let sz = dictSlots d; used = dictSize d
      in sz \<noteq> 0 \<and> used \<noteq> 0 \<and> DICT_HT_INITIAL_SIZE < sz \<and> used * 100 div sz < REDIS_HT_MINFILL)"

definition setTypeRemove :: "server \<Rightarrow> setobj \<Rightarrow> strobj \<Rightarrow> setobj \<times> bool" where
  "setTypeRemove s so value =
     (case so of
        SetHT d \<Rightarrow>
          (case dictDelete (setDictType (hash_seed s)) d value of
             (d, True) \<Rightarrow> (SetHT (if htNeedsResize d then fst (dictResize (can_resize s) d) else d), True)
           | (d, False) \<Rightarrow> (SetHT d, False))
      | SetIntset is \<Rightarrow>
          (case isObjectRepresentableAsLongLong value of
             Some llval \<Rightarrow> (case intsetRemove is llval of (is, success) \<Rightarrow> (SetIntset is, success))
           | None \<Rightarrow> (SetIntset is, False)))"

text \<open>The set is returned as well: \<^verbatim>\<open>dictFind\<close> performs a rehash step.\<close>

definition setTypeIsMember :: "server \<Rightarrow> setobj \<Rightarrow> strobj \<Rightarrow> setobj \<times> bool" where
  "setTypeIsMember s so value =
     (case so of
        SetHT d \<Rightarrow> (case dictFind (setDictType (hash_seed s)) d value of (d, de) \<Rightarrow> (SetHT d, de \<noteq> None))
      | SetIntset is \<Rightarrow>
          (case isObjectRepresentableAsLongLong value of
             Some llval \<Rightarrow> (SetIntset is, intsetFind is llval)
           | None \<Rightarrow> (SetIntset is, False)))"

section \<open>The elements of a set\<close>

definition setobj_ok :: "u32 \<Rightarrow> setobj \<Rightarrow> bool" where
  "setobj_ok seed so =
     (case so of
        SetIntset is \<Rightarrow> intset_inv is \<and> card (intset_set is) < intset_cap
      | SetHT d \<Rightarrow> dict_inv (setDictType seed) getDecodedObject d)"

definition set_elems :: "setobj \<Rightarrow> bytes set" where
  "set_elems so =
     (case so of
        SetIntset is \<Rightarrow> (\<lambda>v. dec_int (sint v)) ` intset_set is
      | SetHT d \<Rightarrow> dom (dict_map getDecodedObject d))"

text \<open>The representation alone, without the bound on the size of an integer set.\<close>

definition set_rep :: "u32 \<Rightarrow> setobj \<Rightarrow> bool" where
  "set_rep seed so =
     (case so of
        SetIntset is \<Rightarrow> intset_inv is
      | SetHT d \<Rightarrow> dict_inv (setDictType seed) getDecodedObject d)"

lemma ok_rep: "setobj_ok seed so \<Longrightarrow> set_rep seed so"
  by (simp add: setobj_ok_def set_rep_def split: setobj.splits)

text \<open>The elements in the order of iteration, as the iterator and as the object iterator return them.\<close>

definition set_list :: "setobj \<Rightarrow> set_element list" where
  "set_list so =
     (case so of
        SetIntset is \<Rightarrow> map Element_Int (intset_vals is)
      | SetHT d \<Rightarrow> map (\<lambda>e. Element_Obj (de_key e)) (dict_entries d))"

definition set_objects :: "setobj \<Rightarrow> strobj list" where
  "set_objects so = map element_object (set_list so)"

lemma element_text_int [simp]: "getDecodedObject (element_object (Element_Int v)) = dec_int (sint v)"
proof -
  have "- (2 ^ 63) \<le> sint v" "sint v < 2 ^ 63" using sint_lt [of v] sint_ge [of v] by simp_all
  then show ?thesis by (simp add: element_object_def decoded_from_long_long)
qed

lemma element_text_obj [simp]: "element_object (Element_Obj ob) = ob"
  by (simp add: element_object_def)

lemma set_objects_elems:
  assumes "set_rep seed so"
  shows "distinct (map getDecodedObject (set_objects so))" "getDecodedObject ` set (set_objects so) = set_elems so"
proof -
  have "distinct (map getDecodedObject (set_objects so)) \<and> getDecodedObject ` set (set_objects so) = set_elems so"
  proof (cases so)
    case (SetIntset "is")
    then obtain xs where xs: "intset_rep is xs" using assms by (auto simp: set_rep_def intset_inv_def)
    then have "distinct (map sint (intset_vals is))"
      using rep_vals [OF xs] by (simp add: intset_rep_def strict_sorted_iff)
    then have "distinct (intset_vals is)" by (rule distinct_map [THEN iffD1, THEN conjunct1])
    moreover have "inj_on (\<lambda>v. dec_int (sint (v :: u64))) A" for A
      by (rule inj_onI) (rule dec_int_sint_inj)
    ultimately have "distinct (map (\<lambda>v. dec_int (sint v)) (intset_vals is))" by (simp add: distinct_map)
    then show ?thesis
      by (simp add: SetIntset set_objects_def set_list_def set_elems_def intset_set_def image_image comp_def)
  next
    case (SetHT d)
    then have inv: "dict_inv (setDictType seed) getDecodedObject d" using assms by (simp add: set_rep_def)
    have "entry_key getDecodedObject ` set (dict_entries d) = dom (dict_map getDecodedObject d)"
      by (auto simp: dict_map_def dom_map_of_conv_image_fst image_image)
    then show ?thesis
      using dict_inv_distinct [OF inv]
      by (simp add: SetHT set_objects_def set_list_def set_elems_def image_image comp_def)
  qed
  then show "distinct (map getDecodedObject (set_objects so))" "getDecodedObject ` set (set_objects so) = set_elems so"
    by simp_all
qed

section \<open>Loops over a set\<close>

lemma next_unsafe: "\<not> it_safe di \<Longrightarrow> fst (dictNext d di) = d"
  by (simp add: dictNext_def Let_def)

text \<open>The elements an iterator has yet to return.\<close>

definition iter_ok :: "setobj \<Rightarrow> setTypeIterator \<Rightarrow> bool" where
  "iter_ok so si =
     (case (so, si) of
        (SetHT d, Iter_HT di) \<Rightarrow> tables_ok d \<and> - 1 \<le> it_index di \<and> \<not> it_safe di
      | (SetIntset is, Iter_INTSET ii) \<Rightarrow> True
      | _ \<Rightarrow> False)"

definition set_rest :: "setobj \<Rightarrow> setTypeIterator \<Rightarrow> set_element list" where
  "set_rest so si =
     (case (so, si) of
        (SetHT d, Iter_HT di) \<Rightarrow> map (\<lambda>e. Element_Obj (de_key e)) (iter_rest d di)
      | (SetIntset is, Iter_INTSET ii) \<Rightarrow> map Element_Int (drop ii (intset_vals is))
      | _ \<Rightarrow> [])"

lemma setTypeNext_rest:
  assumes "iter_ok so si" and "setTypeNext so si = (si', r)"
  shows "iter_ok so si' \<and> (case set_rest so si of [] \<Rightarrow> r = None | e # es \<Rightarrow> r = Some e \<and> set_rest so si' = es)"
proof (cases so)
  case (SetHT d)
  then obtain di where si: "si = Iter_HT di" "tables_ok d" "- 1 \<le> it_index di" "\<not> it_safe di"
    using assms(1) by (cases si) (simp_all add: iter_ok_def)
  obtain di' e where l: "dict_next_loop d di = (di', e)" by fastforce
  then have n: "dictNext d di = (d, di', e)" using si(4) by (simp add: dictNext_def)
  have "\<not> it_safe di'" using next_loop_safe [of d di] si(4) l by simp
  then show ?thesis
    using next_loop_rest [OF si(2,3)] assms(2) si n l
    by (cases e; cases "iter_rest d di") (auto simp: SetHT iter_ok_def set_rest_def)
next
  case (SetIntset "is")
  then obtain ii where si: "si = Iter_INTSET ii" using assms(1) by (cases si) (simp_all add: iter_ok_def)
  show ?thesis
  proof (cases "ii < intsetLen is")
    case True
    then have "drop ii (intset_vals is) = intset_get_at is ii # drop (Suc ii) (intset_vals is)"
      by (simp add: intset_vals_def flip: Cons_nth_drop_Suc)
    with True show ?thesis
      using assms(2) by (auto simp: SetIntset si iter_ok_def set_rest_def intsetGet_def intsetLen_def)
  next
    case False
    then show ?thesis
      using assms(2) by (auto simp: SetIntset si iter_ok_def set_rest_def intsetGet_def intset_vals_def intsetLen_def)
  qed
qed

lemma set_loop_rest: "iter_ok so si \<Longrightarrow> set_loop body so si st = foldM body (set_rest so si) st"
proof (induction "set_rest so si" arbitrary: si st)
  case Nil
  obtain si' r where n: "setTypeNext so si = (si', r)" by fastforce
  then have "r = None" using setTypeNext_rest [OF Nil.prems n] Nil(1) [symmetric] by simp
  then show ?case using Nil n by (subst set_loop.simps) simp
next
  case (Cons e es)
  obtain si' r where n: "setTypeNext so si = (si', r)" by fastforce
  then have r: "r = Some e" "set_rest so si' = es" "iter_ok so si'"
    using setTypeNext_rest [OF Cons.prems n] Cons(2) [symmetric] by simp_all
  have "set_loop body so si st = body e st \<bind> set_loop body so si'"
    using n r by (subst set_loop.simps) simp
  also have "set_loop body so si' = foldM body es"
    by (rule ext) (use Cons(1) [OF r(2) [symmetric] r(3)] r(2) in simp)
  finally show ?case using Cons(2) by (metis foldM.simps(2))
qed

lemma foldM_map: "foldM f (map g xs) = foldM (\<lambda>x. f (g x)) xs"
  by (induction xs) (auto intro!: ext)

text \<open>A loop over a set is a loop over the list of its elements.\<close>

lemma set_loop_list:
  assumes "set_rep seed so"
  shows "set_loop body so (setTypeInitIterator so) st = foldM body (set_list so) st"
    and "set_object_loop obody so (setTypeInitIterator so) st = foldM obody (set_objects so) st"
proof -
  have "iter_ok so (setTypeInitIterator so) \<and> set_rest so (setTypeInitIterator so) = set_list so"
  proof (cases so)
    case (SetHT d)
    then have inv: "dict_inv (setDictType seed) getDecodedObject d" using assms by (simp add: set_rep_def)
    from inv_tables [OF inv] rest_all [OF inv] show ?thesis
      by (simp add: SetHT setTypeInitIterator_def iter_ok_def set_rest_def set_list_def)
        (simp add: dictGetIterator_def)
  qed (simp add: setTypeInitIterator_def iter_ok_def set_rest_def set_list_def)
  then have all: "set_loop b so (setTypeInitIterator so) st = foldM b (set_list so) st" for b
    by (simp add: set_loop_rest)
  show "set_loop body so (setTypeInitIterator so) st = foldM body (set_list so) st" by (rule all)
  show "set_object_loop obody so (setTypeInitIterator so) st = foldM obody (set_objects so) st"
    by (simp add: set_object_loop_def all set_objects_def foldM_map)
qed

section \<open>Conversion\<close>

lemma set_dictAdd_props:
  assumes "dict_inv (setDictType (hash_seed s)) getDecodedObject d" and "set_dictAdd s d ob = (d', ok)"
  shows "dict_inv (setDictType (hash_seed s)) getDecodedObject d'"
    "ok \<longleftrightarrow> getDecodedObject ob \<notin> dom (dict_map getDecodedObject d)"
    "dom (dict_map getDecodedObject d') = insert (getDecodedObject ob) (dom (dict_map getDecodedObject d))"
  using dictAdd_props [OF setDictType_ok assms(1) assms(2) [unfolded set_dictAdd_def]]
  by (auto split: if_splits)

lemma setTypeConvert_ok:
  assumes "intset_inv is"
  shows "wp (setTypeConvert s (SetIntset is) REDIS_ENCODING_HT) (\<lambda>so'. \<exists>d. so' = SetHT d \<and>
    setobj_ok (hash_seed s) so' \<and> set_elems so' = set_elems (SetIntset is))"
proof -
  let ?so = "SetIntset is"
  let ?ty = "setDictType (hash_seed s)"
  have rep: "set_rep (hash_seed s) ?so" using assms by (simp add: set_rep_def)
  define d0 where "d0 = fst (dictExpand (dictCreate :: (strobj, unit) dict) (intsetLen is))"
  define I where "I = (\<lambda>es (d :: (strobj, unit) dict). dict_inv ?ty getDecodedObject d \<and>
    distinct (map (getDecodedObject \<circ> element_object) es) \<and> (\<forall>e \<in> set es. \<exists>v. e = Element_Int v) \<and>
    dom (dict_map getDecodedObject d) \<inter> (getDecodedObject \<circ> element_object) ` set es = {} \<and>
    dom (dict_map getDecodedObject d) \<union> (getDecodedObject \<circ> element_object) ` set es = set_elems ?so)"
  have "same_content ?ty getDecodedObject dictCreate d0"
    using dictExpand_same(1) [of ?ty getDecodedObject dictCreate] by (metis d0_def dict_inv_create prod.collapse)
  then have d0: "dict_inv ?ty getDecodedObject d0" "dict_map getDecodedObject d0 = Map.empty"
    using same_contentD [OF dict_inv_create] by (simp_all)
  have "I (set_list ?so) d0"
    using d0 set_objects_elems [OF rep] unfolding I_def
    by (auto simp: set_objects_def set_list_def image_image comp_assoc)
  then have "wp (foldM (convert_element s) (set_list ?so) d0) (I [])"
  proof (rule foldM_inv [rotated])
    show "wp (convert_element s e d) (I es)" if i: "I (e # es) d" for e es d
    proof -
      obtain v where e: "e = Element_Int v" using i by (auto simp: I_def)
      define ob where "ob = createStringObjectFromLongLong (sint v)"
      have ob: "element_object e = ob" by (simp add: e ob_def element_object_def)
      obtain d' ok where a: "set_dictAdd s d ob = (d', ok)" by fastforce
      note p = set_dictAdd_props [OF _ a]
      have "ok" using p(2) i by (auto simp: I_def ob)
      have obt: "getDecodedObject ob = dec_int (sint v)" using ob e by (metis element_text_int)
      show ?thesis
        using p i \<open>ok\<close> by (auto simp: convert_element_def e ob_def [symmetric] a I_def obt)
    qed
  qed
  then show ?thesis
    unfolding setTypeConvert_def setobj.case set_loop_list [OF rep] d0_def [symmetric]
    by (simp add: Let_def wp_def I_def setobj_ok_def set_elems_def split: option.splits)
qed

section \<open>The set operations\<close>

definition set_inv :: "server \<Rightarrow> setobj \<Rightarrow> bool" where
  "set_inv s so \<longleftrightarrow> setobj_ok (hash_seed s) so \<and> set_max_intset_entries s < intset_cap"

lemma intset_text: "dec_int (sint v) \<in> set_elems (SetIntset is) \<longleftrightarrow> v \<in> intset_set is"
  using dec_int_sint_inj by (auto simp: set_elems_def)

lemma represented: "isObjectRepresentableAsLongLong ob = Some v \<Longrightarrow> getDecodedObject ob = dec_int (sint v)"
  by (simp add: representable string2ll_iff)

lemma not_represented: "isObjectRepresentableAsLongLong ob = None \<Longrightarrow> getDecodedObject ob \<notin> set_elems (SetIntset is)"
  by (auto simp: representable set_elems_def string2ll_complete)

lemma setTypeAdd_ok:
  assumes "set_inv s so"
  shows "wp (setTypeAdd s so ob) (\<lambda>(so', ok). set_inv s so' \<and>
    (ok \<longleftrightarrow> getDecodedObject ob \<notin> set_elems so) \<and> set_elems so' = insert (getDecodedObject ob) (set_elems so))"
proof (cases so)
  case (SetHT d)
  obtain d' ok where a: "set_dictAdd s d ob = (d', ok)" by fastforce
  from set_dictAdd_props [OF _ a] assms show ?thesis
    by (simp add: SetHT setTypeAdd_def a set_inv_def setobj_ok_def set_elems_def)
next
  case (SetIntset "is")
  then have inv: "intset_inv is" "card (intset_set is) < intset_cap" and maxe: "set_max_intset_entries s < intset_cap"
    using assms by (simp_all add: set_inv_def setobj_ok_def)
  show ?thesis
  proof (cases "isObjectRepresentableAsLongLong ob")
    case (Some v)
    note t = represented [OF Some]
    obtain is' ok where a: "intsetAdd is v = (is', ok)" by fastforce
    note l = intset.add_law [OF inv a]
    have el: "set_elems (SetIntset is') = insert (getDecodedObject ob) (set_elems so)"
      using l by (simp add: SetIntset set_elems_def t)
    have okk: "ok \<longleftrightarrow> getDecodedObject ob \<notin> set_elems so" using l by (simp add: SetIntset t intset_text)
    show ?thesis
    proof (cases "ok \<and> set_max_intset_entries s < intsetLen is'")
      case True
      have "wp (setTypeConvert s (SetIntset is') REDIS_ENCODING_HT) (\<lambda>so'. set_inv s so' \<and> set_elems so' = set_elems (SetIntset is'))"
        using l by (intro wp_mono [OF setTypeConvert_ok]) (auto simp: set_inv_def maxe)
      then have "wp (setTypeConvert s (SetIntset is') REDIS_ENCODING_HT) (\<lambda>so'. set_inv s so' \<and> True = ok \<and>
          set_elems so' = insert (getDecodedObject ob) (set_elems so))"
        by (rule wp_mono) (simp add: el True)
      then show ?thesis using True okk by (simp add: SetIntset setTypeAdd_def Some a)
    next
      case False
      then have "set_inv s (SetIntset is')"
        using l maxe inv intset.count_card [of is'] by (auto simp: set_inv_def setobj_ok_def insert_absorb)
      then show ?thesis
        using False okk el by (cases ok) (simp_all add: SetIntset setTypeAdd_def Some a)
    qed
  next
    case None
    show ?thesis
      unfolding setTypeAdd_def SetIntset setobj.case None option.case wp_bind
    proof (rule wp_mono [OF setTypeConvert_ok])
      show "intset_inv is" by (rule inv)
      fix so'
      assume "\<exists>d. so' = SetHT d \<and> setobj_ok (hash_seed s) so' \<and> set_elems so' = set_elems (SetIntset is)"
      then obtain d where d: "so' = SetHT d" "setobj_ok (hash_seed s) so'" "set_elems so' = set_elems (SetIntset is)" by blast
      obtain d' ok where a: "set_dictAdd s d ob = (d', ok)" by fastforce
      have inv_d: "dict_inv (setDictType (hash_seed s)) getDecodedObject d" using d by (simp add: setobj_ok_def)
      note p = set_dictAdd_props [OF inv_d a]
      have ok: "ok" using p(2) d(1,3) not_represented [OF None, of "is"] by (simp add: set_elems_def)
      show "wp (case so' of SetHT d \<Rightarrow> (case set_dictAdd s d ob of (d, True) \<Rightarrow> Some (SetHT d, True) | (d, False) \<Rightarrow> None)
          | SetIntset _ \<Rightarrow> None) (\<lambda>(so', ok). set_inv s so' \<and>
          (ok \<longleftrightarrow> getDecodedObject ob \<notin> set_elems (SetIntset is)) \<and>
          set_elems so' = insert (getDecodedObject ob) (set_elems (SetIntset is)))"
        using p ok d maxe not_represented [OF None, of "is"]
        by (simp add: a set_inv_def setobj_ok_def) (simp add: set_elems_def)
    qed
  qed
qed

lemma setTypeRemove_ok:
  assumes "set_inv s so" and r: "setTypeRemove s so ob = (so', ok)"
  shows "set_inv s so' \<and> (ok \<longleftrightarrow> getDecodedObject ob \<in> set_elems so) \<and> set_elems so' = set_elems so - {getDecodedObject ob}"
proof (cases so)
  case (SetHT d)
  let ?ty = "setDictType (hash_seed s)"
  have inv: "dict_inv ?ty getDecodedObject d" using assms by (simp add: SetHT set_inv_def setobj_ok_def)
  obtain d1 ok1 where del: "dictDelete ?ty d ob = (d1, ok1)" by fastforce
  note p = dictDelete_props [OF setDictType_ok inv del]
  define d2 where "d2 = (if ok1 \<and> htNeedsResize d1 then fst (dictResize (can_resize s) d1) else d1)"
  have "same_content ?ty getDecodedObject d1 d2"
    using dictResize_same [OF p(1)] same_content_refl [OF p(1)] by (metis d2_def prod.collapse)
  note c = same_contentD [OF p(1) this]
  have "so' = SetHT d2 \<and> ok = ok1" using r by (cases ok1) (auto simp: SetHT setTypeRemove_def del d2_def)
  then show ?thesis
    using assms(1) c p by (auto simp: SetHT set_inv_def setobj_ok_def set_elems_def)
next
  case (SetIntset "is")
  show ?thesis
  proof (cases "isObjectRepresentableAsLongLong ob")
    case (Some v)
    obtain is' ok1 where a: "intsetRemove is v = (is', ok1)" by fastforce
    have inv: "intset_inv is" "card (intset_set is) < intset_cap"
      using assms by (simp_all add: SetIntset set_inv_def setobj_ok_def)
    note l = intset.del_law [OF inv(1) a]
    have "card (intset_set is') \<le> card (intset_set is)"
      using l card_mono [OF intset.finite_abs [OF inv(1)], of "intset_set is'"] by auto
    moreover have "set_elems (SetIntset is') = set_elems so - {getDecodedObject ob}"
      using l dec_int_sint_inj by (auto simp: SetIntset set_elems_def represented [OF Some])
    moreover have "so' = SetIntset is' \<and> ok = ok1" using r by (simp add: SetIntset setTypeRemove_def Some a)
    ultimately show ?thesis
      using l inv assms(1) by (auto simp: SetIntset set_inv_def setobj_ok_def represented [OF Some] intset_text)
  next
    case None
    then show ?thesis
      using assms not_represented [OF None, of "is"] by (auto simp: SetIntset setTypeRemove_def)
  qed
qed

lemma setTypeIsMember_ok:
  assumes "set_inv s so" and r: "setTypeIsMember s so ob = (so', yes)"
  shows "set_inv s so' \<and> (yes \<longleftrightarrow> getDecodedObject ob \<in> set_elems so) \<and> set_elems so' = set_elems so"
proof (cases so)
  case (SetHT d)
  let ?ty = "setDictType (hash_seed s)"
  have inv: "dict_inv ?ty getDecodedObject d" using assms by (simp add: SetHT set_inv_def setobj_ok_def)
  obtain d1 he where f: "dictFind ?ty d ob = (d1, he)" by fastforce
  note p = dictFind_props [OF setDictType_ok inv f]
  note c = same_contentD [OF inv p(1)]
  have "so' = SetHT d1 \<and> (yes \<longleftrightarrow> he \<noteq> None)" using r by (auto simp: SetHT setTypeIsMember_def f)
  then show ?thesis
    using assms(1) c p(2) by (auto simp: SetHT set_inv_def setobj_ok_def set_elems_def)
next
  case (SetIntset "is")
  have inv: "intset_inv is" using assms by (simp add: SetIntset set_inv_def setobj_ok_def)
  show ?thesis
  proof (cases "isObjectRepresentableAsLongLong ob")
    case None
    then show ?thesis using assms not_represented [OF None, of "is"] by (simp add: SetIntset setTypeIsMember_def)
  next
    case (Some v)
    have "yes \<longleftrightarrow> v \<in> intset_set is" "so' = so"
      using r intset.mem_law [OF inv] by (auto simp: SetIntset setTypeIsMember_def Some)
    then show ?thesis using assms(1) by (simp add: represented [OF Some] SetIntset intset_text)
  qed
qed

lemma setTypeSize_card: "set_inv s so \<Longrightarrow> setTypeSize so = card (set_elems so)"
proof -
  assume a: "set_inv s so"
  have "inj_on (\<lambda>v. dec_int (sint (v :: u64))) A" for A
    by (rule inj_onI) (rule dec_int_sint_inj)
  moreover have "dictSize d = card (dom (dict_map getDecodedObject d))" if "so = SetHT d" for d
    using a that dictSize_card by (auto simp: set_inv_def setobj_ok_def)
  ultimately show ?thesis
    using a by (cases so) (simp_all add: setTypeSize_def set_elems_def set_inv_def setobj_ok_def
        intset.count_card card_image)
qed

interpretation sets: object_set "set_inv s" getDecodedObject set_elems "setTypeAdd s" "setTypeRemove s"
  "setTypeIsMember s" setTypeSize set_objects for s
proof unfold_locales
  show "setTypeSize so = card (set_elems so)" if "set_inv s so" for so using that by (rule setTypeSize_card)
  show "wp (setTypeAdd s so x) (\<lambda>(so', ok). set_inv s so' \<and> (ok \<longleftrightarrow> getDecodedObject x \<notin> set_elems so) \<and>
      set_elems so' = insert (getDecodedObject x) (set_elems so))" if "set_inv s so" for so x
    using that by (rule setTypeAdd_ok)
  show "set_inv s so' \<and> (ok \<longleftrightarrow> getDecodedObject x \<in> set_elems so) \<and> set_elems so' = set_elems so - {getDecodedObject x}"
    if "set_inv s so" "setTypeRemove s so x = (so', ok)" for so so' x ok
    using that by (rule setTypeRemove_ok)
  show "set_inv s so' \<and> (yes \<longleftrightarrow> getDecodedObject x \<in> set_elems so) \<and> set_elems so' = set_elems so"
    if "set_inv s so" "setTypeIsMember s so x = (so', yes)" for so so' x yes
    using that by (rule setTypeIsMember_ok)
  show "distinct (map getDecodedObject (set_objects so)) \<and> getDecodedObject ` set (set_objects so) = set_elems so"
    if "set_inv s so" for so
  proof -
    have "set_rep (hash_seed s) so" using that by (simp add: set_inv_def ok_rep)
    from set_objects_elems [OF this] show ?thesis by simp
  qed
qed

lemma set_inv_intset: "set_max_intset_entries s < intset_cap \<Longrightarrow> set_inv s createIntsetObject \<and> set_elems createIntsetObject = {}"
  using intset.abs_empty intset.inv_empty
  by (simp add: set_inv_def createIntsetObject_def setobj_ok_def set_elems_def intset_cap_def)

lemma set_inv_create: "set_max_intset_entries s < intset_cap \<Longrightarrow> set_inv s (setTypeCreate ob) \<and> set_elems (setTypeCreate ob) = {}"
  using set_inv_intset [of s]
  by (simp add: setTypeCreate_def createSetObject_def set_inv_def setobj_ok_def set_elems_def)

text \<open>The loops of the commands, on a set that is well-formed.\<close>

lemma loop_set:
  assumes "set_inv s so"
  shows "set_loop body so (setTypeInitIterator so) st = foldM body (set_list so) st"
    and "set_object_loop obody so (setTypeInitIterator so) st = foldM obody (set_objects so) st"
proof -
  have rep: "set_rep (hash_seed s) so" using assms by (simp add: set_inv_def ok_rep)
  show "set_loop body so (setTypeInitIterator so) st = foldM body (set_list so) st"
    by (rule set_loop_list(1) [OF rep])
  show "set_object_loop obody so (setTypeInitIterator so) st = foldM obody (set_objects so) st"
    by (rule set_loop_list(2) [OF rep])
qed

section \<open>The set type is a set\<close>

text \<open>A set object driven by a list of calls, and a set of texts driven by the same calls.\<close>

fun set_type_step :: "server \<Rightarrow> setobj option \<Rightarrow> strobj set_op \<Rightarrow> setobj option \<times> set_res" where
  "set_type_step s None op = (None, SFlag False)"
| "set_type_step s (Some so) (SAdd x) =
     (case setTypeAdd s so x of None \<Rightarrow> (None, SFlag False) | Some (so, ok) \<Rightarrow> (Some so, SFlag ok))"
| "set_type_step s (Some so) (SDel x) = (case setTypeRemove s so x of (so, ok) \<Rightarrow> (Some so, SFlag ok))"
| "set_type_step s (Some so) (SMem x) = (case setTypeIsMember s so x of (so, yes) \<Rightarrow> (Some so, SFlag yes))"
| "set_type_step s (Some so) SCount = (Some so, SNum (setTypeSize so))"

lemma set_type_step_simulates:
  assumes "case so of None \<Rightarrow> False | Some so \<Rightarrow> set_inv s so \<and> set_elems so = S"
  shows "(case fst (set_type_step s so op) of None \<Rightarrow> False
      | Some so' \<Rightarrow> set_inv s so' \<and> set_elems so' = fst (pure_set_step S (map_set_op getDecodedObject op))) \<and>
    snd (set_type_step s so op) = snd (pure_set_step S (map_set_op getDecodedObject op))"
proof -
  obtain t where so: "so = Some t" and t: "set_inv s t" "set_elems t = S" using assms by (cases so) simp_all
  show ?thesis
  proof (cases op)
    case (SAdd x)
    then show ?thesis using wp_not_None [OF setTypeAdd_ok [OF t(1), of x]] t by (auto simp: so)
  next
    case (SDel x)
    obtain t' ok where "setTypeRemove s t x = (t', ok)" by fastforce
    with setTypeRemove_ok [OF t(1) this] t SDel show ?thesis by (simp add: so)
  next
    case (SMem x)
    obtain t' ok where "setTypeIsMember s t x = (t', ok)" by fastforce
    with setTypeIsMember_ok [OF t(1) this] t SMem show ?thesis by (simp add: so)
  qed (use t in \<open>simp_all add: so setTypeSize_card [OF t(1)]\<close>)
qed


end
