(* ===== verification/Watch.thy ===== *)
theory Watch
  imports Set_Type
begin

text \<open>
  WATCH (\<^verbatim>\<open>multi.c\<close>): per database a table from keys to the clients watching them, per client
  the list of keys it watches, and the flag that makes its next EXEC fail.  Also the calculus of
  the command proofs: total correctness of a handler, and what a handler may do to the server.
\<close>

section \<open>Operations\<close>

definition watchForKey :: "nat \<Rightarrow> bytes \<Rightarrow> server \<Rightarrow> server" where
  "watchForKey c key s =
     (let d = client_db s c
      in if list_ex (\<lambda>(k, kd). kd = d \<and> equalStringObjects (ObjRaw key) (ObjRaw k)) (c_watched (sv_client s c))
         then s
         else
           let clients = (case db_watched (sv_db s d) key of None \<Rightarrow> [] | Some ws \<Rightarrow> ws);
               s = upd_db d (db_watched_update (\<lambda>t. t(key \<mapsto> clients @ [c]))) s
           in upd_client c (c_watched_update (\<lambda>l. l @ [(key, d)])) s)"

text \<open>One round of the loop of \<^verbatim>\<open>unwatchAllKeys\<close> for each entry of the list.\<close>

fun unwatch_loop :: "nat \<Rightarrow> (bytes \<times> nat) list \<Rightarrow> server \<Rightarrow> server option" where
  "unwatch_loop c [] s = Some s"
| "unwatch_loop c ((key, d) # wks) s =
     (case db_watched (sv_db s d) key of
        None \<Rightarrow> None
      | Some clients \<Rightarrow>
          if c \<notin> set clients then None
          else
            let clients = remove1 c clients;
                s = upd_db d (db_watched_update (\<lambda>t. t(key := (if clients = [] then None else Some clients)))) s;
                s = upd_client c (c_watched_update (remove1 (key, d))) s
            in unwatch_loop c wks s)"

definition unwatchAllKeys :: "nat \<Rightarrow> server \<Rightarrow> server option" where
  "unwatchAllKeys c s =
     (if c_watched (sv_client s c) = [] then Some s
      else unwatch_loop c (c_watched (sv_client s c)) s)"

definition flag_dirty_cas :: "nat \<Rightarrow> server \<Rightarrow> server" where
  "flag_dirty_cas w = upd_client w (c_flags_update (insert REDIS_DIRTY_CAS))"

definition touchWatchedKey :: "nat \<Rightarrow> bytes \<Rightarrow> server \<Rightarrow> server" where
  "touchWatchedKey d key s =
     (case db_watched (sv_db s d) key of
        None \<Rightarrow> s
      | Some clients \<Rightarrow> fold flag_dirty_cas clients s)"

text \<open>\<open>None\<close> as database number is -1: all of them.\<close>

definition touch_client_on_flush :: "nat option \<Rightarrow> nat \<Rightarrow> server \<Rightarrow> server" where
  "touch_client_on_flush dbid c s =
     fold (\<lambda>(key, d) s.
         if (dbid = None \<or> dbid = Some d) \<and> db_dict (sv_db s d) key \<noteq> None
         then flag_dirty_cas c s else s)
       (c_watched (sv_client s c)) s"

definition touchWatchedKeysOnFlush :: "nat option \<Rightarrow> server \<Rightarrow> server" where
  "touchWatchedKeysOnFlush dbid s = fold (touch_client_on_flush dbid) (sv_clients s) s"

definition signalModifiedKey :: "nat \<Rightarrow> bytes \<Rightarrow> server \<Rightarrow> server" where
  "signalModifiedKey d key = touchWatchedKey d key"

definition signalFlushedDb :: "nat option \<Rightarrow> server \<Rightarrow> server" where
  "signalFlushedDb dbid = touchWatchedKeysOnFlush dbid"

section \<open>The invariant of the server\<close>

text \<open>The two records of who watches what agree.\<close>

definition watch_ok :: "(nat \<Rightarrow> redisDb) \<Rightarrow> (nat \<Rightarrow> client) \<Rightarrow> bool" where
  "watch_ok db cl \<longleftrightarrow>
     (\<forall>w d k. (k, d) \<in> set (c_watched (cl w)) \<longleftrightarrow> (\<exists>ws. db_watched (db d) k = Some ws \<and> w \<in> set ws)) \<and>
     (\<forall>w. distinct (c_watched (cl w))) \<and>
     (\<forall>d k ws. db_watched (db d) k = Some ws \<longrightarrow> ws \<noteq> [] \<and> distinct ws)"

text \<open>Stored values: the sets are well-formed, and none is empty.\<close>

fun val_ok :: "u32 \<Rightarrow> robj \<Rightarrow> bool" where
  "val_ok seed (SetObj so) = (setobj_ok seed so \<and> set_elems so \<noteq> {})"
| "val_ok seed _ = True"

definition db_ok :: "u32 \<Rightarrow> redisDb \<Rightarrow> bool" where
  "db_ok seed db \<longleftrightarrow> finite (dom (db_dict db)) \<and> dom (db_expires db) \<subseteq> dom (db_dict db) \<and>
     (\<forall>k v. db_dict db k = Some v \<longrightarrow> val_ok seed v)"

definition server_ok :: "server \<Rightarrow> bool" where
  "server_ok s \<longleftrightarrow>
     (\<forall>d. db_ok (hash_seed s) (sv_db s d)) \<and>
     watch_ok (sv_db s) (sv_client s) \<and>
     (\<forall>w. c_watched (sv_client s w) \<noteq> [] \<longrightarrow> w \<in> set (sv_clients s)) \<and>
     (\<forall>w. c_db (sv_client s w) < sv_dbnum s) \<and>
     set_max_intset_entries s < intset_cap \<and>
     (\<forall>n \<in> {''del'', ''srem'', ''set''}. orig_commands s (str n) \<noteq> None)"

section \<open>What a handler may do\<close>

text \<open>The part of the server no handler changes.\<close>

definition fixed :: "server \<Rightarrow> _" where
  "fixed s = (sv_dbnum s, sv_clients s, commands s, orig_commands s, clock s, loading s, masterhost s,
     lua_start s, aof_on s, monitors s, requirepass s, maxmemory s, set_max_intset_entries s, hash_seed s,
     can_resize s, notify_flags s)"

text \<open>A client keeps its watched keys, its queue and its flags, but may have been flagged dirty.\<close>

definition client_le :: "client \<Rightarrow> client \<Rightarrow> bool" where
  "client_le c c' \<longleftrightarrow> c_watched c' = c_watched c \<and> c_mstate c' = c_mstate c \<and>
     c_flags c \<subseteq> c_flags c' \<and> c_flags c' \<subseteq> insert REDIS_DIRTY_CAS (c_flags c)"

definition entry :: "server \<Rightarrow> nat \<Rightarrow> bytes \<Rightarrow> robj option \<times> int option" where
  "entry s d k = (db_dict (sv_db s d) k, db_expires (sv_db s d) k)"

text \<open>What an object holds: of a set its elements, since reading may reorganise its hash table.\<close>

definition contents :: "robj \<Rightarrow> robj + bytes set" where
  "contents v = (case v of SetObj so \<Rightarrow> Inr (set_elems so) | _ \<Rightarrow> Inl v)"

definition content :: "server \<Rightarrow> nat \<Rightarrow> bytes \<Rightarrow> (robj + bytes set) option \<times> int option" where
  "content s d k = (map_option contents (db_dict (sv_db s d) k), db_expires (sv_db s d) k)"

lemma content_entry: "entry s' d' k' = entry s d k \<Longrightarrow> content s' d' k' = content s d k"
  by (simp add: entry_def content_def)

definition touched :: "server \<Rightarrow> nat \<Rightarrow> bytes \<Rightarrow> bool" where
  "touched s d k \<longleftrightarrow> (\<forall>w. (k, d) \<in> set (c_watched (sv_client s w)) \<longrightarrow> REDIS_DIRTY_CAS \<in> c_flags (sv_client s w))"

definition logged :: "server \<Rightarrow> server \<Rightarrow> bool" where
  "logged s s' \<longleftrightarrow> dirty s < dirty s' \<or> length (repl_log s) < length (repl_log s')"

text \<open>
  \<open>advance X p s s'\<close>: from \<open>s\<close> to \<open>s'\<close> every key that had no time to live and
  changed, except those in \<open>X\<close>, has its watchers flagged, and if anything changed and not
  \<open>p\<close> then the change is counted or logged.  \<open>X\<close> and \<open>p\<close> are the obligations a
  handler has yet to meet.
\<close>

definition advance :: "(nat \<times> bytes) set \<Rightarrow> bool \<Rightarrow> server \<Rightarrow> server \<Rightarrow> bool" where
  "advance X p s s' \<longleftrightarrow>
     fixed s' = fixed s \<and>
     (\<forall>w. client_le (sv_client s w) (sv_client s' w)) \<and>
     (\<forall>d. db_watched (sv_db s' d) = db_watched (sv_db s d)) \<and>
     dirty s \<le> dirty s' \<and> length (repl_log s) \<le> length (repl_log s') \<and>
     (\<forall>d k. content s' d k \<noteq> content s d k \<longrightarrow> db_expires (sv_db s d) k = None \<longrightarrow> (d, k) \<notin> X \<longrightarrow> touched s' d k) \<and>
     (\<forall>d k. content s' d k \<noteq> content s d k \<longrightarrow> \<not> p \<longrightarrow> logged s s')"

text \<open>\<open>good X p s s'\<close>: \<open>s\<close> advanced to \<open>s'\<close>, and \<open>s'\<close> is well-formed.\<close>

definition good :: "(nat \<times> bytes) set \<Rightarrow> bool \<Rightarrow> server \<Rightarrow> server \<Rightarrow> bool" where
  "good X p s s' \<longleftrightarrow> advance X p s s' \<and> server_ok s'"

subsection \<open>Order\<close>

lemma client_le_refl [simp]: "client_le c c"
  by (auto simp: client_le_def)

lemma client_le_trans: "client_le a b \<Longrightarrow> client_le b c \<Longrightarrow> client_le a c"
  by (auto simp: client_le_def)

lemma touched_mono: "touched s d k \<Longrightarrow> \<forall>w. client_le (sv_client s w) (sv_client s' w) \<Longrightarrow> touched s' d k"
  unfolding touched_def client_le_def by (metis subsetD)

lemma advanceI:
  assumes "fixed s' = fixed s" "\<And>w. client_le (sv_client s w) (sv_client s' w)"
    and "\<And>d. db_watched (sv_db s' d) = db_watched (sv_db s d)"
    and "dirty s \<le> dirty s'" "length (repl_log s) \<le> length (repl_log s')"
    and "\<And>d k. content s' d k \<noteq> content s d k \<Longrightarrow> db_expires (sv_db s d) k = None \<Longrightarrow> (d, k) \<notin> X \<Longrightarrow> touched s' d k"
    and "\<And>d k. content s' d k \<noteq> content s d k \<Longrightarrow> \<not> p \<Longrightarrow> logged s s'"
  shows "advance X p s s'"
  using assms unfolding advance_def by blast

lemma advance_touch:
  "advance X p s s' \<Longrightarrow> content s' d k \<noteq> content s d k \<Longrightarrow> db_expires (sv_db s d) k = None \<Longrightarrow> (d, k) \<notin> X \<Longrightarrow> touched s' d k"
  unfolding advance_def by blast

lemma advance_logged: "advance X p s s' \<Longrightarrow> content s' d k \<noteq> content s d k \<Longrightarrow> \<not> p \<Longrightarrow> logged s s'"
  unfolding advance_def by blast

lemma advance_same:
  assumes "advance X p s s'"
  shows "fixed s' = fixed s" "client_le (sv_client s w) (sv_client s' w)"
    "db_watched (sv_db s' d) = db_watched (sv_db s d)" "dirty s \<le> dirty s'"
    "length (repl_log s) \<le> length (repl_log s')"
  using assms by (simp_all add: advance_def)

lemma good_refl: "server_ok s \<Longrightarrow> good X p s s"
  by (simp add: good_def advance_def)

lemma good_ok: "good X p s s' \<Longrightarrow> server_ok s'"
  by (simp add: good_def)

lemma logged_trans:
  "logged s s1 \<Longrightarrow> dirty s1 \<le> dirty s2 \<Longrightarrow> length (repl_log s1) \<le> length (repl_log s2) \<Longrightarrow> logged s s2"
  "logged s1 s2 \<Longrightarrow> dirty s \<le> dirty s1 \<Longrightarrow> length (repl_log s) \<le> length (repl_log s1) \<Longrightarrow> logged s s2"
  by (auto simp: logged_def)

lemma advance_trans:
  assumes a: "advance X p s s1" and b: "advance Y q s1 s2"
  shows "advance (X \<union> Y) (p \<or> q) s s2"
proof (rule advanceI)
  note sa = advance_same [OF a] note sb = advance_same [OF b]
  show "fixed s2 = fixed s" using sa(1) sb(1) by simp
  show "client_le (sv_client s w) (sv_client s2 w)" for w using sa(2) sb(2) by (rule client_le_trans)
  show "db_watched (sv_db s2 d) = db_watched (sv_db s d)" for d using sa(3) sb(3) by simp
  show "dirty s \<le> dirty s2" using sa(4) sb(4) by simp
  show "length (repl_log s) \<le> length (repl_log s2)" using sa(5) sb(5) by simp
  show "touched s2 d k"
    if "content s2 d k \<noteq> content s d k" "db_expires (sv_db s d) k = None" "(d, k) \<notin> X \<union> Y" for d k
  proof (cases "content s1 d k = content s d k")
    case True
    then have "db_expires (sv_db s1 d) k = None" using that(2) by (simp add: content_def)
    with True show ?thesis using advance_touch [OF b] that by simp
  next
    case False
    then have "touched s1 d k" using advance_touch [OF a] that by simp
    then show ?thesis using sb(2) by (blast intro: touched_mono)
  qed
  show "logged s s2" if "content s2 d k \<noteq> content s d k" "\<not> (p \<or> q)" for d k
  proof (cases "content s1 d k = content s d k")
    case True
    then have "logged s1 s2" using advance_logged [OF b] that by metis
    then show ?thesis using sa(4,5) by (rule logged_trans(2))
  next
    case False
    then have "logged s s1" using advance_logged [OF a] that by blast
    then show ?thesis using sb(4,5) by (rule logged_trans(1))
  qed
qed

lemma good_trans: "good X p s s1 \<Longrightarrow> good Y q s1 s2 \<Longrightarrow> good (X \<union> Y) (p \<or> q) s s2"
  using advance_trans by (auto simp: good_def)

lemma good_weaken: "good X p s s' \<Longrightarrow> X \<subseteq> Y \<Longrightarrow> (p \<Longrightarrow> q) \<Longrightarrow> good Y q s s'"
  unfolding good_def advance_def by blast

lemma good_False: "good {} False s s' \<Longrightarrow> good X p s s'"
  by (erule good_weaken) auto

subsection \<open>Steps that only touch what is not observed\<close>

definition view :: "server \<Rightarrow> _" where
  "view s = (fixed s, sv_db s, (\<lambda>w. (c_watched (sv_client s w), c_mstate (sv_client s w), c_flags (sv_client s w),
     c_db (sv_client s w))), dirty s, repl_log s)"

lemma good_view:
  assumes "view s2 = view s1"
  shows "good X p s s2 \<longleftrightarrow> good X p s s1"
proof -
  have eq: "fixed s2 = fixed s1" "sv_db s2 = sv_db s1" "dirty s2 = dirty s1" "repl_log s2 = repl_log s1"
    "\<And>w. c_watched (sv_client s2 w) = c_watched (sv_client s1 w)"
    "\<And>w. c_mstate (sv_client s2 w) = c_mstate (sv_client s1 w)"
    "\<And>w. c_flags (sv_client s2 w) = c_flags (sv_client s1 w)"
    "\<And>w. c_db (sv_client s2 w) = c_db (sv_client s1 w)"
    using assms by (auto simp: view_def dest: fun_cong)
  have "server_ok s2 = server_ok s1"
    using eq(1,2,5,8) by (simp add: server_ok_def watch_ok_def fixed_def)
  moreover have "advance X p s s2 = advance X p s s1"
    by (simp only: advance_def client_le_def content_def touched_def logged_def eq)
  ultimately show ?thesis by (simp add: good_def)
qed

lemma view_client:
  assumes "\<And>cl. c_watched (f cl) = c_watched cl \<and> c_mstate (f cl) = c_mstate cl \<and> c_flags (f cl) = c_flags cl \<and> c_db (f cl) = c_db cl"
  shows "view (upd_client c f s) = view s"
  using assms by (simp add: view_def upd_client_def fixed_def fun_eq_iff)

lemma view_says: "says c t s s' \<Longrightarrow> view s' = view s"
  by (auto simp: says_def intro: view_client)

lemma view_reply [simp]:
  "view (addReplyString c t s) = view s" "view (addReply c ob s) = view s"
  using view_says says_string says_object by blast+

lemma view_replies [simp]:
  "view (addReplyError c e s) = view s" "view (addReplyErrorFormat c t s) = view s"
  "view (addReplyStatus c e s) = view s" "view (addReplyLongLong c ll s) = view s"
  "view (addReplyMultiBulkLen c ll s) = view s" "view (addReplyBulk c ob s) = view s"
  "view (addReplyBulkCBuffer c t s) = view s" "view (addReplySds c t s) = view s"
  "view (addReplyBulkLongLong c ll s) = view s"
  by (simp_all add: addReplyError_def addReplyErrorFormat_def addReplyErrorLength_def addReplyStatus_def
      addReplyStatusLength_def addReplyLongLong_def addReplyMultiBulkLen_def addReplyLongLongWithPrefix_def
      addReplyBulk_def addReplyBulkLen_def addReplyBulkCBuffer_def view_says [OF says_sds] addReplyBulkLongLong_def
      Let_def split: prod.split)

lemma view_argv [simp]: "view (set_argv c j v s) = view s"
  unfolding set_argv_def by (rule view_client) simp

lemma view_time [simp]: "view (snd (ustime s)) = view s" "view (snd (mstime s)) = view s"
  by (simp_all add: view_def ustime_def mstime_def fixed_def Let_def)

lemma view_getLongLong [simp]:
  "view (snd (getLongLongFromObjectOrReply c ob msg s)) = view s"
  "view (snd (getLongFromObjectOrReply c ob msg s)) = view s"
  by (auto simp: getLongLongFromObjectOrReply_def getLongFromObjectOrReply_def split: option.splits prod.splits)

lemma view_checkType [simp]: "view (snd (checkType c ob t s)) = view s"
  by (simp add: checkType_def)

text \<open>The obligations of a handler do not change in such a step.\<close>

lemmas good_neutral [simp] =
  good_view [OF view_reply(1)] good_view [OF view_reply(2)]
  good_view [OF view_replies(1)] good_view [OF view_replies(2)] good_view [OF view_replies(3)]
  good_view [OF view_replies(4)] good_view [OF view_replies(5)] good_view [OF view_replies(6)]
  good_view [OF view_replies(7)] good_view [OF view_replies(8)] good_view [OF view_replies(9)] good_view [OF view_argv] good_view [OF view_time(1)]
  good_view [OF view_time(2)] good_view [OF view_getLongLong(1)] good_view [OF view_getLongLong(2)]
  good_view [OF view_checkType]

subsection \<open>Counting changes and touching keys\<close>

lemma good_dirty:
  assumes "good X q s s1" and "0 \<le> n" and "q \<Longrightarrow> p \<or> 0 < n"
  shows "good X p s (add_dirty n s1)"
proof -
  define s2 where "s2 = add_dirty n s1"
  have eq: "fixed s2 = fixed s1" "sv_db s2 = sv_db s1" "sv_client s2 = sv_client s1" "repl_log s2 = repl_log s1"
    "hash_seed s2 = hash_seed s1" "sv_clients s2 = sv_clients s1" "sv_dbnum s2 = sv_dbnum s1"
    "orig_commands s2 = orig_commands s1" "set_max_intset_entries s2 = set_max_intset_entries s1"
    and d: "dirty s2 = dirty s1 + n"
    by (simp_all add: s2_def add_dirty_def fixed_def)
  have "server_ok s2" using assms(1) by (simp add: good_def server_ok_def eq)
  moreover have "advance X p s s2"
    using assms unfolding good_def advance_def content_def touched_def logged_def eq d by fastforce
  ultimately show ?thesis by (simp add: good_def s2_def)
qed

lemma fold_flag: "fold flag_dirty_cas ws s =
    s\<lparr>sv_client := (\<lambda>w. if w \<in> set ws then c_flags_update (insert REDIS_DIRTY_CAS) (sv_client s w) else sv_client s w)\<rparr>"
proof (induction ws arbitrary: s)
  case (Cons w ws)
  have flag: "(\<lambda>v. if v \<in> set ws then c_flags_update (insert REDIS_DIRTY_CAS) (sv_client (flag_dirty_cas w s) v)
      else sv_client (flag_dirty_cas w s) v) =
    (\<lambda>v. if v \<in> set (w # ws) then c_flags_update (insert REDIS_DIRTY_CAS) (sv_client s v) else sv_client s v)"
    by (rule ext) (auto simp: flag_dirty_cas_def upd_client_def)
  have "fold flag_dirty_cas (w # ws) s = fold flag_dirty_cas ws (flag_dirty_cas w s)" by simp
  also have "\<dots> = (flag_dirty_cas w s)\<lparr>sv_client := (\<lambda>v. if v \<in> set (w # ws)
      then c_flags_update (insert REDIS_DIRTY_CAS) (sv_client s v) else sv_client s v)\<rparr>"
    unfolding Cons.IH flag ..
  also have "\<dots> = s\<lparr>sv_client := (\<lambda>v. if v \<in> set (w # ws)
      then c_flags_update (insert REDIS_DIRTY_CAS) (sv_client s v) else sv_client s v)\<rparr>"
    by (simp add: flag_dirty_cas_def upd_client_def)
  finally show ?case .
qed simp

text \<open>Flagging some clients meets the obligations of the keys only they watch.\<close>

lemma good_flag:
  assumes g: "good Y p s s1"
    and s2: "s2 = s1\<lparr>sv_client := (\<lambda>w. if w \<in> W then c_flags_update (insert REDIS_DIRTY_CAS) (sv_client s1 w) else sv_client s1 w)\<rparr>"
    and all: "\<And>d k w. (d, k) \<in> Y - X \<Longrightarrow> (k, d) \<in> set (c_watched (sv_client s1 w)) \<Longrightarrow> w \<in> W"
  shows "good X p s s2"
proof -
  have eq: "fixed s2 = fixed s1" "sv_db s2 = sv_db s1" "dirty s2 = dirty s1" "repl_log s2 = repl_log s1"
    "hash_seed s2 = hash_seed s1" "sv_clients s2 = sv_clients s1" "sv_dbnum s2 = sv_dbnum s1"
    "orig_commands s2 = orig_commands s1" "set_max_intset_entries s2 = set_max_intset_entries s1"
    by (simp_all add: s2 fixed_def)
  have cl: "c_watched (sv_client s2 w) = c_watched (sv_client s1 w)" "c_db (sv_client s2 w) = c_db (sv_client s1 w)"
    "client_le (sv_client s1 w) (sv_client s2 w)" for w
    by (auto simp: s2 client_le_def)
  have "server_ok s2" using g by (simp add: good_def server_ok_def watch_ok_def eq cl)
  moreover have "advance X p s s2"
  proof -
    have "client_le (sv_client s w) (sv_client s2 w)" for w
      using g cl(3) client_le_trans by (metis good_def advance_def)
    moreover have "touched s2 d k"
      if "content s2 d k \<noteq> content s d k" "db_expires (sv_db s d) k = None" "(d, k) \<notin> X" for d k
    proof (cases "(d, k) \<in> Y")
      case True
      then show ?thesis using all [of d k] that(3) unfolding touched_def cl by (auto simp: s2)
    next
      case False
      then have "touched s1 d k" using g that advance_touch [of Y p s s1 d k] by (simp add: good_def content_def eq)
      then show ?thesis using cl(3) by (blast intro: touched_mono)
    qed
    moreover note sa = advance_same [OF conjunct1 [OF g [unfolded good_def]]]
    moreover have "logged s s2" if "content s2 d k \<noteq> content s d k" "\<not> p" for d k
      using g that advance_logged [of Y p s s1 d k] by (simp add: good_def content_def eq logged_def)
    ultimately show ?thesis by (intro advanceI) (simp_all add: eq)
  qed
  ultimately show ?thesis by (simp add: good_def)
qed

lemma good_signal:
  assumes g: "good (insert (d, k) X) p s s1"
  shows "good X p s (signalModifiedKey d k s1)"
proof (cases "db_watched (sv_db s1 d) k")
  case None
  then have "(k, d) \<notin> set (c_watched (sv_client s1 w))" for w
    using good_ok [OF g] by (simp add: server_ok_def watch_ok_def)
  then show ?thesis
    using good_flag [OF g, of s1 "{}" X] None by (auto simp: signalModifiedKey_def touchWatchedKey_def)
next
  case (Some ws)
  then have "(k, d) \<in> set (c_watched (sv_client s1 w)) \<longleftrightarrow> w \<in> set ws" for w
    using good_ok [OF g] by (auto simp: server_ok_def watch_ok_def)
  then show ?thesis
    using good_flag [OF g _, of _ "set ws" X] Some
    by (auto simp: signalModifiedKey_def touchWatchedKey_def fold_flag)
qed

lemma touched_signal: "server_ok s \<Longrightarrow> touched (signalModifiedKey d k s) d k"
  by (auto simp: server_ok_def watch_ok_def touched_def signalModifiedKey_def touchWatchedKey_def fold_flag
      split: option.splits)

lemma logged_dirty: "good X p s s1 \<Longrightarrow> 0 < n \<Longrightarrow> logged s (add_dirty n s1)"
  by (simp add: good_def advance_def logged_def add_dirty_def)

subsection \<open>Flushing\<close>

text \<open>A client watches a key that exists in a database being flushed.\<close>

definition flush_hits :: "nat option \<Rightarrow> server \<Rightarrow> nat \<Rightarrow> bool" where
  "flush_hits dbid s w \<longleftrightarrow> (\<exists>k d. (k, d) \<in> set (c_watched (sv_client s w)) \<and>
     (dbid = None \<or> dbid = Some d) \<and> db_dict (sv_db s d) k \<noteq> None)"

lemma fold_touch:
  "fold (\<lambda>(key, d) s. if P d \<and> db_dict (sv_db s d) key \<noteq> None then flag_dirty_cas c s else s) wks s =
     (if \<exists>k d. (k, d) \<in> set wks \<and> P d \<and> db_dict (sv_db s d) k \<noteq> None then flag_dirty_cas c s else s)"
proof (induction wks arbitrary: s)
  case (Cons wk wks)
  obtain k d where wk: "wk = (k, d)" by fastforce
  define s1 where "s1 = (if P d \<and> db_dict (sv_db s d) k \<noteq> None then flag_dirty_cas c s else s)"
  have db: "sv_db s1 = sv_db s" "flag_dirty_cas c s1 = flag_dirty_cas c s"
    by (simp_all add: s1_def flag_dirty_cas_def upd_client_def comp_def)
  have A: "fold (\<lambda>(key, d) s. if P d \<and> db_dict (sv_db s d) key \<noteq> None then flag_dirty_cas c s else s) (wk # wks) s =
      (if \<exists>k d. (k, d) \<in> set wks \<and> P d \<and> db_dict (sv_db s d) k \<noteq> None then flag_dirty_cas c s else s1)"
    unfolding fold.simps comp_apply wk prod.case s1_def [symmetric] Cons.IH db ..
  have B: "(\<exists>k d. (k, d) \<in> set (wk # wks) \<and> P d \<and> db_dict (sv_db s d) k \<noteq> None) \<longleftrightarrow>
      P d \<and> db_dict (sv_db s d) k \<noteq> None \<or> (\<exists>k d. (k, d) \<in> set wks \<and> P d \<and> db_dict (sv_db s d) k \<noteq> None)"
    using wk by auto
  have C: "(if a then x else if b then x else y) = (if b \<or> a then x else y)" for a b and x y :: server
    by auto
  show ?case unfolding A B s1_def C ..
qed simp

lemma touch_client: "touch_client_on_flush dbid c s = (if flush_hits dbid s c then flag_dirty_cas c s else s)"
  unfolding touch_client_on_flush_def flush_hits_def fold_touch ..

lemma hits_flag: "flush_hits dbid (flag_dirty_cas c s) = flush_hits dbid s"
  by (simp add: flush_hits_def flag_dirty_cas_def upd_client_def fun_eq_iff)

lemma fold_flush: "fold (touch_client_on_flush dbid) cs s = fold flag_dirty_cas (filter (flush_hits dbid s) cs) s"
  by (induction cs arbitrary: s) (simp_all add: touch_client hits_flag)

lemma good_flush:
  assumes g: "good X p s s1"
  shows "good X p s (signalFlushedDb dbid s1)"
    and "dbid = None \<or> dbid = Some d \<Longrightarrow> db_dict (sv_db s1 d) k \<noteq> None \<Longrightarrow> touched (signalFlushedDb dbid s1) d k"
    and "sv_db (signalFlushedDb dbid s1) = sv_db s1" "dirty (signalFlushedDb dbid s1) = dirty s1"
proof -
  define W where "W = {w \<in> set (sv_clients s1). flush_hits dbid s1 w}"
  have f: "signalFlushedDb dbid s1 = s1\<lparr>sv_client := (\<lambda>w. if w \<in> W
      then c_flags_update (insert REDIS_DIRTY_CAS) (sv_client s1 w) else sv_client s1 w)\<rparr>"
    by (simp add: signalFlushedDb_def touchWatchedKeysOnFlush_def fold_flush fold_flag W_def conj_commute)
  show "good X p s (signalFlushedDb dbid s1)" by (rule good_flag [OF g f]) simp
  show "sv_db (signalFlushedDb dbid s1) = sv_db s1" "dirty (signalFlushedDb dbid s1) = dirty s1"
    by (simp_all add: f)
  show "touched (signalFlushedDb dbid s1) d k"
    if "dbid = None \<or> dbid = Some d" "db_dict (sv_db s1 d) k \<noteq> None"
  proof -
    have "w \<in> W" if "(k, d) \<in> set (c_watched (sv_client s1 w))" for w
    proof -
      have "c_watched (sv_client s1 w) \<noteq> []" using that by auto
      then have "w \<in> set (sv_clients s1)" using good_ok [OF g] by (simp add: server_ok_def)
      moreover have "flush_hits dbid s1 w"
        using that \<open>dbid = None \<or> dbid = Some d\<close> \<open>db_dict (sv_db s1 d) k \<noteq> None\<close> unfolding flush_hits_def by blast
      ultimately show ?thesis by (simp add: W_def)
    qed
    then show ?thesis by (auto simp: f touched_def split: if_splits)
  qed
qed

section \<open>Watching and unwatching\<close>

text \<open>Everything but the two records of watched keys.\<close>

definition besides_watch :: "server \<Rightarrow> _" where
  "besides_watch s = (fixed s, (\<lambda>d. (db_dict (sv_db s d), db_expires (sv_db s d))),
     (\<lambda>w. (c_mstate (sv_client s w), c_flags (sv_client s w), c_db (sv_client s w))), dirty s, repl_log s)"

lemma server_ok_watch:
  assumes "server_ok s" "besides_watch s' = besides_watch s" "watch_ok (sv_db s') (sv_client s')"
    and "\<And>w. c_watched (sv_client s' w) \<noteq> [] \<Longrightarrow> w \<in> set (sv_clients s)"
  shows "server_ok s'"
proof -
  have "fixed s' = fixed s" "\<And>d. db_dict (sv_db s' d) = db_dict (sv_db s d)"
    "\<And>d. db_expires (sv_db s' d) = db_expires (sv_db s d)" "\<And>w. c_db (sv_client s' w) = c_db (sv_client s w)"
    using assms(2) by (auto simp: besides_watch_def dest: fun_cong)
  then show ?thesis using assms by (simp add: server_ok_def db_ok_def fixed_def)
qed

lemma watch_ok_add:
  assumes ok: "watch_ok db cl" and new: "(k, d) \<notin> set (c_watched (cl c))"
    and ws: "ws = (case db_watched (db d) k of None \<Rightarrow> [] | Some ws \<Rightarrow> ws)"
  shows "watch_ok (db(d := db_watched_update (\<lambda>t. t(k \<mapsto> ws @ [c])) (db d)))
    (cl(c := c_watched_update (\<lambda>l. l @ [(k, d)]) (cl c)))"
proof -
  have c: "c \<notin> set ws" "distinct ws" "\<And>w. (k, d) \<in> set (c_watched (cl w)) \<longleftrightarrow> w \<in> set ws"
    using ok new ws by (auto simp: watch_ok_def split: option.splits)
  have iff: "(k', d') \<in> set (c_watched (cl w)) \<longleftrightarrow> (\<exists>ws. db_watched (db d') k' = Some ws \<and> w \<in> set ws)" for w k' d'
    using ok by (simp add: watch_ok_def)
  show ?thesis
    unfolding watch_ok_def
  proof (intro conjI allI impI)
    fix w d' k'
    show "(k', d') \<in> set (c_watched ((cl(c := c_watched_update (\<lambda>l. l @ [(k, d)]) (cl c))) w)) \<longleftrightarrow>
      (\<exists>vs. db_watched ((db(d := db_watched_update (\<lambda>t. t(k \<mapsto> ws @ [c])) (db d))) d') k' = Some vs \<and> w \<in> set vs)"
      using iff [of k' d' w] c(3) [of w] by (cases "d' = d"; cases "k' = k"; cases "w = c") auto
  next
    fix w
    show "distinct (c_watched ((cl(c := c_watched_update (\<lambda>l. l @ [(k, d)]) (cl c))) w))"
      using ok new by (auto simp: watch_ok_def)
  next
    fix d' k' vs
    assume "db_watched ((db(d := db_watched_update (\<lambda>t. t(k \<mapsto> ws @ [c])) (db d))) d') k' = Some vs"
    then show "vs \<noteq> []" and "distinct vs"
      using ok c by (auto simp: watch_ok_def split: if_splits)
  qed
qed

lemma watch_ok_remove:
  assumes ok: "watch_ok db cl" and wk: "c_watched (cl c) = (k, d) # wks" and ws: "db_watched (db d) k = Some ws"
    and new: "ws' = remove1 c ws"
  shows "watch_ok (db(d := db_watched_update (\<lambda>t. t(k := (if ws' = [] then None else Some ws'))) (db d)))
    (cl(c := c_watched_update (remove1 (k, d)) (cl c)))"
proof -
  have "distinct (c_watched (cl c))" using ok by (simp add: watch_ok_def)
  moreover have "distinct ws" using ok ws unfolding watch_ok_def by blast
  ultimately have dist: "distinct ws" "distinct ((k, d) # wks)" by (simp_all only: wk)
  then have c: "set ws' = set ws - {c}" "distinct ws'" "(k, d) \<notin> set wks" by (simp_all add: new)
  have iff: "(k', d') \<in> set (c_watched (cl w)) \<longleftrightarrow> (\<exists>ws. db_watched (db d') k' = Some ws \<and> w \<in> set ws)" for w k' d'
    using ok by (simp add: watch_ok_def)
  have none: "ws' = [] \<Longrightarrow> w \<in> set ws \<Longrightarrow> w = c" for w using c(1) by auto
  show ?thesis
    unfolding watch_ok_def
  proof (intro conjI allI impI)
    fix w d' k'
    show "(k', d') \<in> set (c_watched ((cl(c := c_watched_update (remove1 (k, d)) (cl c))) w)) \<longleftrightarrow>
      (\<exists>vs. db_watched ((db(d := db_watched_update (\<lambda>t. t(k := (if ws' = [] then None else Some ws'))) (db d))) d') k' = Some vs \<and> w \<in> set vs)"
    proof (cases "k' = k \<and> d' = d")
      case True
      have "(k, d) \<in> set (c_watched ((cl(c := c_watched_update (remove1 (k, d)) (cl c))) w)) \<longleftrightarrow> w \<in> set ws'"
        using iff [of k d w] c wk ws by (cases "w = c") simp_all
      moreover have "db_watched ((db(d := db_watched_update (\<lambda>t. t(k := (if ws' = [] then None else Some ws'))) (db d))) d) k =
          (if ws' = [] then None else Some ws')"
        by simp
      ultimately show ?thesis using True by (cases "ws' = []") simp_all
    next
      case False
      then have "(k', d') \<in> set (c_watched ((cl(c := c_watched_update (remove1 (k, d)) (cl c))) w)) \<longleftrightarrow>
          (k', d') \<in> set (c_watched (cl w))"
        using wk by (cases "w = c") auto
      moreover have "db_watched ((db(d := db_watched_update (\<lambda>t. t(k := (if ws' = [] then None else Some ws'))) (db d))) d') k' =
          db_watched (db d') k'"
        using False by (cases "d' = d") simp_all
      ultimately show ?thesis using iff [of k' d' w] by (simp only:)
    qed
  next
    fix w
    show "distinct (c_watched ((cl(c := c_watched_update (remove1 (k, d)) (cl c))) w))"
      using ok dist wk by (auto simp: watch_ok_def)
  next
    fix d' k' vs
    assume "db_watched ((db(d := db_watched_update (\<lambda>t. t(k := (if ws' = [] then None else Some ws'))) (db d))) d') k' = Some vs"
    then show "vs \<noteq> []" and "distinct vs"
      using ok c by (auto simp: watch_ok_def split: if_splits)
  qed
qed

lemma watchForKey_ok:
  assumes ok: "server_ok s" and live: "c \<in> set (sv_clients s)"
  shows "server_ok (watchForKey c key s) \<and> besides_watch (watchForKey c key s) = besides_watch s \<and>
    (key, client_db s c) \<in> set (c_watched (sv_client (watchForKey c key s) c)) \<and>
    (\<forall>w. set (c_watched (sv_client s w)) \<subseteq> set (c_watched (sv_client (watchForKey c key s) w)))"
proof -
  define d where "d = client_db s c"
  have eq: "equalStringObjects (ObjRaw a) (ObjRaw b) \<longleftrightarrow> a = b" for a b
    using compareStringObjects_lexicographic [of "ObjRaw a" "ObjRaw b"] by simp
  have old: "list_ex (\<lambda>(k, kd). kd = d \<and> equalStringObjects (ObjRaw key) (ObjRaw k)) l \<longleftrightarrow> (key, d) \<in> set l" for l
    by (auto simp: list_ex_iff eq)
  show ?thesis
  proof (cases "(key, d) \<in> set (c_watched (sv_client s c))")
    case True
    then show ?thesis using ok old by (simp add: watchForKey_def d_def [symmetric] Let_def)
  next
    case False
    define ws where "ws = (case db_watched (sv_db s d) key of None \<Rightarrow> [] | Some ws \<Rightarrow> ws)"
    define s' where "s' = watchForKey c key s"
    have s': "s' = s\<lparr>sv_db := (sv_db s)(d := db_watched_update (\<lambda>t. t(key \<mapsto> ws @ [c])) (sv_db s d)),
        sv_client := (sv_client s)(c := c_watched_update (\<lambda>l. l @ [(key, d)]) (sv_client s c))\<rparr>"
      using False old by (simp add: s'_def watchForKey_def d_def [symmetric] ws_def upd_db_def upd_client_def Let_def)
    have "besides_watch s' = besides_watch s"
      by (simp add: s' besides_watch_def fixed_def fun_eq_iff)
    moreover have "server_ok s'"
      using ok calculation
    proof (rule server_ok_watch)
      show "watch_ok (sv_db s') (sv_client s')"
        using watch_ok_add [where db = "sv_db s" and cl = "sv_client s", OF _ False ws_def] ok
        by (simp add: s' server_ok_def)
      show "w \<in> set (sv_clients s)" if "c_watched (sv_client s' w) \<noteq> []" for w
        using that ok live by (cases "w = c") (auto simp: s' server_ok_def)
    qed
    ultimately show ?thesis by (auto simp: s'_def [symmetric] d_def [symmetric]) (auto simp: s')
  qed
qed

lemma unwatch_loop_ok:
  "server_ok s \<Longrightarrow> c_watched (sv_client s c) = wks \<Longrightarrow>
     wp (unwatch_loop c wks s) (\<lambda>s'. server_ok s' \<and> besides_watch s' = besides_watch s \<and>
       c_watched (sv_client s' c) = [] \<and> (\<forall>w. w \<noteq> c \<longrightarrow> sv_client s' w = sv_client s w))"
proof (induction wks arbitrary: s)
  case (Cons wk wks)
  obtain k d where wk: "wk = (k, d)" by fastforce
  have "(k, d) \<in> set (c_watched (sv_client s c))" using Cons.prems(2) wk by simp
  then obtain ws where ws: "db_watched (sv_db s d) k = Some ws" "c \<in> set ws"
    using Cons.prems(1) by (auto simp: server_ok_def watch_ok_def)
  define s1 where "s1 = s\<lparr>sv_db := (sv_db s)(d := db_watched_update (\<lambda>t. t(k := (if remove1 c ws = [] then None
      else Some (remove1 c ws)))) (sv_db s d)),
    sv_client := (sv_client s)(c := c_watched_update (remove1 (k, d)) (sv_client s c))\<rparr>"
  have run: "unwatch_loop c (wk # wks) s = unwatch_loop c wks s1"
    using ws by (simp add: wk s1_def upd_db_def upd_client_def Let_def)
  have bes: "besides_watch s1 = besides_watch s"
    by (simp add: s1_def besides_watch_def fixed_def fun_eq_iff)
  have "server_ok s1"
    using Cons.prems(1) bes
  proof (rule server_ok_watch)
    show "watch_ok (sv_db s1) (sv_client s1)"
      using watch_ok_remove [where db = "sv_db s" and cl = "sv_client s" and c = c and k = k and d = d, OF _ _ ws(1) refl]
        Cons.prems wk by (simp add: s1_def server_ok_def)
    show "w \<in> set (sv_clients s)" if "c_watched (sv_client s1 w) \<noteq> []" for w
      using that Cons.prems by (cases "w = c") (auto simp: s1_def server_ok_def)
  qed
  moreover have "c_watched (sv_client s1 c) = wks" using Cons.prems(2) wk by (simp add: s1_def)
  ultimately have "wp (unwatch_loop c wks s1) (\<lambda>s'. server_ok s' \<and> besides_watch s' = besides_watch s1 \<and>
       c_watched (sv_client s' c) = [] \<and> (\<forall>w. w \<noteq> c \<longrightarrow> sv_client s' w = sv_client s1 w))"
    by (rule Cons.IH)
  then show ?case unfolding run by (rule wp_mono) (simp add: bes, simp add: s1_def)
qed simp

lemma unwatchAllKeys_ok:
  "server_ok s \<Longrightarrow>
     wp (unwatchAllKeys c s) (\<lambda>s'. server_ok s' \<and> besides_watch s' = besides_watch s \<and>
       c_watched (sv_client s' c) = [] \<and> (\<forall>w. w \<noteq> c \<longrightarrow> sv_client s' w = sv_client s w))"
  using unwatch_loop_ok [of s c "c_watched (sv_client s c)"] by (simp add: unwatchAllKeys_def)

end
