(* ===== verification/Db.thy ===== *)
theory Db
  imports Watch
begin

text \<open>
  The key space (\<^verbatim>\<open>db.c\<close>): lookup, insertion, overwriting and deletion of keys, expiration
  times and their lazy enforcement, with the notifications of \<^verbatim>\<open>notify.c\<close> and the propagation
  of expired keys.  The access time of objects is not represented, nor the wake-up of clients
  blocked on lists (no modelled command blocks).
\<close>

section \<open>Notification and propagation\<close>

definition pubsubPublishMessage :: "bytes \<Rightarrow> bytes \<Rightarrow> server \<Rightarrow> server" where
  "pubsubPublishMessage channel message s = s\<lparr>published := published s @ [(channel, message)]\<rparr>"

definition notifyKeyspaceEvent :: "notifyclass \<Rightarrow> string \<Rightarrow> bytes \<Rightarrow> nat \<Rightarrow> server \<Rightarrow> server" where
  "notifyKeyspaceEvent ty event key dbid s =
     (if ty \<notin> notify_flags s then s
      else
        let (buf, len) = ll2string (replicate 24 0) (of_nat dbid);
            eventobj = str event;
            s = (if REDIS_NOTIFY_KEYSPACE \<in> notify_flags s
                 then pubsubPublishMessage (str ''__keyspace@'' @ take len buf @ str ''__:'' @ key) eventobj s
                 else s);
            s = (if REDIS_NOTIFY_KEYEVENT \<in> notify_flags s
                 then pubsubPublishMessage (str ''__keyevent@'' @ take len buf @ str ''__:'' @ eventobj) key s
                 else s)
        in s)"

definition feedAppendOnlyFile :: "nat \<Rightarrow> bytes list \<Rightarrow> server \<Rightarrow> server" where
  "feedAppendOnlyFile dbid av s = s\<lparr>aof_log := aof_log s @ [(dbid, av)]\<rparr>"

definition replicationFeedSlaves :: "nat \<Rightarrow> bytes list \<Rightarrow> server \<Rightarrow> server" where
  "replicationFeedSlaves dbid av s = s\<lparr>repl_log := repl_log s @ [(dbid, av)]\<rparr>"

definition propagateExpire :: "nat \<Rightarrow> bytes \<Rightarrow> server \<Rightarrow> server" where
  "propagateExpire d key s =
     (let av = [str ''DEL'', key];
          s = (if aof_on s then feedAppendOnlyFile d av s else s)
      in replicationFeedSlaves d av s)"

section \<open>Keys\<close>

definition db_put :: "nat \<Rightarrow> bytes \<Rightarrow> robj \<Rightarrow> server \<Rightarrow> server" where
  "db_put d key v = upd_db d (db_dict_update (\<lambda>m. m(key \<mapsto> v)))"

definition lookupKey :: "server \<Rightarrow> nat \<Rightarrow> bytes \<Rightarrow> robj option" where
  "lookupKey s d key = db_dict (sv_db s d) key"

definition dbExists :: "server \<Rightarrow> nat \<Rightarrow> bytes \<Rightarrow> bool" where
  "dbExists s d key \<longleftrightarrow> db_dict (sv_db s d) key \<noteq> None"

definition dbAdd :: "nat \<Rightarrow> bytes \<Rightarrow> robj \<Rightarrow> server \<Rightarrow> server option" where
  "dbAdd d key v s =
     (if db_dict (sv_db s d) key \<noteq> None then None
      else Some (db_put d key v s))"

definition dbOverwrite :: "nat \<Rightarrow> bytes \<Rightarrow> robj \<Rightarrow> server \<Rightarrow> server option" where
  "dbOverwrite d key v s =
     (if db_dict (sv_db s d) key = None then None
      else Some (db_put d key v s))"

definition dbDelete :: "nat \<Rightarrow> bytes \<Rightarrow> server \<Rightarrow> bool \<times> server" where
  "dbDelete d key s =
     (let s1 = upd_db d (db_expires_update (\<lambda>m. m(key := None))) s
      in (db_dict (sv_db s1 d) key \<noteq> None,
          upd_db d (db_dict_update (\<lambda>m. m(key := None))) s1))"

definition removeExpire :: "nat \<Rightarrow> bytes \<Rightarrow> server \<Rightarrow> (bool \<times> server) option" where
  "removeExpire d key s =
     (if db_dict (sv_db s d) key = None then None
      else Some (db_expires (sv_db s d) key \<noteq> None,
                 upd_db d (db_expires_update (\<lambda>m. m(key := None))) s))"

definition setExpire :: "nat \<Rightarrow> bytes \<Rightarrow> int \<Rightarrow> server \<Rightarrow> server option" where
  "setExpire d key tm s =
     (if db_dict (sv_db s d) key = None then None
      else Some (upd_db d (db_expires_update (\<lambda>m. m(key \<mapsto> tm))) s))"

definition getExpire :: "server \<Rightarrow> nat \<Rightarrow> bytes \<Rightarrow> int option" where
  "getExpire s d key =
     (case db_expires (sv_db s d) key of
        None \<Rightarrow> Some (- 1)
      | Some tm \<Rightarrow> if db_dict (sv_db s d) key = None then None else Some tm)"

definition expireIfNeeded :: "nat \<Rightarrow> bytes \<Rightarrow> server \<Rightarrow> (bool \<times> server) option" where
  "expireIfNeeded d key s = do {
     tm \<leftarrow> getExpire s d key;
     if tm < 0 then Some (False, s)
     else if loading s then Some (False, s)
     else
       let (now, s) = (case lua_start s of Some t \<Rightarrow> (t, s) | None \<Rightarrow> mstime s)
       in if masterhost s then Some (tm < now, s)
          else if now \<le> tm then Some (False, s)
          else
            let s = s\<lparr>stat_expiredkeys := Suc (stat_expiredkeys s)\<rparr>;
                s = propagateExpire d key s;
                s = notifyKeyspaceEvent REDIS_NOTIFY_EXPIRED ''expired'' key d s
            in Some (dbDelete d key s)
   }"

definition lookupKeyRead :: "nat \<Rightarrow> bytes \<Rightarrow> server \<Rightarrow> (robj option \<times> server) option" where
  "lookupKeyRead d key s = do {
     (_, s) \<leftarrow> expireIfNeeded d key s;
     let v = lookupKey s d key;
     Some (v, if v = None then s\<lparr>stat_keyspace_misses := Suc (stat_keyspace_misses s)\<rparr>
              else s\<lparr>stat_keyspace_hits := Suc (stat_keyspace_hits s)\<rparr>)
   }"

definition lookupKeyWrite :: "nat \<Rightarrow> bytes \<Rightarrow> server \<Rightarrow> (robj option \<times> server) option" where
  "lookupKeyWrite d key s = do {
     (_, s) \<leftarrow> expireIfNeeded d key s;
     Some (lookupKey s d key, s)
   }"

definition lookupKeyReadOrReply :: "nat \<Rightarrow> bytes \<Rightarrow> strobj \<Rightarrow> server \<Rightarrow> (robj option \<times> server) option" where
  "lookupKeyReadOrReply c key reply s = do {
     (v, s) \<leftarrow> lookupKeyRead (client_db s c) key s;
     Some (v, if v = None then addReply c reply s else s)
   }"

definition lookupKeyWriteOrReply :: "nat \<Rightarrow> bytes \<Rightarrow> strobj \<Rightarrow> server \<Rightarrow> (robj option \<times> server) option" where
  "lookupKeyWriteOrReply c key reply s = do {
     (v, s) \<leftarrow> lookupKeyWrite (client_db s c) key s;
     Some (v, if v = None then addReply c reply s else s)
   }"

definition setKey :: "nat \<Rightarrow> bytes \<Rightarrow> robj \<Rightarrow> server \<Rightarrow> server option" where
  "setKey d key v s = do {
     (old, s) \<leftarrow> lookupKeyWrite d key s;
     s \<leftarrow> (if old = None then dbAdd d key v s else dbOverwrite d key v s);
     (_, s) \<leftarrow> removeExpire d key s;
     Some (signalModifiedKey d key s)
   }"

text \<open>The raw object that may be modified in place, stored under the key if it was encoded.\<close>

definition dbUnshareStringValue :: "nat \<Rightarrow> bytes \<Rightarrow> strobj \<Rightarrow> server \<Rightarrow> (bytes \<times> server) option" where
  "dbUnshareStringValue d key ob s =
     (case ob of
        ObjRaw t \<Rightarrow> Some (t, s)
      | ObjInt _ \<Rightarrow> do {
          s \<leftarrow> dbOverwrite d key (StringObj (ObjRaw (getDecodedObject ob))) s;
          Some (getDecodedObject ob, s)
        })"

text \<open>\<^verbatim>\<open>dictSize\<close> of the key space of a database.\<close>

definition db_size :: "redisDb \<Rightarrow> nat" where
  [code del]: "db_size db = card (dom (db_dict db))"

declare db_size_def [simp]

text \<open>\<^verbatim>\<open>dictEmpty\<close> of both dictionaries of a database.\<close>

definition empty_db :: "redisDb \<Rightarrow> redisDb" where
  "empty_db db = db\<lparr>db_dict := Map.empty, db_expires := Map.empty\<rparr>"

definition emptyDb :: "server \<Rightarrow> int \<times> server" where
  "emptyDb s =
     fold (\<lambda>j (removed, s).
         (removed + int (db_size (sv_db s j)),
          upd_db j empty_db s))
       [0..<sv_dbnum s] (0, s)"

definition selectDb :: "nat \<Rightarrow> int \<Rightarrow> server \<Rightarrow> server option" where
  "selectDb c i s =
     (if i < 0 \<or> int (sv_dbnum s) \<le> i then None
      else Some (upd_client c (c_db_update (\<lambda>_. nat i)) s))"

section \<open>What the primitives do to the server\<close>

lemma view_notify [simp]: "view (notifyKeyspaceEvent ty e k d s) = view s"
  by (auto simp: notifyKeyspaceEvent_def pubsubPublishMessage_def view_def fixed_def Let_def split: prod.split)

lemma view_stats [simp]:
  "view (s\<lparr>stat_expiredkeys := n\<rparr>) = view s" "view (s\<lparr>stat_keyspace_hits := n\<rparr>) = view s"
  "view (s\<lparr>stat_keyspace_misses := n\<rparr>) = view s"
  by (simp_all add: view_def fixed_def)

lemmas good_neutral_db [simp] = good_view [OF view_notify]
  good_view [OF view_stats(1)] good_view [OF view_stats(2)] good_view [OF view_stats(3)]

text \<open>A change of one database.\<close>

lemma good_upd_db:
  assumes g: "good X p s s1" and w: "db_watched (f (sv_db s1 d)) = db_watched (sv_db s1 d)"
    and ok: "db_ok (hash_seed s1) (f (sv_db s1 d))"
    and t: "\<And>k. db_dict (f (sv_db s1 d)) k \<noteq> db_dict (sv_db s1 d) k \<or> db_expires (f (sv_db s1 d)) k \<noteq> db_expires (sv_db s1 d) k \<Longrightarrow>
      ((d, k) \<in> X \<or> touched s1 d k \<or> db_expires (sv_db s1 d) k \<noteq> None) \<and> (p \<or> logged s s1)"
  shows "good X p s (upd_db d f s1)"
proof -
  define s2 where "s2 = upd_db d f s1"
  have db: "sv_db s2 d' = (if d' = d then f (sv_db s1 d) else sv_db s1 d')" for d'
    by (simp add: s2_def upd_db_def)
  have eq: "fixed s2 = fixed s1" "sv_client s2 = sv_client s1" "dirty s2 = dirty s1" "repl_log s2 = repl_log s1"
    "hash_seed s2 = hash_seed s1" "sv_clients s2 = sv_clients s1" "sv_dbnum s2 = sv_dbnum s1"
    "orig_commands s2 = orig_commands s1" "set_max_intset_entries s2 = set_max_intset_entries s1"
    by (simp_all add: s2_def upd_db_def fixed_def)
  have wat: "db_watched (sv_db s2 d') = db_watched (sv_db s1 d')" for d' using w by (simp add: db)
  have adv: "advance X p s s1" and ok1: "server_ok s1" using g by (simp_all add: good_def)
  have tch: "touched s2 d' k = touched s1 d' k" for d' k by (simp add: touched_def eq)
  have ent: "content s2 d' k \<noteq> content s1 d' k \<Longrightarrow> d' = d \<and> (db_dict (f (sv_db s1 d)) k \<noteq> db_dict (sv_db s1 d) k \<or>
      db_expires (f (sv_db s1 d)) k \<noteq> db_expires (sv_db s1 d) k)" for d' k
    by (auto simp: content_def db split: if_splits)
  have "server_ok s2"
    using ok1 ok unfolding server_ok_def watch_ok_def eq wat by (simp add: db)
  moreover have "advance X p s s2"
  proof (rule advanceI)
    note sa = advance_same [OF adv]
    show "fixed s2 = fixed s" "client_le (sv_client s w) (sv_client s2 w)"
      "db_watched (sv_db s2 d') = db_watched (sv_db s d')" "dirty s \<le> dirty s2"
      "length (repl_log s) \<le> length (repl_log s2)" for w d'
      using sa by (simp_all add: eq wat)
    show "touched s2 d' k" if ch: "content s2 d' k \<noteq> content s d' k" and ex: "db_expires (sv_db s d') k = None"
      and X: "(d', k) \<notin> X" for d' k
    proof (cases "content s1 d' k = content s d' k")
      case True
      then have "db_expires (sv_db s1 d') k = None" using ex by (simp add: content_def)
      then show ?thesis using t [of k] ent [of d' k] ch True X by (auto simp: tch)
    next
      case False
      then show ?thesis using advance_touch [OF adv False ex X] by (simp add: tch)
    qed
    show "logged s s2" if ch: "content s2 d' k \<noteq> content s d' k" and p: "\<not> p" for d' k
    proof (cases "content s1 d' k = content s d' k")
      case True
      then show ?thesis using t [of k] ent [of d' k] ch p by (auto simp: logged_def eq)
    next
      case False
      then show ?thesis using advance_logged [OF adv False p] by (simp add: logged_def eq)
    qed
  qed
  ultimately show ?thesis by (simp add: good_def s2_def)
qed

lemma good_db_ok: "good X p s s1 \<Longrightarrow> db_ok (hash_seed s1) (sv_db s1 d)"
  using good_ok by (simp add: server_ok_def)

lemma good_put:
  assumes "good X p s s1" "val_ok (hash_seed s1) v" "(d, k) \<in> X \<or> touched s1 d k" "p \<or> logged s s1"
  shows "good X p s (db_put d k v s1)"
  unfolding db_put_def
  using assms(2-4) good_db_ok [OF assms(1), of d]
  by (intro good_upd_db [OF assms(1)]) (auto simp: db_ok_def split: if_splits)

lemma good_set_expires:
  assumes "good X p s s1" "db_dict (sv_db s1 d) k \<noteq> None" "(d, k) \<in> X \<or> touched s1 d k" "p \<or> logged s s1"
  shows "good X p s (upd_db d (db_expires_update (\<lambda>m. m(k \<mapsto> tm))) s1)"
  using assms(2-4) good_db_ok [OF assms(1), of d]
  by (intro good_upd_db [OF assms(1)]) (auto simp: db_ok_def split: if_splits)

lemma good_remove_expires:
  assumes "good X p s s1" "p \<or> logged s s1 \<or> db_expires (sv_db s1 d) k = None"
  shows "good X p s (upd_db d (db_expires_update (\<lambda>m. m(k := None))) s1)"
  using assms(2) good_db_ok [OF assms(1), of d]
  by (intro good_upd_db [OF assms(1)]) (auto simp: db_ok_def split: if_splits)

text \<open>Deleting is one change of the database.\<close>

lemma dbDelete_upd: "dbDelete d k s = (db_dict (sv_db s d) k \<noteq> None,
    upd_db d (\<lambda>db. db\<lparr>db_dict := (db_dict db)(k := None), db_expires := (db_expires db)(k := None)\<rparr>) s)"
  by (cases "sv_db s d") (simp add: dbDelete_def upd_db_def Let_def)

lemma good_delete:
  assumes "good X p s s1"
    and "db_dict (sv_db s1 d) k \<noteq> None \<Longrightarrow>
      ((d, k) \<in> X \<or> touched s1 d k \<or> db_expires (sv_db s1 d) k \<noteq> None) \<and> (p \<or> logged s s1)"
  shows "good X p s (snd (dbDelete d k s1))"
proof -
  note ok = good_db_ok [OF assms(1), of d]
  have "db_expires (sv_db s1 d) k = None" if "db_dict (sv_db s1 d) k = None"
    using ok that by (auto simp: db_ok_def dest: subsetD)
  note none = this
  show ?thesis
    unfolding dbDelete_upd snd_conv
  proof (rule good_upd_db [OF assms(1)])
    fix k'
    let ?f = "\<lambda>db. db\<lparr>db_dict := (db_dict db)(k := None), db_expires := (db_expires db)(k := None)\<rparr>"
    assume "db_dict (?f (sv_db s1 d)) k' \<noteq> db_dict (sv_db s1 d) k' \<or> db_expires (?f (sv_db s1 d)) k' \<noteq> db_expires (sv_db s1 d) k'"
    then have "k' = k" and "db_dict (sv_db s1 d) k \<noteq> None" using none by (auto split: if_splits) (metis not_None_eq)+
    then show "((d, k') \<in> X \<or> touched s1 d k' \<or> db_expires (sv_db s1 d) k' \<noteq> None) \<and> (p \<or> logged s s1)"
      using assms(2) by blast
  qed (use ok in \<open>auto simp: db_ok_def split: if_splits\<close>)
qed

lemma good_setExpire:
  assumes "good X p s s1" "db_dict (sv_db s1 d) k \<noteq> None" "(d, k) \<in> X \<or> touched s1 d k" "p \<or> logged s s1"
  shows "wp (setExpire d k tm s1) (good X p s)"
  using good_set_expires [OF assms] assms(2) by (simp add: setExpire_def)

section \<open>Lazy expiration\<close>

text \<open>Between \<open>s\<close> and \<open>s'\<close> at most the key \<open>k\<close> of database \<open>d\<close> expired.\<close>

definition lapse :: "nat \<Rightarrow> bytes \<Rightarrow> server \<Rightarrow> server \<Rightarrow> bool" where
  "lapse d k s s' \<longleftrightarrow>
     fixed s' = fixed s \<and> sv_client s' = sv_client s \<and> dirty s' = dirty s \<and>
     (\<forall>d' k'. (d', k') \<noteq> (d, k) \<longrightarrow> entry s' d' k' = entry s d' k') \<and>
     (entry s' d k = entry s d k \<or>
      entry s' d k = (None, None) \<and> db_expires (sv_db s d) k \<noteq> None \<and> \<not> loading s \<and> \<not> masterhost s)"

lemma lapse_refl [simp]: "lapse d k s s"
  by (simp add: lapse_def)

lemma lapse_quiet:
  assumes "fixed s2 = fixed s1" "sv_db s2 = sv_db s1" "sv_client s2 = sv_client s1" "dirty s2 = dirty s1"
  shows "lapse d k s s2 = lapse d k s s1"
  using assms by (simp add: lapse_def entry_def)

lemma quiet_notify [simp]:
  "fixed (notifyKeyspaceEvent ty e key d s) = fixed s" "sv_db (notifyKeyspaceEvent ty e key d s) = sv_db s"
  "sv_client (notifyKeyspaceEvent ty e key d s) = sv_client s" "dirty (notifyKeyspaceEvent ty e key d s) = dirty s"
  "repl_log (notifyKeyspaceEvent ty e key d s) = repl_log s"
  by (auto simp: notifyKeyspaceEvent_def pubsubPublishMessage_def fixed_def Let_def split: prod.split)

lemma quiet_propagate [simp]:
  "fixed (propagateExpire d k s) = fixed s" "sv_db (propagateExpire d k s) = sv_db s"
  "sv_client (propagateExpire d k s) = sv_client s" "dirty (propagateExpire d k s) = dirty s"
  by (simp_all add: propagateExpire_def feedAppendOnlyFile_def replicationFeedSlaves_def fixed_def Let_def)

lemma quiet_time [simp]:
  "fixed (snd (mstime s)) = fixed s" "sv_db (snd (mstime s)) = sv_db s"
  "sv_client (snd (mstime s)) = sv_client s" "dirty (snd (mstime s)) = dirty s"
  by (simp_all add: mstime_def ustime_def fixed_def Let_def)

lemma log_propagate: "length (repl_log s) < length (repl_log (propagateExpire d k s))"
  by (simp add: propagateExpire_def feedAppendOnlyFile_def replicationFeedSlaves_def Let_def)

lemma good_propagate:
  assumes g: "good X p s s1"
  shows "good X p s (propagateExpire d k s1)" and "logged s (propagateExpire d k s1)"
proof -
  define s2 where "s2 = propagateExpire d k s1"
  have eq: "fixed s2 = fixed s1" "sv_db s2 = sv_db s1" "sv_client s2 = sv_client s1" "dirty s2 = dirty s1"
    by (simp_all add: s2_def)
  have adv: "advance X p s s1" using g by (simp add: good_def)
  note sa = advance_same [OF adv]
  have len: "length (repl_log s) < length (repl_log s2)"
    using log_propagate [of s1 d k] sa(5) unfolding s2_def by linarith
  then show "logged s (propagateExpire d k s1)" by (simp add: logged_def s2_def)
  have "server_ok s2" using good_ok [OF g] eq by (simp add: server_ok_def fixed_def)
  moreover have "advance X p s s2"
  proof (rule advanceI)
    show "fixed s2 = fixed s" "client_le (sv_client s w) (sv_client s2 w)"
      "db_watched (sv_db s2 d') = db_watched (sv_db s d')" "dirty s \<le> dirty s2" for w d'
      using sa by (simp_all add: eq)
    show "touched s2 d' k" if "content s2 d' k \<noteq> content s d' k" "db_expires (sv_db s d') k = None" "(d', k) \<notin> X" for d' k
      using advance_touch [OF adv, of d' k] that by (simp add: touched_def content_def eq)
  qed (use len in \<open>simp_all add: logged_def\<close>)
  ultimately show "good X p s (propagateExpire d k s1)" by (simp add: good_def s2_def)
qed

lemma entry_delete: "entry (snd (dbDelete d k s)) d' k' = (if d' = d \<and> k' = k then (None, None) else entry s d' k')"
  by (simp add: dbDelete_upd upd_db_def entry_def)

lemma same_delete [simp]:
  "fixed (snd (dbDelete d k s)) = fixed s" "sv_client (snd (dbDelete d k s)) = sv_client s"
  "dirty (snd (dbDelete d k s)) = dirty s" "repl_log (snd (dbDelete d k s)) = repl_log s"
  by (simp_all add: dbDelete_upd upd_db_def fixed_def)

text \<open>\<open>expireIfNeeded\<close> never fails an assertion, and at most lets the key lapse.\<close>

lemma wp_expire:
  assumes g: "good X p s s1"
    and Q: "\<And>e s2. good X p s s2 \<Longrightarrow> lapse d k s1 s2 \<Longrightarrow> Q (e, s2)"
  shows "wp (expireIfNeeded d k s1) Q"
proof (cases "db_expires (sv_db s1 d) k")
  case None
  then show ?thesis using Q [OF g] by (simp add: expireIfNeeded_def getExpire_def)
next
  case (Some tm)
  have dict: "db_dict (sv_db s1 d) k \<noteq> None"
    using good_db_ok [OF g, of d] Some by (auto simp: db_ok_def)
  obtain now s2 where clk: "(case lua_start s1 of Some t \<Rightarrow> (t, s1) | None \<Rightarrow> mstime s1) = (now, s2)" by fastforce
  have s2: "s2 = s1 \<or> s2 = snd (mstime s1)" using clk by (auto split: option.splits dest: arg_cong [where f = snd])
  have g2: "good X p s s2" using s2 g by auto
  have l2: "lapse d k s1 s2" using s2 lapse_quiet [of "snd (mstime s1)" s1 d k s1] by auto
  have lm: "loading s2 = loading s1" "masterhost s2 = masterhost s1"
    using l2 by (simp_all add: lapse_def fixed_def)
  define s3 where "s3 = notifyKeyspaceEvent REDIS_NOTIFY_EXPIRED ''expired'' k d
    (propagateExpire d k (s2\<lparr>stat_expiredkeys := Suc (stat_expiredkeys s2)\<rparr>))"
  have g3: "good X p s s3" and log: "logged s s3"
    using good_propagate [of X p s "s2\<lparr>stat_expiredkeys := Suc (stat_expiredkeys s2)\<rparr>" d k] g2
    by (simp_all add: s3_def logged_def)
  have same3: "fixed s3 = fixed s1" "sv_db s3 = sv_db s1" "sv_client s3 = sv_client s1" "dirty s3 = dirty s1"
    using s2 by (auto simp: s3_def) (auto simp: fixed_def mstime_def ustime_def Let_def)
  have g4: "good X p s (snd (dbDelete d k s3))"
    by (rule good_delete [OF g3]) (use Some log in \<open>simp add: same3\<close>)
  have l4: "lapse d k s1 (snd (dbDelete d k s3))" if "\<not> loading s1" "\<not> masterhost s1"
    using that Some same3 by (simp add: lapse_def entry_delete, simp add: entry_def)
  show ?thesis
    using Some dict Q [OF g lapse_refl] Q [OF g2 l2] Q [OF g4 l4] clk lm
    by (auto simp: expireIfNeeded_def getExpire_def s3_def Let_def wp_def dbDelete_upd)
qed

lemma wp_lookupWrite:
  assumes g: "good X p s s1"
    and Q: "\<And>s2. good X p s s2 \<Longrightarrow> lapse d k s1 s2 \<Longrightarrow> Q (db_dict (sv_db s2 d) k, s2)"
  shows "wp (lookupKeyWrite d k s1) Q"
  unfolding lookupKeyWrite_def wp_simps lookupKey_def by (rule wp_expire [OF g]) (simp add: Q)

lemma wp_lookupRead:
  assumes g: "good X p s s1"
    and Q: "\<And>s2. good X p s s2 \<Longrightarrow> lapse d k s1 s2 \<Longrightarrow> Q (db_dict (sv_db s2 d) k, s2)"
  shows "wp (lookupKeyRead d k s1) Q"
proof -
  have "Q (db_dict (sv_db s2 d) k, if db_dict (sv_db s2 d) k = None
      then s2\<lparr>stat_keyspace_misses := Suc (stat_keyspace_misses s2)\<rparr>
      else s2\<lparr>stat_keyspace_hits := Suc (stat_keyspace_hits s2)\<rparr>)"
    if "good X p s s2" "lapse d k s1 s2" for s2
  proof -
    define s3 where "s3 = (if db_dict (sv_db s2 d) k = None
      then s2\<lparr>stat_keyspace_misses := Suc (stat_keyspace_misses s2)\<rparr>
      else s2\<lparr>stat_keyspace_hits := Suc (stat_keyspace_hits s2)\<rparr>)"
    have "good X p s s3" using that(1) by (simp add: s3_def)
    moreover have "lapse d k s1 s3" using that(2) by (subst lapse_quiet [of _ s2]) (simp_all add: s3_def fixed_def)
    moreover have "sv_db s3 = sv_db s2" by (simp add: s3_def)
    ultimately show ?thesis using Q [of s3] by (simp add: s3_def)
  qed
  then show ?thesis
    unfolding lookupKeyRead_def wp_simps lookupKey_def Let_def by (intro wp_expire [OF g]) simp
qed

section \<open>Compound operations\<close>

lemma lapseD:
  assumes "lapse d k s s'"
  shows "fixed s' = fixed s" "sv_client s' = sv_client s" "dirty s' = dirty s" "client_db s' c = client_db s c"
    "argv s' c j = argv s c j" "arg s' c j = arg s c j" "argc s' c = argc s c"
  using assms by (simp_all add: lapse_def client_db_def argv_def arg_def argc_def)

lemma wp_lookupReadOrReply:
  assumes g: "good X p s s1"
    and none: "\<And>s2. good X p s s2 \<Longrightarrow> Q (None, s2)"
    and some: "\<And>s2 v. good X p s s2 \<Longrightarrow> lapse (client_db s1 c) k s1 s2 \<Longrightarrow>
      db_dict (sv_db s2 (client_db s1 c)) k = Some v \<Longrightarrow> Q (Some v, s2)"
  shows "wp (lookupKeyReadOrReply c k r s1) Q"
  unfolding lookupKeyReadOrReply_def wp_simps
proof (rule wp_lookupRead [OF g])
  fix s2
  assume "good X p s s2" "lapse (client_db s1 c) k s1 s2"
  then show "case (db_dict (sv_db s2 (client_db s1 c)) k, s2) of
      (v, s) \<Rightarrow> Q (v, if v = None then addReply c r s else s)"
    using none [of "addReply c r s2"] some [of s2] by (cases "db_dict (sv_db s2 (client_db s1 c)) k") simp_all
qed

lemma wp_lookupWriteOrReply:
  assumes g: "good X p s s1"
    and none: "\<And>s2. good X p s s2 \<Longrightarrow> Q (None, s2)"
    and some: "\<And>s2 v. good X p s s2 \<Longrightarrow> lapse (client_db s1 c) k s1 s2 \<Longrightarrow>
      db_dict (sv_db s2 (client_db s1 c)) k = Some v \<Longrightarrow> Q (Some v, s2)"
  shows "wp (lookupKeyWriteOrReply c k r s1) Q"
  unfolding lookupKeyWriteOrReply_def wp_simps
proof (rule wp_lookupWrite [OF g])
  fix s2
  assume "good X p s s2" "lapse (client_db s1 c) k s1 s2"
  then show "case (db_dict (sv_db s2 (client_db s1 c)) k, s2) of
      (v, s) \<Rightarrow> Q (v, if v = None then addReply c r s else s)"
    using none [of "addReply c r s2"] some [of s2] by (cases "db_dict (sv_db s2 (client_db s1 c)) k") simp_all
qed

text \<open>The state after a write of one key, as far as the rest of a command can see.\<close>

definition wrote :: "nat \<Rightarrow> bytes \<Rightarrow> robj option \<times> int option \<Rightarrow> server \<Rightarrow> server \<Rightarrow> bool" where
  "wrote d k e s s' \<longleftrightarrow>
     fixed s' = fixed s \<and> dirty s' = dirty s \<and>
     (\<forall>d' k'. entry s' d' k' = (if (d', k') = (d, k) then e else entry s d' k')) \<and>
     (\<forall>w. c_argv (sv_client s' w) = c_argv (sv_client s w) \<and> c_db (sv_client s' w) = c_db (sv_client s w))"

lemma wrote_entry:
  assumes "wrote d k (v, tm) s s'"
  shows "db_dict (sv_db s' d) k = v" "db_expires (sv_db s' d) k = tm"
proof -
  have "entry s' d k = (v, tm)" using assms by (simp add: wrote_def)
  then show "db_dict (sv_db s' d) k = v" "db_expires (sv_db s' d) k = tm" by (simp_all add: entry_def)
qed

lemma sv_signal:
  "sv_db (signalModifiedKey d k s) = sv_db s" "dirty (signalModifiedKey d k s) = dirty s"
  "fixed (signalModifiedKey d k s) = fixed s" "repl_log (signalModifiedKey d k s) = repl_log s"
  "c_argv (sv_client (signalModifiedKey d k s) w) = c_argv (sv_client s w)"
  "c_db (sv_client (signalModifiedKey d k s) w) = c_db (sv_client s w)"
  by (auto simp: signalModifiedKey_def touchWatchedKey_def fold_flag fixed_def split: option.split)

lemma wp_setKey:
  assumes g: "good X p s s1" and v: "val_ok (hash_seed s1) v"
    and Q: "\<And>s2. good X True s s2 \<Longrightarrow> wrote d k (Some v, None) s1 s2 \<Longrightarrow> touched s2 d k \<Longrightarrow> Q s2"
  shows "wp (setKey d k v s1) Q"
proof -
  have g1: "good (insert (d, k) X) True s s1" using g by (rule good_weaken) auto
  show ?thesis
    unfolding setKey_def wp_simps
  proof (rule wp_lookupWrite [OF g1], simp only: prod.case)
    fix s2
    assume g2: "good (insert (d, k) X) True s s2" and l: "lapse d k s1 s2"
    define s3 where "s3 = db_put d k v s2"
    define s4 where "s4 = upd_db d (db_expires_update (\<lambda>m. m(k := None))) s3"
    have v2: "val_ok (hash_seed s2) v" using v lapseD(1) [OF l] by (simp add: fixed_def)
    have "good (insert (d, k) X) True s s3" unfolding s3_def by (rule good_put [OF g2 v2]) simp_all
    then have g4: "good (insert (d, k) X) True s s4" unfolding s4_def by (rule good_remove_expires) simp
    then have "good X True s (signalModifiedKey d k s4)" by (rule good_signal)
    moreover have "wrote d k (Some v, None) s1 (signalModifiedKey d k s4)"
      unfolding wrote_def
    proof (intro conjI allI)
      show "fixed (signalModifiedKey d k s4) = fixed s1" "dirty (signalModifiedKey d k s4) = dirty s1"
        using lapseD [OF l] by (simp_all add: sv_signal s4_def s3_def db_put_def upd_db_def) (simp add: fixed_def)
      show "entry (signalModifiedKey d k s4) d' k' = (if (d', k') = (d, k) then (Some v, None) else entry s1 d' k')" for d' k'
        using l by (simp add: lapse_def entry_def s4_def s3_def db_put_def upd_db_def sv_signal)
      show "c_argv (sv_client (signalModifiedKey d k s4) w) = c_argv (sv_client s1 w)"
        "c_db (sv_client (signalModifiedKey d k s4) w) = c_db (sv_client s1 w)" for w
        using lapseD(2) [OF l] by (simp_all add: sv_signal s4_def s3_def db_put_def upd_db_def)
    qed
    moreover have "touched (signalModifiedKey d k s4) d k" by (rule touched_signal [OF good_ok [OF g4]])
    ultimately have "Q (signalModifiedKey d k s4)" by (rule Q)
    then show "if db_dict (sv_db s2 d) k = None
      then wp (dbAdd d k v s2) (\<lambda>s. wp (removeExpire d k s) (\<lambda>(_, s). Q (signalModifiedKey d k s)))
      else wp (dbOverwrite d k v s2) (\<lambda>s. wp (removeExpire d k s) (\<lambda>(_, s). Q (signalModifiedKey d k s)))"
      by (auto simp: dbAdd_def dbOverwrite_def removeExpire_def s4_def s3_def db_put_def upd_db_def)
  qed
qed

end
