(* ===== verification/Db_Commands.thy ===== *)
theory Db_Commands
  imports Db
begin

text \<open>
  The type-agnostic commands of \<^verbatim>\<open>db.c\<close>: DEL, EXISTS, SELECT, DBSIZE, TYPE, RENAME, MOVE,
  FLUSHDB, FLUSHALL, the EXPIRE family, TTL and PERSIST.  Not modelled: KEYS, SCAN and RANDOMKEY
  (their answers depend on the layout of the hash table) and SHUTDOWN.
\<close>

section \<open>Command lookup and rewriting\<close>

text \<open>
  The command tables compare names case-insensitively; here they are indexed by the lower-case
  name (for names without NUL bytes).
\<close>

definition lookupCommand :: "server \<Rightarrow> bytes \<Rightarrow> redisCommand option" where
  "lookupCommand s name = commands s (map lower name)"

definition lookupCommandOrOriginal :: "server \<Rightarrow> bytes \<Rightarrow> redisCommand option" where
  "lookupCommandOrOriginal s name =
     (case commands s (map lower name) of
        Some cmd \<Rightarrow> Some cmd
      | None \<Rightarrow> orig_commands s (map lower name))"

definition rewriteClientCommandVector :: "nat \<Rightarrow> strobj list \<Rightarrow> server \<Rightarrow> server option" where
  "rewriteClientCommandVector c av s =
     (let s = upd_client c (\<lambda>cl. cl\<lparr>c_argv := av\<rparr>) s
      in case lookupCommandOrOriginal s (arg s c 0) of
           None \<Rightarrow> None
         | Some cmd \<Rightarrow> Some (upd_client c (\<lambda>cl. cl\<lparr>c_cmd := cmd\<rparr>) s))"

section \<open>Commands\<close>

definition flushdbCommand :: "nat \<Rightarrow> server \<Rightarrow> server option" where
  "flushdbCommand c s =
     (let d = client_db s c;
          s = add_dirty (int (db_size (sv_db s d))) s;
          s = signalFlushedDb (Some d) s;
          s = upd_db d empty_db s
      in Some (addReply c shared_ok s))"

text \<open>
  Killing a saving child and saving the empty database leave the modelled state alone, but for the
  counter of changes, which is kept in an \<^verbatim>\<open>int\<close> meanwhile.
\<close>

definition flushallCommand :: "nat \<Rightarrow> server \<Rightarrow> server option" where
  "flushallCommand c s =
     (let s = signalFlushedDb None s;
          (removed, s) = emptyDb s;
          s = add_dirty removed s;
          s = addReply c shared_ok s;
          s = (if 0 < saveparamslen s then s\<lparr>dirty := c_int (dirty s)\<rparr> else s)
      in Some (add_dirty 1 s))"

fun del_loop :: "nat \<Rightarrow> bytes list \<Rightarrow> int \<Rightarrow> server \<Rightarrow> (int \<times> server) option" where
  "del_loop d [] deleted s = Some (deleted, s)"
| "del_loop d (key # keys) deleted s = do {
     (_, s) \<leftarrow> expireIfNeeded d key s;
     let (found, s) = dbDelete d key s;
     if found then
       let s = signalModifiedKey d key s;
           s = notifyKeyspaceEvent REDIS_NOTIFY_GENERIC ''del'' key d s;
           s = add_dirty 1 s
       in del_loop d keys (deleted + 1) s
     else del_loop d keys deleted s
   }"

definition delCommand :: "nat \<Rightarrow> server \<Rightarrow> server option" where
  "delCommand c s = do {
     (deleted, s) \<leftarrow> del_loop (client_db s c) (map (arg s c) [1..<argc s c]) 0 s;
     Some (addReplyLongLong c deleted s)
   }"

definition existsCommand :: "nat \<Rightarrow> server \<Rightarrow> server option" where
  "existsCommand c s = do {
     (_, s) \<leftarrow> expireIfNeeded (client_db s c) (arg s c 1) s;
     Some (if dbExists s (client_db s c) (arg s c 1) then addReply c shared_cone s
           else addReply c shared_czero s)
   }"

text \<open>The index is read as a \<^verbatim>\<open>long\<close> and passed to \<^verbatim>\<open>selectDb\<close> as an \<^verbatim>\<open>int\<close>.\<close>

definition selectCommand :: "nat \<Rightarrow> server \<Rightarrow> server option" where
  "selectCommand c s =
     (case getLongFromObjectOrReply c (Some (argv s c 1)) (Some ''invalid DB index'') s of
        (None, s) \<Rightarrow> Some s
      | (Some i, s) \<Rightarrow>
          case selectDb c (c_int i) s of
            None \<Rightarrow> Some (addReplyError c ''invalid DB index'' s)
          | Some s \<Rightarrow> Some (addReply c shared_ok s))"

definition dbsizeCommand :: "nat \<Rightarrow> server \<Rightarrow> server option" where
  "dbsizeCommand c s = Some (addReplyLongLong c (int (db_size (sv_db s (client_db s c)))) s)"

definition typeCommand :: "nat \<Rightarrow> server \<Rightarrow> server option" where
  "typeCommand c s = do {
     (v, s) \<leftarrow> lookupKeyRead (client_db s c) (arg s c 1) s;
     Some (addReplyStatus c
       (case v of
          None \<Rightarrow> ''none''
        | Some v \<Rightarrow>
            (case otype v of
               REDIS_STRING \<Rightarrow> ''string'' | REDIS_LIST \<Rightarrow> ''list'' | REDIS_SET \<Rightarrow> ''set''
             | REDIS_ZSET \<Rightarrow> ''zset'' | REDIS_HASH \<Rightarrow> ''hash'')) s)
   }"

text \<open>Renaming once the source was found.\<close>

definition rename_found :: "nat \<Rightarrow> bool \<Rightarrow> nat \<Rightarrow> bytes \<Rightarrow> bytes \<Rightarrow> robj \<Rightarrow> server \<Rightarrow> server option" where
  "rename_found c nx d src dst ob s = do {
     expire \<leftarrow> getExpire s d src;
     (old, s) \<leftarrow> lookupKeyWrite d dst s;
     if old \<noteq> None \<and> nx then Some (addReply c shared_czero s)
     else do {
       let s = (if old \<noteq> None then snd (dbDelete d dst s) else s);
       s \<leftarrow> dbAdd d dst ob s;
       s \<leftarrow> (if expire \<noteq> - 1 then setExpire d dst expire s else Some s);
       let s = snd (dbDelete d src s);
       let s = signalModifiedKey d src s;
       let s = signalModifiedKey d dst s;
       let s = notifyKeyspaceEvent REDIS_NOTIFY_GENERIC ''rename_from'' src d s;
       let s = notifyKeyspaceEvent REDIS_NOTIFY_GENERIC ''rename_to'' dst d s;
       let s = add_dirty 1 s;
       Some (addReply c (if nx then shared_cone else shared_ok) s)
     }
   }"

definition renameGenericCommand :: "nat \<Rightarrow> bool \<Rightarrow> server \<Rightarrow> server option" where
  "renameGenericCommand c nx s =
     (let src = arg s c 1; dst = arg s c 2
      in if src = dst then Some (addReply c shared_sameobjecterr s)
         else do {
           (v, s) \<leftarrow> lookupKeyWriteOrReply c src shared_nokeyerr s;
           case v of
             None \<Rightarrow> Some s
           | Some ob \<Rightarrow> rename_found c nx (client_db s c) src dst ob s
         })"

definition renameCommand :: "nat \<Rightarrow> server \<Rightarrow> server option" where
  "renameCommand c = renameGenericCommand c False"

definition renamenxCommand :: "nat \<Rightarrow> server \<Rightarrow> server option" where
  "renamenxCommand c = renameGenericCommand c True"

text \<open>The database a MOVE asks for; the client is switched to it and back.\<close>

definition move_target :: "nat \<Rightarrow> server \<Rightarrow> (nat \<times> server) option" where
  "move_target c s =
     (case getLongLongFromObject (Some (argv s c 2)) of
        None \<Rightarrow> None
      | Some dbid \<Rightarrow>
          if dbid < - (2 ^ 31) \<or> 2 ^ 31 - 1 < dbid then None
          else case selectDb c dbid s of
                 None \<Rightarrow> None
               | Some s' \<Rightarrow>
                   let dst = client_db s' c
                   in Some (dst, case selectDb c (int (client_db s c)) s' of None \<Rightarrow> s' | Some s'' \<Rightarrow> s''))"

definition move_key :: "nat \<Rightarrow> nat \<Rightarrow> nat \<Rightarrow> bytes \<Rightarrow> server \<Rightarrow> server option" where
  "move_key c src dst key s = do {
     (v, s) \<leftarrow> lookupKeyWrite src key s;
     case v of
       None \<Rightarrow> Some (addReply c shared_czero s)
     | Some ob \<Rightarrow> do {
         (old, s) \<leftarrow> lookupKeyWrite dst key s;
         if old \<noteq> None then Some (addReply c shared_czero s)
         else do {
           s \<leftarrow> dbAdd dst key ob s;
           let s = snd (dbDelete src key s);
           let s = add_dirty 1 s;
           Some (addReply c shared_cone s)
         }
       }
   }"

definition moveCommand :: "nat \<Rightarrow> server \<Rightarrow> server option" where
  "moveCommand c s =
     (case move_target c s of
        None \<Rightarrow> Some (addReply c shared_outofrangeerr s)
      | Some (dst, s) \<Rightarrow>
          if client_db s c = dst then Some (addReply c shared_sameobjecterr s)
          else move_key c (client_db s c) dst (arg s c 1) s)"

section \<open>Expiration\<close>

datatype time_unit = UNIT_SECONDS | UNIT_MILLISECONDS

text \<open>The time of expiration is known: a key whose time has come is deleted at once.\<close>

definition expire_key :: "nat \<Rightarrow> nat \<Rightarrow> bytes \<Rightarrow> int \<Rightarrow> server \<Rightarrow> server option" where
  "expire_key c d key tm s =
     (let (now, s) = mstime s
      in if tm \<le> now \<and> \<not> loading s \<and> \<not> masterhost s then
           let (found, s) = dbDelete d key s
           in if \<not> found then None
              else do {
                let s = add_dirty 1 s;
                s \<leftarrow> rewriteClientCommandVector c [ObjRaw (str ''DEL''), argv s c 1] s;
                let s = signalModifiedKey d key s;
                let s = notifyKeyspaceEvent REDIS_NOTIFY_GENERIC ''del'' key d s;
                Some (addReply c shared_cone s)
              }
         else do {
           s \<leftarrow> setExpire d key tm s;
           let s = addReply c shared_cone s;
           let s = signalModifiedKey d key s;
           let s = notifyKeyspaceEvent REDIS_NOTIFY_GENERIC ''expire'' key d s;
           Some (add_dirty 1 s)
         })"

definition expireGenericCommand :: "nat \<Rightarrow> int \<Rightarrow> time_unit \<Rightarrow> server \<Rightarrow> server option" where
  "expireGenericCommand c basetime unit s =
     (let d = client_db s c; key = arg s c 1
      in case getLongLongFromObjectOrReply c (Some (argv s c 2)) None s of
           (None, s) \<Rightarrow> Some s
         | (Some tm, s) \<Rightarrow>
             let tm = (if unit = UNIT_SECONDS then llong (tm * 1000) else tm);
                 tm = llong (tm + basetime)
             in do {
               (v, s) \<leftarrow> lookupKeyRead d key s;
               if v = None then Some (addReply c shared_czero s)
               else expire_key c d key tm s
             })"

definition expireCommand :: "nat \<Rightarrow> server \<Rightarrow> server option" where
  "expireCommand c s = (let (now, s) = mstime s in expireGenericCommand c now UNIT_SECONDS s)"

definition expireatCommand :: "nat \<Rightarrow> server \<Rightarrow> server option" where
  "expireatCommand c s = expireGenericCommand c 0 UNIT_SECONDS s"

definition pexpireCommand :: "nat \<Rightarrow> server \<Rightarrow> server option" where
  "pexpireCommand c s = (let (now, s) = mstime s in expireGenericCommand c now UNIT_MILLISECONDS s)"

definition pexpireatCommand :: "nat \<Rightarrow> server \<Rightarrow> server option" where
  "pexpireatCommand c s = expireGenericCommand c 0 UNIT_MILLISECONDS s"

definition ttlGenericCommand :: "nat \<Rightarrow> bool \<Rightarrow> server \<Rightarrow> server option" where
  "ttlGenericCommand c output_ms s =
     (let d = client_db s c; key = arg s c 1
      in do {
        (v, s) \<leftarrow> lookupKeyRead d key s;
        if v = None then Some (addReplyLongLong c (- 2) s)
        else do {
          expire \<leftarrow> getExpire s d key;
          let (ttl, s) =
            (if expire \<noteq> - 1
             then let (now, s) = mstime s;
                      ttl = llong (expire - now)
                  in (if ttl < 0 then 0 else ttl, s)
             else (- 1, s));
          Some (if ttl = - 1 then addReplyLongLong c (- 1) s
                else addReplyLongLong c (if output_ms then ttl else llong (ttl + 500) sdiv 1000) s)
        }
      })"

definition ttlCommand :: "nat \<Rightarrow> server \<Rightarrow> server option" where
  "ttlCommand c = ttlGenericCommand c False"

definition pttlCommand :: "nat \<Rightarrow> server \<Rightarrow> server option" where
  "pttlCommand c = ttlGenericCommand c True"

definition persistCommand :: "nat \<Rightarrow> server \<Rightarrow> server option" where
  "persistCommand c s =
     (let d = client_db s c; key = arg s c 1
      in if db_dict (sv_db s d) key = None then Some (addReply c shared_czero s)
         else do {
           (removed, s) \<leftarrow> removeExpire d key s;
           Some (if removed then add_dirty 1 (addReply c shared_cone s)
                 else addReply c shared_czero s)
         })"

section \<open>Every command is good\<close>

declare One_nat_def [simp del]

text \<open>
  \<open>good {} False s\<close> after a command from \<open>s\<close>: it aborted nowhere, the invariant holds
  again, the watchers of every changed key are flagged and the change is counted or logged.
\<close>

lemma view_cmd [simp]:
  "view (upd_client c (\<lambda>cl. cl\<lparr>c_argv := av\<rparr>) s) = view s" "view (upd_client c (\<lambda>cl. cl\<lparr>c_cmd := cmd\<rparr>) s) = view s"
  by (rule view_client, simp)+

lemmas good_neutral_cmd [simp] = good_view [OF view_cmd(1)] good_view [OF view_cmd(2)]

lemma client_neutral [simp]:
  "sv_db (upd_client c f s) = sv_db s" "fixed (upd_client c f s) = fixed s" "dirty (upd_client c f s) = dirty s"
  "repl_log (upd_client c f s) = repl_log s"
  by (simp_all add: upd_client_def fixed_def)

lemma wp_rewrite:
  assumes g: "good X p s s1" and cmd: "orig_commands s1 (map lower (getDecodedObject ob)) \<noteq> None"
    and Q: "\<And>s2. good X p s s2 \<Longrightarrow> sv_db s2 = sv_db s1 \<Longrightarrow> fixed s2 = fixed s1 \<Longrightarrow> dirty s2 = dirty s1 \<Longrightarrow>
      (\<And>w. c_watched (sv_client s2 w) = c_watched (sv_client s1 w)) \<Longrightarrow> c_argv (sv_client s2 c) = ob # av \<Longrightarrow> Q s2"
  shows "wp (rewriteClientCommandVector c (ob # av) s1) Q"
proof -
  define s2 where "s2 = upd_client c (\<lambda>cl. cl\<lparr>c_argv := ob # av\<rparr>) s1"
  have "orig_commands s2 = orig_commands s1" "arg s2 c 0 = getDecodedObject ob"
    by (simp_all add: s2_def upd_client_def arg_def argv_def)
  then obtain cm where cm: "lookupCommandOrOriginal s2 (arg s2 c 0) = Some cm"
    using cmd by (cases "commands s2 (map lower (getDecodedObject ob))") (auto simp: lookupCommandOrOriginal_def)
  have "Q (upd_client c (\<lambda>cl. cl\<lparr>c_cmd := cm\<rparr>) s2)"
    by (rule Q) (use g in \<open>simp_all add: s2_def, auto simp: upd_client_def\<close>)
  then show ?thesis using cm by (simp add: rewriteClientCommandVector_def s2_def Let_def)
qed

lemma good_fixed: "good X p s s1 \<Longrightarrow> fixed s1 = fixed s"
  by (simp add: good_def advance_def)

lemma orig_del: "good X p s s1 \<Longrightarrow> orig_commands s1 (map lower (str ''DEL'')) \<noteq> None"
proof -
  assume "good X p s s1"
  moreover have "map lower (str ''DEL'') = str ''del''" by (simp add: lower_def)
  ultimately show ?thesis using good_ok by (simp add: server_ok_def)
qed

lemma existsCommand_good: "server_ok s \<Longrightarrow> wp (existsCommand c s) (good {} False s)"
  unfolding existsCommand_def wp_simps by (rule wp_expire [OF good_refl]) auto

lemma dbsizeCommand_good: "server_ok s \<Longrightarrow> wp (dbsizeCommand c s) (good {} False s)"
  by (simp add: dbsizeCommand_def good_refl)

lemma typeCommand_good: "server_ok s \<Longrightarrow> wp (typeCommand c s) (good {} False s)"
  unfolding typeCommand_def wp_simps by (rule wp_lookupRead [OF good_refl]) auto

lemma good_reply_num:
  "getLongLongFromObjectOrReply c ob msg s1 = (r, s2) \<Longrightarrow> good X p s s1 \<Longrightarrow> good X p s s2 \<and> sv_db s2 = sv_db s1 \<and> fixed s2 = fixed s1"
  "getLongFromObjectOrReply c ob msg s1 = (r, s2) \<Longrightarrow> good X p s s1 \<Longrightarrow> good X p s s2 \<and> sv_db s2 = sv_db s1 \<and> fixed s2 = fixed s1"
proof -
  have v: "view s2 = view s1 \<Longrightarrow> good X p s s1 \<Longrightarrow> good X p s s2 \<and> sv_db s2 = sv_db s1 \<and> fixed s2 = fixed s1"
    using good_view [of s2 s1 X p s] by (simp add: view_def)
  show "getLongLongFromObjectOrReply c ob msg s1 = (r, s2) \<Longrightarrow> good X p s s1 \<Longrightarrow> good X p s s2 \<and> sv_db s2 = sv_db s1 \<and> fixed s2 = fixed s1"
    using view_getLongLong(1) [of c ob msg s1] v by simp
  show "getLongFromObjectOrReply c ob msg s1 = (r, s2) \<Longrightarrow> good X p s s1 \<Longrightarrow> good X p s s2 \<and> sv_db s2 = sv_db s1 \<and> fixed s2 = fixed s1"
    using view_getLongLong(2) [of c ob msg s1] v by simp
qed

lemma good_select:
  assumes g: "good X p s s1" and sel: "selectDb c i s1 = Some s2"
  shows "good X p s s2 \<and> sv_db s2 = sv_db s1 \<and> fixed s2 = fixed s1 \<and> client_db s2 c = nat i \<and> nat i < sv_dbnum s1"
proof -
  have i: "nat i < sv_dbnum s1" and s2: "s2 = upd_client c (c_db_update (\<lambda>_. nat i)) s1"
    using sel by (auto simp: selectDb_def split: if_splits)
  have cl: "c_watched (sv_client s2 w) = c_watched (sv_client s1 w)" "c_mstate (sv_client s2 w) = c_mstate (sv_client s1 w)"
    "c_flags (sv_client s2 w) = c_flags (sv_client s1 w)" for w
    by (simp_all add: s2 upd_client_def)
  have eq: "fixed s2 = fixed s1" "sv_db s2 = sv_db s1" "dirty s2 = dirty s1" "repl_log s2 = repl_log s1"
    by (simp_all add: s2)
  have "server_ok s2"
    using good_ok [OF g] i by (simp add: server_ok_def watch_ok_def cl) (simp add: s2 upd_client_def)
  moreover have "advance X p s s2 = advance X p s s1"
    by (simp only: advance_def client_le_def content_def touched_def logged_def eq cl)
  ultimately show ?thesis using g i by (simp add: good_def eq) (simp add: s2 upd_client_def client_db_def)
qed

lemma selectCommand_good:
  assumes "server_ok s"
  shows "wp (selectCommand c s) (good {} False s)"
proof -
  obtain r s1 where n: "getLongFromObjectOrReply c (Some (argv s c 1)) (Some ''invalid DB index'') s = (r, s1)"
    by fastforce
  have g: "good {} False s s1" using good_reply_num(2) [OF n good_refl [OF assms]] by simp
  show ?thesis
    unfolding selectCommand_def n prod.case using g good_select [OF g, of c] by (auto split: option.split)
qed

lemma del_loop_good:
  "good {} False s s1 \<Longrightarrow> wp (del_loop d ks n s1) (\<lambda>(m, s2). good {} False s s2)"
proof (induction ks arbitrary: n s1)
  case (Cons k ks)
  show ?case
    unfolding del_loop.simps wp_simps Let_def
  proof (rule wp_expire [OF Cons.prems], simp only: prod.case)
    fix s2
    assume g: "good {} False s s2"
    have gd: "good {(d, k)} True s (snd (dbDelete d k s2))"
      by (rule good_delete [OF good_False [OF g]]) simp
    show "case dbDelete d k s2 of (found, s3) \<Rightarrow>
        if found then wp (del_loop d ks (n + 1) (add_dirty 1
            (notifyKeyspaceEvent REDIS_NOTIFY_GENERIC ''del'' k d (signalModifiedKey d k s3)))) (\<lambda>(m, s2). good {} False s s2)
        else wp (del_loop d ks n s3) (\<lambda>(m, s2). good {} False s s2)"
    proof (cases "db_dict (sv_db s2 d) k = None")
      case True
      then have "good {} False s (snd (dbDelete d k s2))" by (intro good_delete [OF g]) simp
      then show ?thesis using Cons.IH True by (simp add: dbDelete_upd)
    next
      case False
      have "good {} False s (add_dirty 1 (notifyKeyspaceEvent REDIS_NOTIFY_GENERIC ''del'' k d
          (signalModifiedKey d k (snd (dbDelete d k s2)))))"
        by (rule good_dirty [where q = True]) (simp_all add: good_signal [OF gd])
      then show ?thesis using Cons.IH False by (simp add: dbDelete_upd)
    qed
  qed
qed simp

lemma delCommand_good: "server_ok s \<Longrightarrow> wp (delCommand c s) (good {} False s)"
  unfolding delCommand_def wp_simps
  by (rule wp_mono [OF del_loop_good [OF good_refl]]) auto

lemma lapse_entry: "lapse d k s s' \<Longrightarrow> (d', k') \<noteq> (d, k) \<Longrightarrow> entry s' d' k' = entry s d' k'"
  by (simp add: lapse_def)

lemma getExpire_ok:
  assumes "good X p s s1" "db_dict (sv_db s1 d) k \<noteq> None"
  shows "\<exists>tm. getExpire s1 d k = Some tm"
  using assms(2) by (auto simp: getExpire_def split: option.split)

lemma good_val_ok: "good X p s s1 \<Longrightarrow> db_dict (sv_db s1 d) k = Some v \<Longrightarrow> val_ok (hash_seed s1) v"
  using good_db_ok [of X p s s1 d] by (simp add: db_ok_def)

lemma rename_found_good:
  assumes g: "good {} False s s1" and src: "db_dict (sv_db s1 d) src = Some ob" and ne: "src \<noteq> dst"
  shows "wp (rename_found c nx d src dst ob s1) (good {} False s)"
proof -
  define X where "X = {(d, dst), (d, src)}"
  obtain tm where tm: "getExpire s1 d src = Some tm" using getExpire_ok [OF g, of d src] src by auto
  have fin: "good {} False s (addReply c r (add_dirty 1 (notifyKeyspaceEvent REDIS_NOTIFY_GENERIC ''rename_to'' dst d
      (notifyKeyspaceEvent REDIS_NOTIFY_GENERIC ''rename_from'' src d
        (signalModifiedKey d dst (signalModifiedKey d src (snd (dbDelete d src s5))))))))"
    if g5: "good X True s s5" for s5 r
  proof -
    have "good (insert (d, src) {(d, dst)}) True s (snd (dbDelete d src s5))"
      using good_delete [OF g5, of d src] by (simp add: X_def insert_commute)
    then have "good {} True s (signalModifiedKey d dst (signalModifiedKey d src (snd (dbDelete d src s5))))"
      by (intro good_signal)
    then show ?thesis by (simp, intro good_dirty [where q = True]) simp_all
  qed
  show ?thesis
    unfolding rename_found_def tm Option.bind.simps wp_bind
  proof (rule wp_lookupWrite [OF g], unfold prod.case)
    fix s2
    assume g2: "good {} False s s2" and l: "lapse d dst s1 s2"
    have src2: "db_dict (sv_db s2 d) src = Some ob"
      using lapse_entry [OF l, of d src] ne src by (simp add: entry_def)
    define s3 where "s3 = (if db_dict (sv_db s2 d) dst \<noteq> None then snd (dbDelete d dst s2) else s2)"
    have g3: "good X True s s3"
      using good_False [OF g2, of X True] good_delete [OF good_False [OF g2, of X True], of d dst]
      by (simp add: s3_def X_def)
    have s3: "db_dict (sv_db s3 d) dst = None" "db_dict (sv_db s3 d) src = Some ob"
      using src2 ne by (simp_all add: s3_def dbDelete_upd upd_db_def)
    have g4: "good X True s (db_put d dst ob s3)"
      by (rule good_put [OF g3 good_val_ok [OF g3 s3(2)]]) (simp_all add: X_def)
    have g5: "wp (if tm \<noteq> - 1 then setExpire d dst tm (db_put d dst ob s3) else Some (db_put d dst ob s3)) (good X True s)"
      using good_setExpire [OF g4, of d dst tm] g4 by (simp add: X_def db_put_def upd_db_def)
    show "wp (if db_dict (sv_db s2 d) dst \<noteq> None \<and> nx then Some (addReply c shared_czero s2)
      else do {
        let s = (if db_dict (sv_db s2 d) dst \<noteq> None then snd (dbDelete d dst s2) else s2);
        s \<leftarrow> dbAdd d dst ob s;
        s \<leftarrow> (if tm \<noteq> - 1 then setExpire d dst tm s else Some s);
        let s = snd (dbDelete d src s);
        let s = signalModifiedKey d src s;
        let s = signalModifiedKey d dst s;
        let s = notifyKeyspaceEvent REDIS_NOTIFY_GENERIC ''rename_from'' src d s;
        let s = notifyKeyspaceEvent REDIS_NOTIFY_GENERIC ''rename_to'' dst d s;
        let s = add_dirty 1 s;
        Some (addReply c (if nx then shared_cone else shared_ok) s)
      }) (good {} False s)"
      unfolding s3_def [symmetric] Let_def
      using g2 s3(1) wp_mono [OF g5 fin] by (simp del: wp_if add: dbAdd_def)
  qed
qed

lemma renameGenericCommand_good:
  assumes ok: "server_ok s"
  shows "wp (renameGenericCommand c nx s) (good {} False s)"
proof (cases "arg s c 1 = arg s c 2")
  case True
  then show ?thesis using ok by (simp add: renameGenericCommand_def good_refl)
next
  case False
  then show ?thesis
    unfolding renameGenericCommand_def Let_def if_not_P [OF False] wp_simps
    by (intro wp_lookupWriteOrReply [OF good_refl [OF ok]])
      (simp_all add: lapseD(4), rule rename_found_good)
qed

text \<open>MOVE meets its obligations except for the two keys it changes.\<close>

lemma move_key_good:
  assumes g: "good {} False s s1" and ne: "src \<noteq> dst"
  shows "wp (move_key c src dst key s1) (good {(src, key), (dst, key)} False s)"
  unfolding move_key_def wp_bind
proof (rule wp_lookupWrite [OF g], unfold prod.case)
  fix s2
  assume g2: "good {} False s s2"
  show "wp (case db_dict (sv_db s2 src) key of
       None \<Rightarrow> Some (addReply c shared_czero s2)
     | Some ob \<Rightarrow> do {
         (old, s) \<leftarrow> lookupKeyWrite dst key s2;
         if old \<noteq> None then Some (addReply c shared_czero s)
         else do {
           s \<leftarrow> dbAdd dst key ob s;
           let s = snd (dbDelete src key s);
           let s = add_dirty 1 s;
           Some (addReply c shared_cone s)
         }
       }) (good {(src, key), (dst, key)} False s)"
  proof (cases "db_dict (sv_db s2 src) key")
    case None
    then show ?thesis using good_False [OF g2] by simp
  next
    case (Some ob)
    show ?thesis
      unfolding Some option.case wp_bind
    proof (rule wp_lookupWrite [OF g2], unfold prod.case)
      fix s3
      assume g3: "good {} False s s3" and l: "lapse dst key s2 s3"
      have src: "db_dict (sv_db s3 src) key = Some ob"
        using lapse_entry [OF l, of src key] ne Some by (simp add: entry_def)
      have "good {(src, key), (dst, key)} True s (db_put dst key ob s3)"
        by (rule good_put [OF good_False [OF g3] good_val_ok [OF g3 src]]) simp_all
      from good_delete [OF this, of src key]
      have "good {(src, key), (dst, key)} False s (add_dirty 1 (snd (dbDelete src key (db_put dst key ob s3))))"
        by (intro good_dirty [where q = True]) simp_all
      then show "wp (if db_dict (sv_db s3 dst) key \<noteq> None then Some (addReply c shared_czero s3)
         else do {
           s \<leftarrow> dbAdd dst key ob s3;
           let s = snd (dbDelete src key s);
           let s = add_dirty 1 s;
           Some (addReply c shared_cone s)
         }) (good {(src, key), (dst, key)} False s)"
        using good_False [OF g3] by (simp add: dbAdd_def)
    qed
  qed
qed

lemma move_target_good:
  assumes ok: "server_ok s" and t: "move_target c s = Some (dst, s1)"
  shows "good {} False s s1 \<and> client_db s1 c = client_db s c \<and> arg s1 c j = arg s c j"
proof -
  obtain dbid s' where sel: "selectDb c dbid s = Some s'" and
    s1: "s1 = (case selectDb c (int (client_db s c)) s' of None \<Rightarrow> s' | Some s'' \<Rightarrow> s'')"
    using t by (auto simp: move_target_def Let_def split: option.splits if_splits)
  have g': "good {} False s s'" "sv_dbnum s' = sv_dbnum s"
    using good_select [OF good_refl [OF ok] sel] by (simp_all add: fixed_def)
  have "client_db s c < sv_dbnum s'" using ok g'(2) by (simp add: server_ok_def client_db_def)
  then have "selectDb c (int (client_db s c)) s' = Some s1" using s1 by (simp add: selectDb_def)
  from good_select [OF g'(1) this] sel this show ?thesis
    by (auto simp: selectDb_def upd_client_def arg_def argv_def split: if_splits)
qed

lemma moveCommand_good:
  assumes ok: "server_ok s"
  shows "wp (moveCommand c s) (\<lambda>s'. \<exists>dst. good {(client_db s c, arg s c 1), (dst, arg s c 1)} False s s')"
proof (cases "move_target c s")
  case None
  then show ?thesis using good_refl [OF ok] by (simp add: moveCommand_def)
next
  case (Some p)
  obtain dst s1 where p: "p = (dst, s1)" by fastforce
  note m = move_target_good [OF ok Some [unfolded p]]
  show ?thesis
  proof (cases "client_db s c = dst")
    case True
    then show ?thesis using m good_False [of s s1] by (auto simp: moveCommand_def Some p)
  next
    case False
    have "wp (move_key c (client_db s c) dst (arg s c 1) s1) (good {(client_db s c, arg s c 1), (dst, arg s c 1)} False s)"
      using m False by (intro move_key_good) simp_all
    then show ?thesis
      using m False by (auto simp: moveCommand_def Some p intro: wp_mono)
  qed
qed

lemma wp_mstime: "wp (let (now, s) = mstime s1 in f now s) Q = wp (f (fst (mstime s1)) (snd (mstime s1))) Q"
  by (simp add: split_beta)

lemma expire_key_good:
  assumes g: "good {} False s s1" and dict: "db_dict (sv_db s1 d) k \<noteq> None"
  shows "wp (expire_key c d k tm s1) (good {} False s)"
proof -
  define s2 where "s2 = snd (mstime s1)"
  have g2: "good {(d, k)} True s s2" using good_False [OF g] by (simp add: s2_def)
  have d2: "db_dict (sv_db s2 d) k \<noteq> None" using dict by (simp add: s2_def)
  define s4 where "s4 = snd (dbDelete d k s2)"
  define s3 where "s3 = add_dirty 1 s4"
  have g3: "good (insert (d, k) {}) False s s3"
    unfolding s3_def s4_def by (rule good_dirty [OF good_delete [OF g2]]) simp_all
  have del: "wp (do {
       s \<leftarrow> rewriteClientCommandVector c [ObjRaw (str ''DEL''), argv s3 c 1] s3;
       let s = signalModifiedKey d k s;
       let s = notifyKeyspaceEvent REDIS_NOTIFY_GENERIC ''del'' k d s;
       Some (addReply c shared_cone s)
     }) (good {} False s)"
    unfolding wp_bind
  proof (rule wp_rewrite [OF g3])
    show "orig_commands s3 (map lower (getDecodedObject (ObjRaw (str ''DEL'')))) \<noteq> None"
      using orig_del [OF g3] by simp
  qed (simp add: good_signal)
  have set: "wp (do {
       s \<leftarrow> setExpire d k tm s2;
       let s = addReply c shared_cone s;
       let s = signalModifiedKey d k s;
       let s = notifyKeyspaceEvent REDIS_NOTIFY_GENERIC ''expire'' k d s;
       Some (add_dirty 1 s)
     }) (good {} False s)"
    unfolding wp_bind
    by (rule wp_mono [OF good_setExpire [OF g2 d2]]) (auto intro!: good_dirty [where q = True] good_signal)
  obtain now where m: "mstime s1 = (now, s2)" by (cases "mstime s1") (simp add: s2_def)
  have found: "dbDelete d k s2 = (True, s4)" using d2 by (simp add: dbDelete_upd s4_def)
  show ?thesis
    using del set unfolding expire_key_def m found s3_def Let_def prod.case by (simp only: simp_thms if_True if_False split: if_split)
qed

lemma wp_getExpire:
  assumes "good X p s s1" "db_dict (sv_db s1 d) k \<noteq> None" "\<And>tm. Q tm"
  shows "wp (getExpire s1 d k) Q"
  using getExpire_ok [OF assms(1,2)] assms(3) by auto

lemma expireGenericCommand_good:
  assumes g: "good {} False s s1"
  shows "wp (expireGenericCommand c basetime unit s1) (good {} False s)"
proof -
  obtain r s2 where n: "getLongLongFromObjectOrReply c (Some (argv s1 c 2)) None s1 = (r, s2)" by fastforce
  have g2: "good {} False s s2" using good_reply_num(1) [OF n g] by simp
  show ?thesis
  proof (cases r)
    case None
    then show ?thesis using g2 by (simp add: expireGenericCommand_def n Let_def)
  next
    case (Some tm)
    show ?thesis
      unfolding expireGenericCommand_def n Some prod.case option.case Let_def wp_bind
      by (rule wp_lookupRead [OF g2]) (auto intro: expire_key_good)
  qed
qed

lemma expire_commands_good:
  assumes "server_ok s"
  shows "wp (expireCommand c s) (good {} False s)" "wp (expireatCommand c s) (good {} False s)"
    "wp (pexpireCommand c s) (good {} False s)" "wp (pexpireatCommand c s) (good {} False s)"
  using good_refl [OF assms, of "{}" False]
  by (simp_all add: expireCommand_def expireatCommand_def pexpireCommand_def pexpireatCommand_def wp_mstime
      expireGenericCommand_good split_beta)

lemma ttlGenericCommand_good:
  assumes "server_ok s"
  shows "wp (ttlGenericCommand c ms s) (good {} False s)"
  unfolding ttlGenericCommand_def Let_def wp_bind
  by (rule wp_lookupRead [OF good_refl [OF assms]]) (auto simp: split_beta intro!: wp_getExpire)

lemma persistCommand_good:
  assumes ok: "server_ok s"
  shows "wp (persistCommand c s) (good {} False s)"
proof -
  define d k where "d = client_db s c" and "k = arg s c 1"
  define s1 where "s1 = upd_db d (db_expires_update (\<lambda>m. m(k := None))) s"
  have "good {} False s (addReply c r s1)" if "db_expires (sv_db s d) k = None" for r
    using good_remove_expires [OF good_refl [OF ok], where X = "{}" and p = False and d = d and k = k] that by (simp add: s1_def)
  moreover have "good {} False s (add_dirty 1 (addReply c r s1))" for r
    using good_remove_expires [OF good_refl [OF ok], where X = "{}" and p = True and d = d and k = k]
    by (intro good_dirty [where q = True]) (simp_all add: s1_def)
  ultimately show ?thesis
    using good_refl [OF ok, of "{}" False]
    by (auto simp: persistCommand_def removeExpire_def s1_def d_def k_def Let_def)
qed

lemma good_empty:
  assumes g: "good X p s s1" and t: "\<And>k. db_dict (sv_db s1 d) k \<noteq> None \<Longrightarrow> touched s1 d k \<and> (p \<or> logged s s1)"
  shows "good X p s (upd_db d empty_db s1)"
proof (rule good_upd_db [OF g])
  note ok = good_db_ok [OF g, of d]
  show "db_watched (empty_db (sv_db s1 d)) = db_watched (sv_db s1 d)" by (simp add: empty_db_def)
  show "db_ok (hash_seed s1) (empty_db (sv_db s1 d))" by (simp add: empty_db_def db_ok_def)
  fix k
  assume "db_dict (empty_db (sv_db s1 d)) k \<noteq> db_dict (sv_db s1 d) k \<or> db_expires (empty_db (sv_db s1 d)) k \<noteq> db_expires (sv_db s1 d) k"
  then have "db_dict (sv_db s1 d) k \<noteq> None \<or> db_expires (sv_db s1 d) k \<noteq> None" by (auto simp: empty_db_def)
  then have "db_dict (sv_db s1 d) k \<noteq> None" using ok by (auto simp: db_ok_def)
  then show "((d, k) \<in> X \<or> touched s1 d k \<or> db_expires (sv_db s1 d) k \<noteq> None) \<and> (p \<or> logged s s1)" using t by blast
qed

lemma flushdbCommand_good:
  assumes ok: "server_ok s"
  shows "wp (flushdbCommand c s) (good {} False s)"
proof -
  define d where "d = client_db s c"
  define s1 where "s1 = add_dirty (int (card (dom (db_dict (sv_db s d))))) s"
  have g1: "good {} False s s1" unfolding s1_def by (rule good_dirty [OF good_refl [OF ok]]) simp_all
  define s2 where "s2 = signalFlushedDb (Some d) s1"
  note f = good_flush [OF g1, where dbid = "Some d"]
  have "good {} False s (upd_db d empty_db s2)"
  proof (rule good_empty)
    show "good {} False s s2" unfolding s2_def by (rule f(1))
    fix k
    assume k: "db_dict (sv_db s2 d) k \<noteq> None"
    then have dict: "db_dict (sv_db s d) k \<noteq> None" by (simp add: s2_def f(3)) (simp add: s1_def add_dirty_def)
    have "finite (dom (db_dict (sv_db s d)))" using ok by (simp add: server_ok_def db_ok_def)
    then have "0 < card (dom (db_dict (sv_db s d)))" using dict by (auto simp: card_gt_0_iff)
    then have "logged s s2" by (simp add: logged_def s2_def f(4)) (simp add: s1_def add_dirty_def)
    moreover have "touched s2 d k" unfolding s2_def
      by (rule f(2)) (use k in \<open>simp_all add: s2_def f(3)\<close>)
    ultimately show "touched s2 d k \<and> (False \<or> logged s s2)" by simp
  qed
  then show ?thesis by (simp add: flushdbCommand_def d_def [symmetric] s1_def s2_def Let_def)
qed

lemma emptyDb_good:
  assumes "good X True s s1" "\<And>d k. db_dict (sv_db s1 d) k \<noteq> None \<Longrightarrow> touched s1 d k" "0 \<le> n"
  shows "(case fold (\<lambda>j (removed, s). (removed + int (card (dom (db_dict (sv_db s j)))), upd_db j empty_db s)) js (n, s1) of
    (removed, s2) \<Rightarrow> good X True s s2 \<and> 0 \<le> removed)"
  using assms
proof (induction js arbitrary: n s1)
  case (Cons j js)
  have "good X True s (upd_db j empty_db s1)" using Cons.prems by (intro good_empty) simp_all
  moreover have "touched (upd_db j empty_db s1) d k" if "db_dict (sv_db (upd_db j empty_db s1) d) k \<noteq> None" for d k
  proof -
    have "db_dict (sv_db s1 d) k \<noteq> None" using that by (auto simp: upd_db_def empty_db_def split: if_splits)
    then show ?thesis using Cons.prems(2) by (simp add: touched_def upd_db_def)
  qed
  ultimately show ?case using Cons.IH [of "upd_db j empty_db s1"] Cons.prems(3) by simp
qed simp

lemma flushallCommand_good:
  assumes ok: "server_ok s"
  shows "wp (flushallCommand c s) (\<lambda>s'. \<exists>n. good {} False s (s'\<lparr>dirty := n\<rparr>))"
proof -
  define s1 where "s1 = signalFlushedDb None s"
  note f = good_flush [OF good_refl [OF ok], where dbid = None]
  obtain n s2 where e: "emptyDb s1 = (n, s2)" by fastforce
  have "good {} True s s1" unfolding s1_def by (rule f(1))
  moreover have "touched s1 d k" if "db_dict (sv_db s1 d) k \<noteq> None" for d k
    using f(2) that by (simp add: s1_def f(3))
  ultimately have "good {} True s s2 \<and> 0 \<le> n"
    using emptyDb_good [of "{}" s s1 0 "[0..<sv_dbnum s1]"] e by (simp add: emptyDb_def)
  then have "good {} True s (add_dirty n s2)" "0 \<le> n" by (auto intro: good_dirty)
  then have g: "good {} False s (add_dirty 1 (addReply c shared_ok (add_dirty n s2)))"
    by (intro good_dirty [where q = True]) simp_all
  define s3 where "s3 = addReply c shared_ok (add_dirty n s2)"
  have "(add_dirty 1 (s3\<lparr>dirty := x\<rparr>))\<lparr>dirty := dirty s3 + 1\<rparr> = add_dirty 1 s3"
    "(add_dirty 1 s3)\<lparr>dirty := dirty s3 + 1\<rparr> = add_dirty 1 s3" for x
    by (simp_all add: add_dirty_def)
  then have "\<exists>n. good {} False s ((add_dirty 1 (if 0 < saveparamslen s3 then s3\<lparr>dirty := c_int (dirty s3)\<rparr> else s3))\<lparr>dirty := n\<rparr>)"
    using g unfolding s3_def [symmetric] by (metis (full_types))
  then show ?thesis
    unfolding flushallCommand_def Let_def s1_def [symmetric] e prod.case s3_def [symmetric] wp_Some .
qed

end
