(* ===== verification/Command_Table.thy ===== *)
theory Command_Table
  imports Db_Commands
begin

text \<open>
  The command table of \<^verbatim>\<open>redis.c\<close>, its registration at start-up
  (\<^verbatim>\<open>populateCommandTable\<close>), and the functions of \<^verbatim>\<open>db.c\<close> that tell which arguments of a
  command are keys.
\<close>

section \<open>The table\<close>

definition table_entry :: "string \<Rightarrow> string \<Rightarrow> int \<Rightarrow> string \<Rightarrow> string option \<Rightarrow> int \<Rightarrow> int \<Rightarrow> int \<Rightarrow> redisCommand" where
  "table_entry name proc arity sflags getkeys firstkey lastkey keystep =
     \<lparr>cmd_name = name, cmd_proc = proc, cmd_arity = arity, cmd_sflags = sflags, cmd_flags = {},
      cmd_getkeys = getkeys, cmd_firstkey = firstkey, cmd_lastkey = lastkey, cmd_keystep = keystep\<rparr>"

definition redisCommandTable :: "redisCommand list" where
  "redisCommandTable =
    [table_entry ''get'' ''getCommand'' 2 ''rF'' None 1 1 1,
     table_entry ''set'' ''setCommand'' (- 3) ''wm'' None 1 1 1,
     table_entry ''setnx'' ''setnxCommand'' 3 ''wmF'' None 1 1 1,
     table_entry ''setex'' ''setexCommand'' 4 ''wm'' None 1 1 1,
     table_entry ''psetex'' ''psetexCommand'' 4 ''wm'' None 1 1 1,
     table_entry ''append'' ''appendCommand'' 3 ''wm'' None 1 1 1,
     table_entry ''strlen'' ''strlenCommand'' 2 ''rF'' None 1 1 1,
     table_entry ''del'' ''delCommand'' (- 2) ''w'' None 1 (- 1) 1,
     table_entry ''exists'' ''existsCommand'' 2 ''rF'' None 1 1 1,
     table_entry ''setbit'' ''setbitCommand'' 4 ''wm'' None 1 1 1,
     table_entry ''getbit'' ''getbitCommand'' 3 ''rF'' None 1 1 1,
     table_entry ''setrange'' ''setrangeCommand'' 4 ''wm'' None 1 1 1,
     table_entry ''getrange'' ''getrangeCommand'' 4 ''r'' None 1 1 1,
     table_entry ''substr'' ''getrangeCommand'' 4 ''r'' None 1 1 1,
     table_entry ''incr'' ''incrCommand'' 2 ''wmF'' None 1 1 1,
     table_entry ''decr'' ''decrCommand'' 2 ''wmF'' None 1 1 1,
     table_entry ''mget'' ''mgetCommand'' (- 2) ''r'' None 1 (- 1) 1,
     table_entry ''rpush'' ''rpushCommand'' (- 3) ''wmF'' None 1 1 1,
     table_entry ''lpush'' ''lpushCommand'' (- 3) ''wmF'' None 1 1 1,
     table_entry ''rpushx'' ''rpushxCommand'' 3 ''wmF'' None 1 1 1,
     table_entry ''lpushx'' ''lpushxCommand'' 3 ''wmF'' None 1 1 1,
     table_entry ''linsert'' ''linsertCommand'' 5 ''wm'' None 1 1 1,
     table_entry ''rpop'' ''rpopCommand'' 2 ''wF'' None 1 1 1,
     table_entry ''lpop'' ''lpopCommand'' 2 ''wF'' None 1 1 1,
     table_entry ''brpop'' ''brpopCommand'' (- 3) ''ws'' None 1 1 1,
     table_entry ''brpoplpush'' ''brpoplpushCommand'' 4 ''wms'' None 1 2 1,
     table_entry ''blpop'' ''blpopCommand'' (- 3) ''ws'' None 1 (- 2) 1,
     table_entry ''llen'' ''llenCommand'' 2 ''rF'' None 1 1 1,
     table_entry ''lindex'' ''lindexCommand'' 3 ''r'' None 1 1 1,
     table_entry ''lset'' ''lsetCommand'' 4 ''wm'' None 1 1 1,
     table_entry ''lrange'' ''lrangeCommand'' 4 ''r'' None 1 1 1,
     table_entry ''ltrim'' ''ltrimCommand'' 4 ''w'' None 1 1 1,
     table_entry ''lrem'' ''lremCommand'' 4 ''w'' None 1 1 1,
     table_entry ''rpoplpush'' ''rpoplpushCommand'' 3 ''wm'' None 1 2 1,
     table_entry ''sadd'' ''saddCommand'' (- 3) ''wmF'' None 1 1 1,
     table_entry ''srem'' ''sremCommand'' (- 3) ''wF'' None 1 1 1,
     table_entry ''smove'' ''smoveCommand'' 4 ''wF'' None 1 2 1,
     table_entry ''sismember'' ''sismemberCommand'' 3 ''rF'' None 1 1 1,
     table_entry ''scard'' ''scardCommand'' 2 ''rF'' None 1 1 1,
     table_entry ''spop'' ''spopCommand'' 2 ''wRsF'' None 1 1 1,
     table_entry ''srandmember'' ''srandmemberCommand'' (- 2) ''rR'' None 1 1 1,
     table_entry ''sinter'' ''sinterCommand'' (- 2) ''rS'' None 1 (- 1) 1,
     table_entry ''sinterstore'' ''sinterstoreCommand'' (- 3) ''wm'' None 1 (- 1) 1,
     table_entry ''sunion'' ''sunionCommand'' (- 2) ''rS'' None 1 (- 1) 1,
     table_entry ''sunionstore'' ''sunionstoreCommand'' (- 3) ''wm'' None 1 (- 1) 1,
     table_entry ''sdiff'' ''sdiffCommand'' (- 2) ''rS'' None 1 (- 1) 1,
     table_entry ''sdiffstore'' ''sdiffstoreCommand'' (- 3) ''wm'' None 1 (- 1) 1,
     table_entry ''smembers'' ''sinterCommand'' 2 ''rS'' None 1 1 1,
     table_entry ''sscan'' ''sscanCommand'' (- 3) ''rR'' None 1 1 1,
     table_entry ''zadd'' ''zaddCommand'' (- 4) ''wmF'' None 1 1 1,
     table_entry ''zincrby'' ''zincrbyCommand'' 4 ''wmF'' None 1 1 1,
     table_entry ''zrem'' ''zremCommand'' (- 3) ''wF'' None 1 1 1,
     table_entry ''zremrangebyscore'' ''zremrangebyscoreCommand'' 4 ''w'' None 1 1 1,
     table_entry ''zremrangebyrank'' ''zremrangebyrankCommand'' 4 ''w'' None 1 1 1,
     table_entry ''zremrangebylex'' ''zremrangebylexCommand'' 4 ''w'' None 1 1 1,
     table_entry ''zunionstore'' ''zunionstoreCommand'' (- 4) ''wm'' (Some ''zunionInterGetKeys'') 0 0 0,
     table_entry ''zinterstore'' ''zinterstoreCommand'' (- 4) ''wm'' (Some ''zunionInterGetKeys'') 0 0 0,
     table_entry ''zrange'' ''zrangeCommand'' (- 4) ''r'' None 1 1 1,
     table_entry ''zrangebyscore'' ''zrangebyscoreCommand'' (- 4) ''r'' None 1 1 1,
     table_entry ''zrevrangebyscore'' ''zrevrangebyscoreCommand'' (- 4) ''r'' None 1 1 1,
     table_entry ''zrangebylex'' ''zrangebylexCommand'' (- 4) ''r'' None 1 1 1,
     table_entry ''zrevrangebylex'' ''zrevrangebylexCommand'' (- 4) ''r'' None 1 1 1,
     table_entry ''zcount'' ''zcountCommand'' 4 ''rF'' None 1 1 1,
     table_entry ''zlexcount'' ''zlexcountCommand'' 4 ''rF'' None 1 1 1,
     table_entry ''zrevrange'' ''zrevrangeCommand'' (- 4) ''r'' None 1 1 1,
     table_entry ''zcard'' ''zcardCommand'' 2 ''rF'' None 1 1 1,
     table_entry ''zscore'' ''zscoreCommand'' 3 ''rF'' None 1 1 1,
     table_entry ''zrank'' ''zrankCommand'' 3 ''rF'' None 1 1 1,
     table_entry ''zrevrank'' ''zrevrankCommand'' 3 ''rF'' None 1 1 1,
     table_entry ''zscan'' ''zscanCommand'' (- 3) ''rR'' None 1 1 1,
     table_entry ''hset'' ''hsetCommand'' 4 ''wmF'' None 1 1 1,
     table_entry ''hsetnx'' ''hsetnxCommand'' 4 ''wmF'' None 1 1 1,
     table_entry ''hget'' ''hgetCommand'' 3 ''rF'' None 1 1 1,
     table_entry ''hmset'' ''hmsetCommand'' (- 4) ''wm'' None 1 1 1,
     table_entry ''hmget'' ''hmgetCommand'' (- 3) ''r'' None 1 1 1,
     table_entry ''hincrby'' ''hincrbyCommand'' 4 ''wmF'' None 1 1 1,
     table_entry ''hincrbyfloat'' ''hincrbyfloatCommand'' 4 ''wmF'' None 1 1 1,
     table_entry ''hdel'' ''hdelCommand'' (- 3) ''wF'' None 1 1 1,
     table_entry ''hlen'' ''hlenCommand'' 2 ''rF'' None 1 1 1,
     table_entry ''hkeys'' ''hkeysCommand'' 2 ''rS'' None 1 1 1,
     table_entry ''hvals'' ''hvalsCommand'' 2 ''rS'' None 1 1 1,
     table_entry ''hgetall'' ''hgetallCommand'' 2 ''r'' None 1 1 1,
     table_entry ''hexists'' ''hexistsCommand'' 3 ''rF'' None 1 1 1,
     table_entry ''hscan'' ''hscanCommand'' (- 3) ''rR'' None 1 1 1,
     table_entry ''incrby'' ''incrbyCommand'' 3 ''wmF'' None 1 1 1,
     table_entry ''decrby'' ''decrbyCommand'' 3 ''wmF'' None 1 1 1,
     table_entry ''incrbyfloat'' ''incrbyfloatCommand'' 3 ''wmF'' None 1 1 1,
     table_entry ''getset'' ''getsetCommand'' 3 ''wm'' None 1 1 1,
     table_entry ''mset'' ''msetCommand'' (- 3) ''wm'' None 1 (- 1) 2,
     table_entry ''msetnx'' ''msetnxCommand'' (- 3) ''wm'' None 1 (- 1) 2,
     table_entry ''randomkey'' ''randomkeyCommand'' 1 ''rR'' None 0 0 0,
     table_entry ''select'' ''selectCommand'' 2 ''rlF'' None 0 0 0,
     table_entry ''move'' ''moveCommand'' 3 ''wF'' None 1 1 1,
     table_entry ''rename'' ''renameCommand'' 3 ''w'' None 1 2 1,
     table_entry ''renamenx'' ''renamenxCommand'' 3 ''wF'' None 1 2 1,
     table_entry ''expire'' ''expireCommand'' 3 ''wF'' None 1 1 1,
     table_entry ''expireat'' ''expireatCommand'' 3 ''wF'' None 1 1 1,
     table_entry ''pexpire'' ''pexpireCommand'' 3 ''wF'' None 1 1 1,
     table_entry ''pexpireat'' ''pexpireatCommand'' 3 ''wF'' None 1 1 1,
     table_entry ''keys'' ''keysCommand'' 2 ''rS'' None 0 0 0,
     table_entry ''scan'' ''scanCommand'' (- 2) ''rR'' None 0 0 0,
     table_entry ''dbsize'' ''dbsizeCommand'' 1 ''rF'' None 0 0 0,
     table_entry ''auth'' ''authCommand'' 2 ''rsltF'' None 0 0 0,
     table_entry ''ping'' ''pingCommand'' (- 1) ''rtF'' None 0 0 0,
     table_entry ''echo'' ''echoCommand'' 2 ''rF'' None 0 0 0,
     table_entry ''save'' ''saveCommand'' 1 ''ars'' None 0 0 0,
     table_entry ''bgsave'' ''bgsaveCommand'' 1 ''ar'' None 0 0 0,
     table_entry ''bgrewriteaof'' ''bgrewriteaofCommand'' 1 ''ar'' None 0 0 0,
     table_entry ''shutdown'' ''shutdownCommand'' (- 1) ''arlt'' None 0 0 0,
     table_entry ''lastsave'' ''lastsaveCommand'' 1 ''rRF'' None 0 0 0,
     table_entry ''type'' ''typeCommand'' 2 ''rF'' None 1 1 1,
     table_entry ''multi'' ''multiCommand'' 1 ''rsF'' None 0 0 0,
     table_entry ''exec'' ''execCommand'' 1 ''sM'' None 0 0 0,
     table_entry ''discard'' ''discardCommand'' 1 ''rsF'' None 0 0 0,
     table_entry ''sync'' ''syncCommand'' 1 ''ars'' None 0 0 0,
     table_entry ''psync'' ''syncCommand'' 3 ''ars'' None 0 0 0,
     table_entry ''replconf'' ''replconfCommand'' (- 1) ''arslt'' None 0 0 0,
     table_entry ''flushdb'' ''flushdbCommand'' 1 ''w'' None 0 0 0,
     table_entry ''flushall'' ''flushallCommand'' 1 ''w'' None 0 0 0,
     table_entry ''sort'' ''sortCommand'' (- 2) ''wm'' None 1 1 1,
     table_entry ''info'' ''infoCommand'' (- 1) ''rlt'' None 0 0 0,
     table_entry ''monitor'' ''monitorCommand'' 1 ''ars'' None 0 0 0,
     table_entry ''ttl'' ''ttlCommand'' 2 ''rF'' None 1 1 1,
     table_entry ''pttl'' ''pttlCommand'' 2 ''rF'' None 1 1 1,
     table_entry ''persist'' ''persistCommand'' 2 ''wF'' None 1 1 1,
     table_entry ''slaveof'' ''slaveofCommand'' 3 ''ast'' None 0 0 0,
     table_entry ''role'' ''roleCommand'' 1 ''lst'' None 0 0 0,
     table_entry ''debug'' ''debugCommand'' (- 2) ''as'' None 0 0 0,
     table_entry ''config'' ''configCommand'' (- 2) ''art'' None 0 0 0,
     table_entry ''subscribe'' ''subscribeCommand'' (- 2) ''rpslt'' None 0 0 0,
     table_entry ''unsubscribe'' ''unsubscribeCommand'' (- 1) ''rpslt'' None 0 0 0,
     table_entry ''psubscribe'' ''psubscribeCommand'' (- 2) ''rpslt'' None 0 0 0,
     table_entry ''punsubscribe'' ''punsubscribeCommand'' (- 1) ''rpslt'' None 0 0 0,
     table_entry ''publish'' ''publishCommand'' 3 ''pltrF'' None 0 0 0,
     table_entry ''pubsub'' ''pubsubCommand'' (- 2) ''pltrR'' None 0 0 0,
     table_entry ''watch'' ''watchCommand'' (- 2) ''rsF'' None 1 (- 1) 1,
     table_entry ''unwatch'' ''unwatchCommand'' 1 ''rsF'' None 0 0 0,
     table_entry ''restore'' ''restoreCommand'' 4 ''wm'' None 1 1 1,
     table_entry ''migrate'' ''migrateCommand'' 6 ''w'' None 0 0 0,
     table_entry ''dump'' ''dumpCommand'' 2 ''r'' None 1 1 1,
     table_entry ''object'' ''objectCommand'' 3 ''r'' None 2 2 2,
     table_entry ''client'' ''clientCommand'' (- 2) ''rs'' None 0 0 0,
     table_entry ''eval'' ''evalCommand'' (- 3) ''s'' (Some ''zunionInterGetKeys'') 0 0 0,
     table_entry ''evalsha'' ''evalShaCommand'' (- 3) ''s'' (Some ''zunionInterGetKeys'') 0 0 0,
     table_entry ''slowlog'' ''slowlogCommand'' (- 2) ''r'' None 0 0 0,
     table_entry ''script'' ''scriptCommand'' (- 2) ''rs'' None 0 0 0,
     table_entry ''time'' ''timeCommand'' 1 ''rRF'' None 0 0 0,
     table_entry ''bitop'' ''bitopCommand'' (- 4) ''wm'' None 2 (- 1) 1,
     table_entry ''bitcount'' ''bitcountCommand'' (- 2) ''r'' None 1 1 1,
     table_entry ''bitpos'' ''bitposCommand'' (- 3) ''r'' None 1 1 1,
     table_entry ''command'' ''commandCommand'' 0 ''rlt'' None 0 0 0,
     table_entry ''pfselftest'' ''pfselftestCommand'' 1 ''r'' None 0 0 0,
     table_entry ''pfadd'' ''pfaddCommand'' (- 2) ''wmF'' None 1 1 1,
     table_entry ''pfcount'' ''pfcountCommand'' (- 2) ''r'' None 1 1 1,
     table_entry ''pfmerge'' ''pfmergeCommand'' (- 2) ''wm'' None 1 (- 1) 1,
     table_entry ''pfdebug'' ''pfdebugCommand'' (- 3) ''w'' None 0 0 0,
     table_entry ''latency'' ''latencyCommand'' (- 2) ''arslt'' None 0 0 0]"

section \<open>Registration\<close>

text \<open>An unknown letter is a panic.\<close>

fun sflag :: "char \<Rightarrow> cmdflag option" where
  "sflag f =
     (if f = CHR ''w'' then Some REDIS_CMD_WRITE
      else if f = CHR ''r'' then Some REDIS_CMD_READONLY
      else if f = CHR ''m'' then Some REDIS_CMD_DENYOOM
      else if f = CHR ''a'' then Some REDIS_CMD_ADMIN
      else if f = CHR ''p'' then Some REDIS_CMD_PUBSUB
      else if f = CHR ''s'' then Some REDIS_CMD_NOSCRIPT
      else if f = CHR ''R'' then Some REDIS_CMD_RANDOM
      else if f = CHR ''S'' then Some REDIS_CMD_SORT_FOR_SCRIPT
      else if f = CHR ''l'' then Some REDIS_CMD_LOADING
      else if f = CHR ''t'' then Some REDIS_CMD_STALE
      else if f = CHR ''M'' then Some REDIS_CMD_SKIP_MONITOR
      else if f = CHR ''F'' then Some REDIS_CMD_FAST
      else None)"

fun add_sflags :: "string \<Rightarrow> cmdflag set \<Rightarrow> cmdflag set option" where
  "add_sflags [] fl = Some fl"
| "add_sflags (f # fs) fl =
     (case sflag f of None \<Rightarrow> None | Some x \<Rightarrow> add_sflags fs (insert x fl))"

fun populate_loop :: "redisCommand list \<Rightarrow> server \<Rightarrow> server option" where
  "populate_loop [] s = Some s"
| "populate_loop (c # cs) s =
     (case add_sflags (cmd_sflags c) (cmd_flags c) of
        None \<Rightarrow> None
      | Some fl \<Rightarrow>
          let c = c\<lparr>cmd_flags := fl\<rparr>; name = map lower (str (cmd_name c))
          in if commands s name \<noteq> None \<or> orig_commands s name \<noteq> None then None
             else populate_loop cs
               (s\<lparr>commands := (commands s)(name \<mapsto> c), orig_commands := (orig_commands s)(name \<mapsto> c)\<rparr>))"

definition populateCommandTable :: "server \<Rightarrow> server option" where
  "populateCommandTable s = populate_loop redisCommandTable s"

section \<open>Key arguments\<close>

text \<open>
  The loop over the positions of the keys, in its code's order; not returning (a step of zero)
  and the failed assertion are \<open>None\<close>.
\<close>

partial_function (option) key_loop :: "int \<Rightarrow> int \<Rightarrow> int \<Rightarrow> int \<Rightarrow> int list \<Rightarrow> int list option" where
  "key_loop j last_key step n keys =
     (if j \<le> last_key then
        if j < n then key_loop (j + step) last_key step n (keys @ [j]) else None
      else Some keys)"

text \<open>
  \<^verbatim>\<open>zmalloc\<close> of a number of \<^verbatim>\<open>int\<close>s: a negative number is a huge size, and the
  allocation aborts the server (with an allocator that knows the sizes of its blocks, as the one
  the server is linked with on Linux, so that \<^verbatim>\<open>zmalloc\<close> adds no prefix to the size).
\<close>

definition zmalloc_ints :: "int \<Rightarrow> unit option" where
  "zmalloc_ints n = (if n < 0 then None else Some ())"

definition getKeysUsingCommandTable :: "redisCommand \<Rightarrow> int \<Rightarrow> int list option" where
  "getKeysUsingCommandTable c n =
     (if cmd_firstkey c = 0 then Some []
      else
        let last = (if cmd_lastkey c < 0 then n + cmd_lastkey c else cmd_lastkey c)
        in case zmalloc_ints (last - cmd_firstkey c + 1) of
             None \<Rightarrow> None
           | Some _ \<Rightarrow> key_loop (cmd_firstkey c) last (cmd_keystep c) n [])"

definition atoi :: "bytes \<Rightarrow> int" where
  "atoi t = (case strtoll10 (c_str t) of (v, _, _) \<Rightarrow> c_int v)"

definition zunionInterGetKeys :: "strobj list \<Rightarrow> int list option" where
  "zunionInterGetKeys av =
     (let num = atoi (getDecodedObject (av ! 2)); n = int (length av)
      in if n - 3 < num then Some []
         else case zmalloc_ints num of
                None \<Rightarrow> None
              | Some _ \<Rightarrow> Some (map (\<lambda>i. 3 + int i) [0..<nat num]))"

text \<open>The flag \<^verbatim>\<open>REDIS_GETKEYS_PRELOAD\<close> is an argument.\<close>

definition noPreloadGetKeys :: "redisCommand \<Rightarrow> int \<Rightarrow> bool \<Rightarrow> int list option" where
  "noPreloadGetKeys c n preload = (if preload then Some [] else getKeysUsingCommandTable c n)"

definition renameGetKeys :: "redisCommand \<Rightarrow> int \<Rightarrow> bool \<Rightarrow> int list option" where
  "renameGetKeys c n preload = (if preload then Some [1] else getKeysUsingCommandTable c n)"

definition getKeysFromCommand :: "redisCommand \<Rightarrow> strobj list \<Rightarrow> bool \<Rightarrow> int list option" where
  "getKeysFromCommand c av preload =
     (let n = int (length av)
      in case cmd_getkeys c of
           Some proc \<Rightarrow>
             if proc = ''zunionInterGetKeys'' then zunionInterGetKeys av
             else if proc = ''noPreloadGetKeys'' then noPreloadGetKeys c n preload
             else if proc = ''renameGetKeys'' then renameGetKeys c n preload
             else None
         | None \<Rightarrow> getKeysUsingCommandTable c n)"

section \<open>Registration succeeds\<close>

lemma populate_all:
  assumes "\<And>c. c \<in> set cs \<Longrightarrow> add_sflags (cmd_sflags c) (cmd_flags c) \<noteq> None"
    and "distinct (map (\<lambda>c. map lower (str (cmd_name c))) cs)"
    and "\<And>c. c \<in> set cs \<Longrightarrow> commands s (map lower (str (cmd_name c))) = None \<and> orig_commands s (map lower (str (cmd_name c))) = None"
  shows "\<exists>s'. populate_loop cs s = Some s' \<and>
    (\<forall>c \<in> set cs. \<exists>fl. add_sflags (cmd_sflags c) (cmd_flags c) = Some fl \<and>
      commands s' (map lower (str (cmd_name c))) = Some (c\<lparr>cmd_flags := fl\<rparr>) \<and>
      orig_commands s' (map lower (str (cmd_name c))) = Some (c\<lparr>cmd_flags := fl\<rparr>)) \<and>
    (\<forall>n. n \<notin> (\<lambda>c. map lower (str (cmd_name c))) ` set cs \<longrightarrow>
      commands s' n = commands s n \<and> orig_commands s' n = orig_commands s n)"
  using assms
proof (induction cs arbitrary: s)
  case (Cons c cs)
  define n where "n = map lower (str (cmd_name c))"
  obtain fl where fl: "add_sflags (cmd_sflags c) (cmd_flags c) = Some fl" using Cons.prems(1) [of c] by auto
  define s1 where "s1 = s\<lparr>commands := (commands s)(n \<mapsto> c\<lparr>cmd_flags := fl\<rparr>),
    orig_commands := (orig_commands s)(n \<mapsto> c\<lparr>cmd_flags := fl\<rparr>)\<rparr>"
  have run: "populate_loop (c # cs) s = populate_loop cs s1"
    using Cons.prems(3) [of c] fl by (simp add: s1_def n_def Let_def)
  have new: "n \<notin> (\<lambda>c. map lower (str (cmd_name c))) ` set cs" using Cons.prems(2) by (auto simp: n_def)
  have "\<exists>s'. populate_loop cs s1 = Some s' \<and>
    (\<forall>c \<in> set cs. \<exists>fl. add_sflags (cmd_sflags c) (cmd_flags c) = Some fl \<and>
      commands s' (map lower (str (cmd_name c))) = Some (c\<lparr>cmd_flags := fl\<rparr>) \<and>
      orig_commands s' (map lower (str (cmd_name c))) = Some (c\<lparr>cmd_flags := fl\<rparr>)) \<and>
    (\<forall>n. n \<notin> (\<lambda>c. map lower (str (cmd_name c))) ` set cs \<longrightarrow>
      commands s' n = commands s1 n \<and> orig_commands s' n = orig_commands s1 n)"
    using Cons.prems new by (intro Cons.IH) (auto simp: s1_def)
  then obtain s' where s': "populate_loop cs s1 = Some s'"
    "\<And>c. c \<in> set cs \<Longrightarrow> \<exists>fl. add_sflags (cmd_sflags c) (cmd_flags c) = Some fl \<and>
      commands s' (map lower (str (cmd_name c))) = Some (c\<lparr>cmd_flags := fl\<rparr>) \<and>
      orig_commands s' (map lower (str (cmd_name c))) = Some (c\<lparr>cmd_flags := fl\<rparr>)"
    "\<And>n. n \<notin> (\<lambda>c. map lower (str (cmd_name c))) ` set cs \<Longrightarrow>
      commands s' n = commands s1 n \<and> orig_commands s' n = orig_commands s1 n"
    by blast
  have "commands s' n = Some (c\<lparr>cmd_flags := fl\<rparr>) \<and> orig_commands s' n = Some (c\<lparr>cmd_flags := fl\<rparr>)"
    using s'(3) [OF new] by (simp add: s1_def)
  then show ?case
    using s' fl unfolding run by (intro exI [of _ s']) (auto simp: n_def s1_def)
qed simp

lemma table_flags: "c \<in> set redisCommandTable \<Longrightarrow> add_sflags (cmd_sflags c) (cmd_flags c) \<noteq> None"
  unfolding redisCommandTable_def by (auto simp: table_entry_def)

definition letters :: string where "letters = ''abcdefghijklmnopqrstuvwxyz''"

lemma names_lower: "list_all (\<lambda>n. list_all (\<lambda>c. c \<in> set letters) n) (map cmd_name redisCommandTable)"
  unfolding redisCommandTable_def table_entry_def by (simp add: letters_def)

lemma lower_letter: "c \<in> set letters \<Longrightarrow> lower (of_char c) = of_char c"
  by (auto simp: letters_def lower_def)

lemma names_distinct: "distinct (map cmd_name redisCommandTable)"
  unfolding redisCommandTable_def table_entry_def by simp

lemma str_inject: "str a = str b \<Longrightarrow> a = b"
proof -
  have "unat (of_char c :: u8) = of_char c" for c
    using unat_of_nat [where x = "of_char c" and 'a = 8] by (simp add: of_nat_of_char of_char_mod_256)
  then have "inj (of_char :: char \<Rightarrow> u8)"
    by (intro injI) (metis char_of_char)
  then show "str a = str b \<Longrightarrow> a = b" by (simp add: str_def inj_map_eq_map)
qed

lemma table_name: "c \<in> set redisCommandTable \<Longrightarrow> map lower (str (cmd_name c)) = str (cmd_name c)"
  using names_lower lower_letter by (auto simp: list_all_iff str_def)

lemma table_names: "distinct (map (\<lambda>c. map lower (str (cmd_name c))) redisCommandTable)"
proof -
  have "map (\<lambda>c. map lower (str (cmd_name c))) redisCommandTable = map str (map cmd_name redisCommandTable)"
    using table_name by simp
  moreover have "inj str" using str_inject by (rule injI)
  then have "distinct (map str xs)" if "distinct xs" for xs
    using that by (simp only: distinct_map) (blast intro: inj_on_subset)
  ultimately show ?thesis using names_distinct by presburger
qed

section \<open>Key positions\<close>

definition keys_ok :: "redisCommand \<Rightarrow> bool" where
  "keys_ok c \<longleftrightarrow> cmd_getkeys c = None \<longrightarrow> cmd_firstkey c = 0 \<or>
     0 < cmd_firstkey c \<and> 0 < cmd_keystep c \<and>
     (if 0 \<le> cmd_lastkey c then cmd_firstkey c \<le> cmd_lastkey c \<and> cmd_lastkey c < \<bar>cmd_arity c\<bar>
      else cmd_firstkey c - 1 \<le> \<bar>cmd_arity c\<bar> + cmd_lastkey c)"

lemma table_keys: "list_all keys_ok redisCommandTable"
  unfolding redisCommandTable_def table_entry_def by (simp add: keys_ok_def)

lemma key_loop_returns:
  assumes "0 < step" "last_key < n"
  shows "\<exists>js. key_loop j last_key step n keys = Some (keys @ js) \<and> (\<forall>i \<in> set js. j \<le> i \<and> i \<le> last_key)"
proof (induction "nat (last_key + 1 - j)" arbitrary: j keys rule: less_induct)
  case less
  show ?case
  proof (cases "j \<le> last_key")
    case True
    then obtain js where "key_loop (j + step) last_key step n (keys @ [j]) = Some ((keys @ [j]) @ js)"
      "\<forall>i \<in> set js. j + step \<le> i \<and> i \<le> last_key"
      using less.hyps [of "j + step" "keys @ [j]"] assms(1) by auto
    then show ?thesis using True assms by (subst key_loop.simps) (auto intro!: exI [of _ "j # js"])
  next
    case False
    then show ?thesis by (subst key_loop.simps) auto
  qed
qed

lemma getKeys_table:
  assumes "c \<in> set redisCommandTable" "cmd_getkeys c = None"
    and "0 < cmd_arity c \<Longrightarrow> n = cmd_arity c" "- cmd_arity c \<le> n"
  shows "\<exists>ks. getKeysUsingCommandTable c n = Some ks \<and> (\<forall>k \<in> set ks. 0 < k \<and> k < n)"
proof (cases "cmd_firstkey c = 0")
  case True
  then show ?thesis by (simp add: getKeysUsingCommandTable_def)
next
  case False
  define l where "l = (if cmd_lastkey c < 0 then n + cmd_lastkey c else cmd_lastkey c)"
  have k: "keys_ok c" using table_keys assms(1) by (simp add: list_all_iff)
  have "\<bar>cmd_arity c\<bar> \<le> n" using assms(3,4) by linarith
  then have b: "0 < cmd_firstkey c" "0 < cmd_keystep c" "0 \<le> l - cmd_firstkey c + 1" "l < n"
    using k False assms(2) by (auto simp: keys_ok_def l_def split: if_splits)
  obtain js where "key_loop (cmd_firstkey c) l (cmd_keystep c) n [] = Some js"
    "\<forall>i \<in> set js. cmd_firstkey c \<le> i \<and> i \<le> l"
    using key_loop_returns [OF b(2,4), of "cmd_firstkey c" "[]"] by auto
  then show ?thesis
    using b False by (auto simp: getKeysUsingCommandTable_def l_def [symmetric] zmalloc_ints_def Let_def)
qed

end
