(* ===== verification/Table_Properties.thy ===== *)
theory Table_Properties
  imports Command_Table
begin

text \<open>
  The command table: every command of \<^verbatim>\<open>redis.c\<close> is registered under its name with the
  flags its letters stand for, and the key positions it declares lie inside any request of
  the declared length.
\<close>

lemma dom_eqI: "(\<And>n. n \<notin> A \<Longrightarrow> f n = None) \<Longrightarrow> (\<And>n. n \<in> A \<Longrightarrow> f n \<noteq> None) \<Longrightarrow> dom f = A"
  unfolding dom_def by fastforce

text \<open>C26.  Started on empty tables, registration succeeds; afterwards both tables hold exactly the
  commands of the table, each under its name with the flags of its letters.\<close>

theorem populateCommandTable_registers:
  shows "\<exists>s'. populateCommandTable (s\<lparr>commands := Map.empty, orig_commands := Map.empty\<rparr>) = Some s' \<and>
    (\<forall>c \<in> set redisCommandTable. \<exists>fl. add_sflags (cmd_sflags c) (cmd_flags c) = Some fl \<and>
       commands s' (str (cmd_name c)) = Some (c\<lparr>cmd_flags := fl\<rparr>) \<and>
       orig_commands s' (str (cmd_name c)) = Some (c\<lparr>cmd_flags := fl\<rparr>)) \<and>
    dom (commands s') = str ` cmd_name ` set redisCommandTable \<and>
    dom (orig_commands s') = str ` cmd_name ` set redisCommandTable"
proof -
  let ?s = "s\<lparr>commands := Map.empty, orig_commands := Map.empty\<rparr>"
  have names: "(\<lambda>c. map lower (str (cmd_name c))) ` set redisCommandTable = str ` cmd_name ` set redisCommandTable"
    using table_name by (simp add: image_image)
  obtain s' where s': "populateCommandTable ?s = Some s'"
    "\<And>c. c \<in> set redisCommandTable \<Longrightarrow> \<exists>fl. add_sflags (cmd_sflags c) (cmd_flags c) = Some fl \<and>
       commands s' (map lower (str (cmd_name c))) = Some (c\<lparr>cmd_flags := fl\<rparr>) \<and>
       orig_commands s' (map lower (str (cmd_name c))) = Some (c\<lparr>cmd_flags := fl\<rparr>)"
    "\<And>n. n \<notin> str ` cmd_name ` set redisCommandTable \<Longrightarrow> commands s' n = None \<and> orig_commands s' n = None"
    using populate_all [of redisCommandTable ?s] table_flags table_names unfolding names populateCommandTable_def
    by auto
  have e: "\<exists>fl. add_sflags (cmd_sflags c) (cmd_flags c) = Some fl \<and>
       commands s' (str (cmd_name c)) = Some (c\<lparr>cmd_flags := fl\<rparr>) \<and>
       orig_commands s' (str (cmd_name c)) = Some (c\<lparr>cmd_flags := fl\<rparr>)" if "c \<in> set redisCommandTable" for c
    using s'(2) [OF that] table_name [OF that] by simp
  have "commands s' n \<noteq> None \<and> orig_commands s' n \<noteq> None" if "n \<in> str ` cmd_name ` set redisCommandTable" for n
    using that by (elim imageE) (use e in fastforce)
  then have "dom (commands s') = str ` cmd_name ` set redisCommandTable"
    "dom (orig_commands s') = str ` cmd_name ` set redisCommandTable"
    using s'(3) by (simp_all add: dom_eqI)
  then show ?thesis using s'(1) e by blast
qed

theorem populateCommandTable_registers_witness:
  "\<forall>s. \<exists>s' c. populateCommandTable (s\<lparr>commands := Map.empty, orig_commands := Map.empty\<rparr>) = Some s' \<and>
    commands s' (str ''setrange'') = Some c \<and> cmd_arity c = 4 \<and> cmd_flags c = {REDIS_CMD_WRITE, REDIS_CMD_DENYOOM}"
proof
  fix s :: server
  let ?c = "table_entry ''setrange'' ''setrangeCommand'' 4 ''wm'' None 1 1 1"
  have "?c \<in> set redisCommandTable" unfolding redisCommandTable_def by simp
  then obtain s' fl where "populateCommandTable (s\<lparr>commands := Map.empty, orig_commands := Map.empty\<rparr>) = Some s'"
    "add_sflags (cmd_sflags ?c) (cmd_flags ?c) = Some fl" "commands s' (str (cmd_name ?c)) = Some (?c\<lparr>cmd_flags := fl\<rparr>)"
    using populateCommandTable_registers [of s] by blast
  moreover from this(2) have "fl = {REDIS_CMD_WRITE, REDIS_CMD_DENYOOM}" by (auto simp: table_entry_def)
  ultimately show "\<exists>s' c. populateCommandTable (s\<lparr>commands := Map.empty, orig_commands := Map.empty\<rparr>) = Some s' \<and>
    commands s' (str ''setrange'') = Some c \<and> cmd_arity c = 4 \<and> cmd_flags c = {REDIS_CMD_WRITE, REDIS_CMD_DENYOOM}"
    by (auto simp: table_entry_def)
qed

text \<open>C27.  For a command of the table without a key function of its own and a request of a length
  the table allows, the loop over the key positions ends, its assertion holds, and every
  position is an argument of the request.\<close>

theorem key_positions_in_bounds:
  assumes "c \<in> set redisCommandTable" and "cmd_getkeys c = None"
    and "cmd_arity c = int (length av) \<or> cmd_arity c < 0 \<and> - cmd_arity c \<le> int (length av)"
  shows "\<exists>ks. getKeysFromCommand c av preload = Some ks \<and> (\<forall>k \<in> set ks. 0 < k \<and> k < int (length av))"
  using getKeys_table [OF assms(1,2), of "int (length av)"] assms(2,3) by (auto simp: getKeysFromCommand_def Let_def)

theorem key_positions_in_bounds_witness:
  "\<exists>ks. getKeysFromCommand (table_entry ''del'' ''delCommand'' (- 2) ''w'' None 1 (- 1) 1)
     [ObjRaw (str ''del''), ObjRaw (str ''a''), ObjRaw (str ''b'')] True = Some ks \<and> (\<forall>k \<in> set ks. 0 < k \<and> k < int 3)"
  using key_positions_in_bounds [of "table_entry ''del'' ''delCommand'' (- 2) ''w'' None 1 (- 1) 1"
      "[ObjRaw (str ''del''), ObjRaw (str ''a''), ObjRaw (str ''b'')]" True]
  by (simp add: redisCommandTable_def table_entry_def)

end
