(* ===== verification/T_String.thy ===== *)
theory T_String
  imports Db_Commands
begin

text \<open>
  The string commands (\<^verbatim>\<open>t_string.c\<close>).  Raw strings are byte lists; what \<^verbatim>\<open>sds.c\<close> does
  to grow and append is the subject of theory \<open>Sds\<close>.  INCRBYFLOAT (arithmetic of
  \<^verbatim>\<open>long double\<close>) is not modelled.
\<close>

section \<open>SET\<close>

text \<open>The argument is \<^verbatim>\<open>REDIS_OK\<close> if the result is true.\<close>

definition checkStringLength :: "nat \<Rightarrow> int \<Rightarrow> server \<Rightarrow> bool \<times> server" where
  "checkStringLength c n s =
     (if 512 * 1024 * 1024 < n
      then (False, addReplyError c ''string exceeds maximum allowed size (512MB)'' s)
      else (True, s))"

text \<open>The expiration argument as milliseconds: an error reply, or the time and the server.\<close>

definition set_milliseconds :: "nat \<Rightarrow> strobj option \<Rightarrow> time_unit \<Rightarrow> server \<Rightarrow> int option \<times> server" where
  "set_milliseconds c expire unit s =
     (case expire of
        None \<Rightarrow> (Some 0, s)
      | Some ob \<Rightarrow>
          case getLongLongFromObjectOrReply c (Some ob) None s of
            (None, s) \<Rightarrow> (None, s)
          | (Some ms, s) \<Rightarrow>
              if ms \<le> 0
              then (None, addReplyErrorFormat c
                     (str ''invalid expire time in '' @ str (cmd_name (c_cmd (sv_client s c)))) s)
              else (Some (if unit = UNIT_SECONDS then llong (ms * 1000) else ms), s))"

text \<open>The NX and XX conditions; the result is true if the command must abort.\<close>

definition set_refused :: "nat \<Rightarrow> bool \<Rightarrow> bool \<Rightarrow> bytes \<Rightarrow> server \<Rightarrow> (bool \<times> server) option" where
  "set_refused d nx xx key s = do {
     (r, s) \<leftarrow> (if nx then do { (v, s) \<leftarrow> lookupKeyWrite d key s; Some (v \<noteq> None, s) } else Some (False, s));
     if r then Some (True, s)
     else if xx then do { (v, s) \<leftarrow> lookupKeyWrite d key s; Some (v = None, s) }
     else Some (False, s)
   }"

definition setGenericCommand ::
    "nat \<Rightarrow> bool \<Rightarrow> bool \<Rightarrow> bytes \<Rightarrow> strobj \<Rightarrow> strobj option \<Rightarrow> time_unit \<Rightarrow> strobj option \<Rightarrow> strobj option \<Rightarrow>
     server \<Rightarrow> server option" where
  "setGenericCommand c nx xx key val expire unit ok_reply abort_reply s =
     (let d = client_db s c
      in case set_milliseconds c expire unit s of
           (None, s) \<Rightarrow> Some s
         | (Some milliseconds, s) \<Rightarrow> do {
             (refused, s) \<leftarrow> set_refused d nx xx key s;
             if refused then
               Some (addReply c (case abort_reply of None \<Rightarrow> shared_nullbulk | Some r \<Rightarrow> r) s)
             else do {
               s \<leftarrow> setKey d key (StringObj val) s;
               let s = add_dirty 1 s;
               s \<leftarrow> (if expire \<noteq> None
                     then let (now, s) = mstime s in setExpire d key (llong (now + milliseconds)) s
                     else Some s);
               let s = notifyKeyspaceEvent REDIS_NOTIFY_STRING ''set'' key d s;
               let s = (if expire \<noteq> None then notifyKeyspaceEvent REDIS_NOTIFY_GENERIC ''expire'' key d s else s);
               Some (addReply c (case ok_reply of None \<Rightarrow> shared_ok | Some r \<Rightarrow> r) s)
             }
           })"

text \<open>A two-letter option, in any case, as the C string \<open>a\<close>.\<close>

definition is_option :: "u8 \<Rightarrow> u8 \<Rightarrow> bytes \<Rightarrow> bool" where
  "is_option p q a \<longleftrightarrow>
     (let a = a @ [0]
      in 3 \<le> length a \<and> (a ! 0 = p \<or> a ! 0 = p - 32) \<and> (a ! 1 = q \<or> a ! 1 = q - 32) \<and> a ! 2 = 0)"

record set_flags =
  sf_nx :: bool
  sf_xx :: bool
  sf_expire :: "strobj option"
  sf_unit :: time_unit

fun set_options :: "strobj list \<Rightarrow> set_flags \<Rightarrow> set_flags option" where
  "set_options [] f = Some f"
| "set_options (ob # rest) f =
     (let a = getDecodedObject ob
      in if is_option 110 120 a then set_options rest (f\<lparr>sf_nx := True\<rparr>)
         else if is_option 120 120 a then set_options rest (f\<lparr>sf_xx := True\<rparr>)
         else
           case rest of
             [] \<Rightarrow> None
           | nxt # rest' \<Rightarrow>
               if is_option 101 120 a then set_options rest' (f\<lparr>sf_unit := UNIT_SECONDS, sf_expire := Some nxt\<rparr>)
               else if is_option 112 120 a then set_options rest' (f\<lparr>sf_unit := UNIT_MILLISECONDS, sf_expire := Some nxt\<rparr>)
               else None)"

definition encode_arg :: "nat \<Rightarrow> nat \<Rightarrow> server \<Rightarrow> server" where
  "encode_arg c j s = set_argv c j (tryObjectEncoding (argv s c j)) s"

definition setCommand :: "nat \<Rightarrow> server \<Rightarrow> server option" where
  "setCommand c s =
     (case set_options (drop 3 (c_argv (sv_client s c)))
             \<lparr>sf_nx = False, sf_xx = False, sf_expire = None, sf_unit = UNIT_SECONDS\<rparr> of
        None \<Rightarrow> Some (addReply c shared_syntaxerr s)
      | Some f \<Rightarrow>
          let s = encode_arg c 2 s
          in setGenericCommand c (sf_nx f) (sf_xx f) (arg s c 1) (argv s c 2) (sf_expire f) (sf_unit f) None None s)"

definition setnxCommand :: "nat \<Rightarrow> server \<Rightarrow> server option" where
  "setnxCommand c s =
     (let s = encode_arg c 2 s
      in setGenericCommand c True False (arg s c 1) (argv s c 2) None UNIT_SECONDS (Some shared_cone) (Some shared_czero) s)"

definition setexCommand :: "nat \<Rightarrow> server \<Rightarrow> server option" where
  "setexCommand c s =
     (let s = encode_arg c 3 s
      in setGenericCommand c False False (arg s c 1) (argv s c 3) (Some (argv s c 2)) UNIT_SECONDS None None s)"

definition psetexCommand :: "nat \<Rightarrow> server \<Rightarrow> server option" where
  "psetexCommand c s =
     (let s = encode_arg c 3 s
      in setGenericCommand c False False (arg s c 1) (argv s c 3) (Some (argv s c 2)) UNIT_MILLISECONDS None None s)"

section \<open>GET\<close>

text \<open>The result is false for \<^verbatim>\<open>REDIS_ERR\<close>.\<close>

definition getGenericCommand :: "nat \<Rightarrow> server \<Rightarrow> (bool \<times> server) option" where
  "getGenericCommand c s = do {
     (v, s) \<leftarrow> lookupKeyReadOrReply c (arg s c 1) shared_nullbulk s;
     Some (case v of
             None \<Rightarrow> (True, s)
           | Some (StringObj ob) \<Rightarrow> (True, addReplyBulk c ob s)
           | Some _ \<Rightarrow> (False, addReply c shared_wrongtypeerr s))
   }"

definition getCommand :: "nat \<Rightarrow> server \<Rightarrow> server option" where
  "getCommand c s = do { (_, s) \<leftarrow> getGenericCommand c s; Some s }"

definition getsetCommand :: "nat \<Rightarrow> server \<Rightarrow> server option" where
  "getsetCommand c s = do {
     (ok, s) \<leftarrow> getGenericCommand c s;
     if \<not> ok then Some s
     else do {
       let s = encode_arg c 2 s;
       let d = client_db s c;
       let key = arg s c 1;
       s \<leftarrow> setKey d key (StringObj (argv s c 2)) s;
       let s = notifyKeyspaceEvent REDIS_NOTIFY_STRING ''set'' key d s;
       Some (add_dirty 1 s)
     }
   }"

fun mget_loop :: "nat \<Rightarrow> bytes list \<Rightarrow> server \<Rightarrow> server option" where
  "mget_loop c [] s = Some s"
| "mget_loop c (key # keys) s = do {
     (v, s) \<leftarrow> lookupKeyRead (client_db s c) key s;
     mget_loop c keys
       (case v of
          Some (StringObj ob) \<Rightarrow> addReplyBulk c ob s
        | _ \<Rightarrow> addReply c shared_nullbulk s)
   }"

definition mgetCommand :: "nat \<Rightarrow> server \<Rightarrow> server option" where
  "mgetCommand c s =
     mget_loop c (map (arg s c) [1..<argc s c]) (addReplyMultiBulkLen c (int (argc s c) - 1) s)"

section \<open>Ranges\<close>

text \<open>
  The end of SETRANGE: the string is grown with zero bytes to \<^verbatim>\<open>offset+sdslen(value)\<close>, a
  \<^verbatim>\<open>size_t\<close>, and the value is copied to the offset.  No allocation of \<open>2 ^ 63\<close> bytes
  succeeds: \<^verbatim>\<open>zmalloc\<close> aborts the server.
\<close>

definition setrange_write :: "nat \<Rightarrow> nat \<Rightarrow> bytes \<Rightarrow> int \<Rightarrow> bytes \<Rightarrow> bytes \<Rightarrow> server \<Rightarrow> server option" where
  "setrange_write c d key offset val t s =
     (let total = unat (word_of_int offset + of_nat (length val) :: u64)
      in if 2 ^ 63 \<le> total then None
         else
           let t = t @ replicate (total - length t) 0;
               t = write_at (nat offset) val t;
               s = db_put d key (StringObj (ObjRaw t)) s;
               s = signalModifiedKey d key s;
               s = notifyKeyspaceEvent REDIS_NOTIFY_STRING ''setrange'' key d s;
               s = add_dirty 1 s
           in Some (addReplyLongLong c (int (length t)) s))"

text \<open>The length check receives the \<^verbatim>\<open>size_t\<close> sum as a \<^verbatim>\<open>long long\<close>.\<close>

definition setrange_value :: "nat \<Rightarrow> nat \<Rightarrow> bytes \<Rightarrow> int \<Rightarrow> bytes \<Rightarrow> robj option \<Rightarrow> server \<Rightarrow> server option" where
  "setrange_value c d key offset val v s =
     (let total = sint (word_of_int offset + of_nat (length val) :: u64)
      in case v of
           None \<Rightarrow>
             if val = [] then Some (addReply c shared_czero s)
             else
               (case checkStringLength c total s of
                  (False, s) \<Rightarrow> Some s
                | (True, s) \<Rightarrow> do {
                    s \<leftarrow> dbAdd d key (StringObj (ObjRaw [])) s;
                    setrange_write c d key offset val [] s
                  })
         | Some (StringObj ob) \<Rightarrow>
             if val = [] then Some (addReplyLongLong c (int (stringObjectLen ob)) s)
             else
               (case checkStringLength c total s of
                  (False, s) \<Rightarrow> Some s
                | (True, s) \<Rightarrow> do {
                    (t, s) \<leftarrow> dbUnshareStringValue d key ob s;
                    setrange_write c d key offset val t s
                  })
         | Some _ \<Rightarrow> Some (addReply c shared_wrongtypeerr s))"

definition setrangeCommand :: "nat \<Rightarrow> server \<Rightarrow> server option" where
  "setrangeCommand c s =
     (let d = client_db s c; key = arg s c 1; val = arg s c 3
      in case getLongFromObjectOrReply c (Some (argv s c 2)) None s of
           (None, s) \<Rightarrow> Some s
         | (Some offset, s) \<Rightarrow>
             if offset < 0 then Some (addReplyError c ''offset is out of range'' s)
             else do {
               (v, s) \<leftarrow> lookupKeyWrite d key s;
               setrange_value c d key offset val v s
             })"

text \<open>The text of a string object as GETRANGE reads it, and the range clamped to it.\<close>

definition getrange_text :: "strobj \<Rightarrow> bytes" where
  "getrange_text ob =
     (case ob of
        ObjInt v \<Rightarrow> (case ll2string (replicate 32 0) v of (buf, len) \<Rightarrow> take len buf)
      | ObjRaw t \<Rightarrow> t)"

definition getrange_reply :: "nat \<Rightarrow> int \<Rightarrow> int \<Rightarrow> bytes \<Rightarrow> server \<Rightarrow> server" where
  "getrange_reply c from until t s =
     (let n = int (length t);
          from = (if from < 0 then n + from else from);
          until = (if until < 0 then n + until else until);
          from = (if from < 0 then 0 else from);
          until = (if until < 0 then 0 else until);
          until = (if n \<le> until then n - 1 else until)
      in if until < from \<or> n = 0 then addReply c shared_emptybulk s
         else addReplyBulkCBuffer c (take (nat (until - from + 1)) (drop (nat from) t)) s)"

definition getrangeCommand :: "nat \<Rightarrow> server \<Rightarrow> server option" where
  "getrangeCommand c s =
     (case getLongLongFromObjectOrReply c (Some (argv s c 2)) None s of
        (None, s) \<Rightarrow> Some s
      | (Some from, s) \<Rightarrow>
          case getLongLongFromObjectOrReply c (Some (argv s c 3)) None s of
            (None, s) \<Rightarrow> Some s
          | (Some until, s) \<Rightarrow> do {
              (v, s) \<leftarrow> lookupKeyReadOrReply c (arg s c 1) shared_emptybulk s;
              Some (case v of
                      None \<Rightarrow> s
                    | Some (StringObj ob) \<Rightarrow> getrange_reply c from until (getrange_text ob) s
                    | Some _ \<Rightarrow> addReply c shared_wrongtypeerr s)
            })"

section \<open>MSET\<close>

text \<open>How many of the keys exist.\<close>

fun msetnx_busy :: "nat \<Rightarrow> bytes list \<Rightarrow> nat \<Rightarrow> server \<Rightarrow> (nat \<times> server) option" where
  "msetnx_busy d [] busykeys s = Some (busykeys, s)"
| "msetnx_busy d (key # keys) busykeys s = do {
     (v, s) \<leftarrow> lookupKeyWrite d key s;
     msetnx_busy d keys (if v \<noteq> None then busykeys + 1 else busykeys) s
   }"

fun mset_loop :: "nat \<Rightarrow> nat list \<Rightarrow> server \<Rightarrow> server option" where
  "mset_loop c [] s = Some s"
| "mset_loop c (j # js) s =
     (let s = encode_arg c (j + 1) s;
          d = client_db s c;
          key = arg s c j
      in do {
        s \<leftarrow> setKey d key (StringObj (argv s c (j + 1))) s;
        mset_loop c js (notifyKeyspaceEvent REDIS_NOTIFY_STRING ''set'' key d s)
      })"

text \<open>The indices of the keys: 1, 3, 5 and so on below \<^verbatim>\<open>argc\<close>.\<close>

definition mset_indices :: "nat \<Rightarrow> nat list" where
  "mset_indices n = map (\<lambda>i. 2 * i + 1) [0..<n div 2]"

definition msetGenericCommand :: "nat \<Rightarrow> bool \<Rightarrow> server \<Rightarrow> server option" where
  "msetGenericCommand c nx s =
     (let n = argc s c
      in if n mod 2 = 0 then Some (addReplyError c ''wrong number of arguments for MSET'' s)
         else do {
           (busykeys, s) \<leftarrow> (if nx then msetnx_busy (client_db s c) (map (arg s c) (mset_indices n)) 0 s
                             else Some (0, s));
           if busykeys \<noteq> 0 then Some (addReply c shared_czero s)
           else do {
             s \<leftarrow> mset_loop c (mset_indices n) s;
             let s = add_dirty (int ((n - 1) div 2)) s;
             Some (addReply c (if nx then shared_cone else shared_ok) s)
           }
         })"

definition msetCommand :: "nat \<Rightarrow> server \<Rightarrow> server option" where
  "msetCommand c = msetGenericCommand c False"

definition msetnxCommand :: "nat \<Rightarrow> server \<Rightarrow> server option" where
  "msetnxCommand c = msetGenericCommand c True"

section \<open>INCR and DECR\<close>

text \<open>The stored object as a number: the value read and the server, or an error reply.\<close>

definition incr_operand :: "nat \<Rightarrow> robj option \<Rightarrow> server \<Rightarrow> int option \<times> server" where
  "incr_operand c v s =
     (case v of
        None \<Rightarrow> getLongLongFromObjectOrReply c None None s
      | Some (StringObj ob) \<Rightarrow> getLongLongFromObjectOrReply c (Some ob) None s
      | Some _ \<Rightarrow> (None, addReply c shared_wrongtypeerr s))"

definition incrDecrCommand :: "nat \<Rightarrow> int \<Rightarrow> server \<Rightarrow> server option" where
  "incrDecrCommand c incr s =
     (let d = client_db s c; key = arg s c 1
      in do {
        (v, s) \<leftarrow> lookupKeyWrite d key s;
        case incr_operand c v s of
          (None, s) \<Rightarrow> Some s
        | (Some oldvalue, s) \<Rightarrow>
            if incr < 0 \<and> oldvalue < 0 \<and> incr < - (2 ^ 63) - oldvalue \<or>
               0 < incr \<and> 0 < oldvalue \<and> 2 ^ 63 - 1 - oldvalue < incr
            then Some (addReplyError c ''increment or decrement would overflow'' s)
            else do {
              let new = createStringObjectFromLongLong (llong (oldvalue + incr));
              s \<leftarrow> (if v \<noteq> None then dbOverwrite d key (StringObj new) s else dbAdd d key (StringObj new) s);
              let s = signalModifiedKey d key s;
              let s = notifyKeyspaceEvent REDIS_NOTIFY_STRING ''incrby'' key d s;
              let s = add_dirty 1 s;
              let s = addReply c shared_colon s;
              let s = addReply c new s;
              Some (addReply c shared_crlf s)
            }
      })"

definition incrCommand :: "nat \<Rightarrow> server \<Rightarrow> server option" where
  "incrCommand c = incrDecrCommand c 1"

definition decrCommand :: "nat \<Rightarrow> server \<Rightarrow> server option" where
  "decrCommand c = incrDecrCommand c (- 1)"

definition incrbyCommand :: "nat \<Rightarrow> server \<Rightarrow> server option" where
  "incrbyCommand c s =
     (case getLongLongFromObjectOrReply c (Some (argv s c 2)) None s of
        (None, s) \<Rightarrow> Some s
      | (Some incr, s) \<Rightarrow> incrDecrCommand c incr s)"

definition decrbyCommand :: "nat \<Rightarrow> server \<Rightarrow> server option" where
  "decrbyCommand c s =
     (case getLongLongFromObjectOrReply c (Some (argv s c 2)) None s of
        (None, s) \<Rightarrow> Some s
      | (Some incr, s) \<Rightarrow> incrDecrCommand c (llong (- incr)) s)"

section \<open>APPEND and STRLEN\<close>

definition append_finish :: "nat \<Rightarrow> nat \<Rightarrow> bytes \<Rightarrow> nat \<Rightarrow> server \<Rightarrow> server option" where
  "append_finish c d key totlen s =
     (let s = signalModifiedKey d key s;
          s = notifyKeyspaceEvent REDIS_NOTIFY_STRING ''append'' key d s;
          s = add_dirty 1 s
      in Some (addReplyLongLong c (int totlen) s))"

definition append_value :: "nat \<Rightarrow> nat \<Rightarrow> bytes \<Rightarrow> robj option \<Rightarrow> server \<Rightarrow> server option" where
  "append_value c d key v s =
     (case v of
        None \<Rightarrow>
          let s = encode_arg c 2 s
          in do {
            s \<leftarrow> dbAdd d key (StringObj (argv s c 2)) s;
            append_finish c d key (stringObjectLen (argv s c 2)) s
          }
      | Some (StringObj ob) \<Rightarrow>
          let append = arg s c 2
          in (case checkStringLength c (int (stringObjectLen ob + length append)) s of
                (False, s) \<Rightarrow> Some s
              | (True, s) \<Rightarrow> do {
                  (t, s) \<leftarrow> dbUnshareStringValue d key ob s;
                  let t = t @ append;
                  append_finish c d key (length t) (db_put d key (StringObj (ObjRaw t)) s)
                })
      | Some _ \<Rightarrow> Some (addReply c shared_wrongtypeerr s))"

definition appendCommand :: "nat \<Rightarrow> server \<Rightarrow> server option" where
  "appendCommand c s = do {
     (v, s) \<leftarrow> lookupKeyWrite (client_db s c) (arg s c 1) s;
     append_value c (client_db s c) (arg s c 1) v s
   }"

definition strlenCommand :: "nat \<Rightarrow> server \<Rightarrow> server option" where
  "strlenCommand c s = do {
     (v, s) \<leftarrow> lookupKeyReadOrReply c (arg s c 1) shared_czero s;
     Some (case v of
             None \<Rightarrow> s
           | Some (StringObj ob) \<Rightarrow> addReplyLongLong c (int (stringObjectLen ob)) s
           | Some _ \<Rightarrow> addReply c shared_wrongtypeerr s)
   }"

section \<open>Every command is good\<close>

lemma view_encode [simp]: "view (encode_arg c j s) = view s"
  by (simp add: encode_arg_def)

lemmas good_neutral_encode [simp] = good_view [OF view_encode]

lemma good_store:
  assumes g: "good {(d, k)} True s s1" and v: "val_ok (hash_seed s1) v"
  shows "good {} True s (signalModifiedKey d k (db_put d k v s1))"
  using good_put [OF g v, of d k] by (intro good_signal) simp

lemma good_check_length:
  "checkStringLength c n s1 = (b, s2) \<Longrightarrow> good X p s s1 \<Longrightarrow> good X p s s2 \<and> sv_db s2 = sv_db s1 \<and> fixed s2 = fixed s1"
proof -
  assume c: "checkStringLength c n s1 = (b, s2)" and g: "good X p s s1"
  have "view s2 = view s1" using c by (auto simp: checkStringLength_def split: if_splits)
  then show ?thesis using g good_view [of s2 s1 X p s] by (simp add: view_def)
qed

lemma set_milliseconds_good:
  assumes "set_milliseconds c e u s1 = (r, s2)" "good X p s s1"
  shows "good X p s s2"
proof -
  have "view s2 = view s1"
  proof (cases e)
    case (Some ob)
    obtain q s' where n: "getLongLongFromObjectOrReply c (Some ob) None s1 = (q, s')" by fastforce
    have "view s' = view s1" using view_getLongLong(1) [of c "Some ob" None s1] n by simp
    then show ?thesis using assms(1) by (auto simp: set_milliseconds_def Some n split: option.splits if_splits)
  qed (use assms(1) in \<open>simp add: set_milliseconds_def\<close>)
  then show ?thesis using assms(2) good_view by blast
qed

lemma set_refused_good:
  assumes g: "good X p s s1"
  shows "wp (set_refused d nx xx k s1) (\<lambda>(r, s2). good X p s s2)"
  using g
  by (auto simp: set_refused_def intro!: wp_lookupWrite [OF g] wp_lookupWrite)

lemma setGenericCommand_good:
  assumes g: "good {} False s s1"
  shows "wp (setGenericCommand c nx xx key val expire unit okr abr s1) (good {} False s)"
proof -
  define d where "d = client_db s1 c"
  obtain r s2 where m: "set_milliseconds c expire unit s1 = (r, s2)" by fastforce
  have g2: "good {} False s s2" by (rule set_milliseconds_good [OF m g])
  show ?thesis
  proof (cases r)
    case None
    then show ?thesis using g2 by (simp add: setGenericCommand_def m Let_def)
  next
    case (Some ms)
    have store: "wp (setKey d key (StringObj val) s3) (\<lambda>s4. wp (if expire \<noteq> None
           then (let (now, s) = mstime (add_dirty 1 s4) in setExpire d key (llong (now + ms)) s)
           else Some (add_dirty 1 s4)) (good {} False s))"
      if g3: "good {} False s s3" for s3
    proof (rule wp_setKey [OF g3])
      fix s4
      assume g4: "good {} True s s4" and w: "wrote d key (Some (StringObj val), None) s3 s4" and t: "touched s4 d key"
      have g5: "good {} False s (add_dirty 1 s4)" by (rule good_dirty [OF g4]) simp_all
      define s5 where "s5 = snd (mstime (add_dirty 1 s4))"
      have dict: "db_dict (sv_db s5 d) key \<noteq> None" using wrote_entry(1) [OF w] by (simp add: s5_def add_dirty_def)
      have "touched s5 d key" using t by (simp add: touched_def s5_def add_dirty_def)
      moreover have "logged s s5" using logged_dirty [OF g4, of 1] by (simp add: logged_def s5_def mstime_def ustime_def Let_def)
      moreover have "good {} False s s5" using g5 by (simp add: s5_def)
      ultimately have "wp (setExpire d key tm s5) (good {} False s)" for tm
        using dict by (intro good_setExpire) simp_all
      then show "wp (if expire \<noteq> None
           then (let (now, s) = mstime (add_dirty 1 s4) in setExpire d key (llong (now + ms)) s)
           else Some (add_dirty 1 s4)) (good {} False s)"
        using g5 by (auto simp: s5_def split_beta)
    qed simp
    show ?thesis
      unfolding setGenericCommand_def m Some prod.case option.case Let_def [where s = "client_db s1 c"] wp_bind
    proof (rule wp_mono [OF set_refused_good [OF g2]], clarify)
      fix refused s3
      assume g3: "good {} False s s3"
      show "wp (if refused then
               Some (addReply c (case abr of None \<Rightarrow> shared_nullbulk | Some r \<Rightarrow> r) s3)
             else do {
               s \<leftarrow> setKey (client_db s1 c) key (StringObj val) s3;
               let s = add_dirty 1 s;
               s \<leftarrow> (if expire \<noteq> None
                     then let (now, s) = mstime s in setExpire (client_db s1 c) key (llong (now + ms)) s
                     else Some s);
               let s = notifyKeyspaceEvent REDIS_NOTIFY_STRING ''set'' key (client_db s1 c) s;
               let s = (if expire \<noteq> None then notifyKeyspaceEvent REDIS_NOTIFY_GENERIC ''expire'' key (client_db s1 c) s else s);
               Some (addReply c (case okr of None \<Rightarrow> shared_ok | Some r \<Rightarrow> r) s)
             }) (good {} False s)"
      proof (cases refused)
        case True
        then show ?thesis using g3 by simp
      next
        case False
        show ?thesis
          unfolding if_not_P [OF False] wp_bind Let_def d_def [symmetric]
          by (rule wp_mono [OF store [OF g3, unfolded Let_def]]) (rule wp_mono, assumption, simp)
      qed
    qed
  qed
qed

lemma good_encode: "server_ok s \<Longrightarrow> good {} False s (encode_arg c j s)"
  by (simp add: good_refl)

lemma set_commands_good:
  assumes "server_ok s"
  shows "wp (setCommand c s) (good {} False s)" "wp (setnxCommand c s) (good {} False s)"
    "wp (setexCommand c s) (good {} False s)" "wp (psetexCommand c s) (good {} False s)"
  using good_encode [OF assms] good_refl [OF assms, of "{}" False]
  by (auto simp: setCommand_def setnxCommand_def setexCommand_def psetexCommand_def Let_def
      intro: setGenericCommand_good split: option.split)

lemma getGenericCommand_good:
  "server_ok s \<Longrightarrow> wp (getGenericCommand c s) (\<lambda>(b, s2). good {} False s s2)"
  unfolding getGenericCommand_def wp_bind
  by (rule wp_lookupReadOrReply [OF good_refl]) (auto split: robj.split)

lemma getCommand_good: "server_ok s \<Longrightarrow> wp (getCommand c s) (good {} False s)"
  unfolding getCommand_def wp_bind by (rule wp_mono [OF getGenericCommand_good]) auto

lemma getsetCommand_good:
  assumes "server_ok s"
  shows "wp (getsetCommand c s) (good {} False s)"
  unfolding getsetCommand_def wp_bind
proof (rule wp_mono [OF getGenericCommand_good [OF assms]], clarify)
  fix b s1
  assume g: "good {} False s s1"
  have "wp (setKey d k (StringObj v) (encode_arg c 2 s1)) (good {} True s)" for d k v
    by (rule wp_setKey [where X = "{}" and p = False]) (simp_all add: g)
  then have "wp (setKey d k (StringObj v) (encode_arg c 2 s1))
      (\<lambda>s2. good {} False s (add_dirty 1 (notifyKeyspaceEvent REDIS_NOTIFY_STRING ''set'' k d s2)))" for d k v
    by (rule wp_mono) (rule good_dirty [where q = True], simp_all)
  then show "wp (if \<not> b then Some s1
     else do {
       let s = encode_arg c 2 s1;
       let d = client_db s c;
       let key = arg s c 1;
       s \<leftarrow> setKey d key (StringObj (argv s c 2)) s;
       let s = notifyKeyspaceEvent REDIS_NOTIFY_STRING ''set'' key d s;
       Some (add_dirty 1 s)
     }) (good {} False s)"
    using g by (simp add: Let_def)
qed

lemma mget_loop_good: "good {} False s s1 \<Longrightarrow> wp (mget_loop c ks s1) (good {} False s)"
proof (induction ks arbitrary: s1)
  case (Cons k ks)
  show ?case
    unfolding mget_loop.simps wp_bind
    by (rule wp_lookupRead [OF Cons.prems]) (auto intro!: Cons.IH split: option.split robj.split)
qed simp

lemma mgetCommand_good: "server_ok s \<Longrightarrow> wp (mgetCommand c s) (good {} False s)"
  unfolding mgetCommand_def by (rule mget_loop_good) (simp add: good_refl)

text \<open>SETRANGE is safe as long as the end of the range is a 63-bit number.\<close>

lemma setrange_total:
  assumes "0 \<le> offset" "offset + int (length val) < 2 ^ 63"
  shows "unat (word_of_int offset + of_nat (length val) :: u64) = nat offset + length val"
    "sint (word_of_int offset + of_nat (length val) :: u64) = offset + int (length val)"
proof -
  define n where "n = nat offset + length val"
  have "word_of_int offset + of_nat (length val) = (of_nat n :: u64)"
    using assms(1) by (simp add: n_def of_nat_nat)
  moreover have "n < 2 ^ 63" using assms by (simp add: n_def)
  ultimately show "unat (word_of_int offset + of_nat (length val) :: u64) = nat offset + length val"
    "sint (word_of_int offset + of_nat (length val) :: u64) = offset + int (length val)"
    using assms(1) by (simp_all add: unat_of_nat sint_u64) (simp_all add: n_def)
qed

lemma setrange_write_good:
  assumes g: "good {(d, key)} True s s1" and len: "0 \<le> offset" "offset + int (length val) < 2 ^ 63"
  shows "wp (setrange_write c d key offset val t s1) (good {} False s)"
proof -
  have "good {} False s (add_dirty 1 (notifyKeyspaceEvent REDIS_NOTIFY_STRING ''setrange'' key d
      (signalModifiedKey d key (db_put d key (StringObj (ObjRaw u)) s1))))" for u
    by (rule good_dirty [where q = True]) (simp_all add: good_store [OF g])
  moreover have "nat offset + length val < 2 ^ 63" using len by simp
  ultimately show ?thesis
    by (simp add: setrange_write_def setrange_total [OF len] Let_def)
qed

lemma wp_unshare:
  assumes g: "good X True s s1" and dict: "db_dict (sv_db s1 d) key = Some (StringObj ob)" and X: "(d, key) \<in> X"
    and Q: "\<And>s2. good X True s s2 \<Longrightarrow> db_dict (sv_db s2 d) key \<noteq> None \<Longrightarrow> Q (getDecodedObject ob, s2)"
  shows "wp (dbUnshareStringValue d key ob s1) Q"
proof (cases ob)
  case (ObjRaw t)
  then show ?thesis using Q [OF g] dict by (simp add: dbUnshareStringValue_def)
next
  case (ObjInt v)
  have "good X True s (db_put d key (StringObj (ObjRaw (getDecodedObject ob))) s1)"
    by (rule good_put [OF g]) (simp_all add: X)
  from Q [OF this] show ?thesis using dict by (simp add: dbUnshareStringValue_def dbOverwrite_def ObjInt db_put_def upd_db_def)
qed

lemma setrange_value_good:
  assumes g: "good {} False s s1" and dict: "db_dict (sv_db s1 d) key = v"
    and len: "0 \<le> offset" "offset + int (length val) < 2 ^ 63"
  shows "wp (setrange_value c d key offset val v s1) (good {} False s)"
proof -
  obtain b s2 where chk: "checkStringLength c (sint (word_of_int offset + of_nat (length val) :: u64)) s1 = (b, s2)"
    by fastforce
  have g2: "good {} False s s2" and db: "sv_db s2 = sv_db s1" using good_check_length [OF chk g] by auto
  have g2': "good {(d, key)} True s s2" by (rule good_False [OF g2])
  have new: "wp (dbAdd d key (StringObj (ObjRaw [])) s2) (\<lambda>s. wp (setrange_write c d key offset val [] s) (good {} False s'))"
    if "v = None" "s' = s" for s'
    using that dict db good_put [OF g2', of "StringObj (ObjRaw [])" d key]
    by (auto simp: dbAdd_def intro: setrange_write_good len)
  have old: "wp (dbUnshareStringValue d key ob s2) (\<lambda>(t, s). wp (setrange_write c d key offset val t s) (good {} False s'))"
    if "v = Some (StringObj ob)" "s' = s" for s' ob
    using that dict db by (intro wp_unshare [OF g2']) (auto intro: setrange_write_good len)
  show ?thesis
    using g g2 new old
    by (auto simp: setrange_value_def chk Let_def split: option.split robj.split bool.split)
qed

lemma setrangeCommand_good:
  assumes ok: "server_ok s"
    and small: "\<And>offset. getLongLongFromObject (Some (argv s c 2)) = Some offset \<Longrightarrow> offset + int (length (arg s c 3)) < 2 ^ 63"
  shows "wp (setrangeCommand c s) (good {} False s)"
proof -
  obtain r s1 where n: "getLongFromObjectOrReply c (Some (argv s c 2)) None s = (r, s1)" by fastforce
  have g: "good {} False s s1" using good_reply_num(2) [OF n good_refl [OF ok]] by simp
  show ?thesis
  proof (cases r)
    case None
    then show ?thesis using g by (simp add: setrangeCommand_def n Let_def)
  next
    case (Some offset)
    have lim: "offset + int (length (arg s c 3)) < 2 ^ 63"
      using n Some by (intro small)
        (auto simp: getLongFromObjectOrReply_def getLongLongFromObjectOrReply_def split: option.splits prod.splits if_splits)
    show ?thesis
    proof (cases "offset < 0")
      case True
      then show ?thesis using g by (simp add: setrangeCommand_def n Some Let_def)
    next
      case False
      then show ?thesis
        unfolding setrangeCommand_def n Some prod.case option.case Let_def if_not_P [OF False] wp_bind
        using lim by (intro wp_lookupWrite [OF g]) (auto intro: setrange_value_good)
    qed
  qed
qed

lemma getrangeCommand_good:
  assumes ok: "server_ok s"
  shows "wp (getrangeCommand c s) (good {} False s)"
proof -
  obtain r s1 where n: "getLongLongFromObjectOrReply c (Some (argv s c 2)) None s = (r, s1)" by fastforce
  obtain q s2 where m: "getLongLongFromObjectOrReply c (Some (argv s1 c 3)) None s1 = (q, s2)" by fastforce
  have g1: "good {} False s s1" using good_reply_num(1) [OF n good_refl [OF ok]] by simp
  have g2: "good {} False s s2" using good_reply_num(1) [OF m g1] by simp
  have "good {} False s (getrange_reply c a b t s3)" if "good {} False s s3" for a b t s3
    using that by (simp add: getrange_reply_def Let_def)
  then have "wp (do {
              (v, s) \<leftarrow> lookupKeyReadOrReply c (arg s2 c 1) shared_emptybulk s2;
              Some (case v of
                      None \<Rightarrow> s
                    | Some (StringObj ob) \<Rightarrow> getrange_reply c a b (getrange_text ob) s
                    | Some _ \<Rightarrow> addReply c shared_wrongtypeerr s)
            }) (good {} False s)" for a b
    unfolding wp_bind by (intro wp_lookupReadOrReply [OF g2]) (auto split: robj.split)
  then show ?thesis
    using g1 g2 n m by (cases r; cases q) (simp_all add: getrangeCommand_def)
qed

lemma msetnx_busy_good:
  "good {} False s s1 \<Longrightarrow> wp (msetnx_busy d ks n s1) (\<lambda>(m, s2). good {} False s s2)"
proof (induction ks arbitrary: n s1)
  case (Cons k ks)
  show ?case
    unfolding msetnx_busy.simps wp_bind
    by (rule wp_lookupWrite [OF Cons.prems]) (auto intro!: Cons.IH)
qed simp

lemma mset_loop_good:
  "good {} p s s1 \<Longrightarrow> wp (mset_loop c js s1) (good {} True s)"
proof (induction js arbitrary: s1 p)
  case Nil
  then show ?case by (auto intro: good_weaken)
next
  case (Cons j js)
  have "good {} p s (encode_arg c (j + 1) s1)" using Cons.prems by simp
  then show ?case
    unfolding mset_loop.simps Let_def wp_bind
    by (rule wp_setKey) (simp, rule Cons.IH, simp)
qed

lemma msetGenericCommand_good:
  assumes ok: "server_ok s"
  shows "wp (msetGenericCommand c nx s) (good {} False s)"
proof (cases "argc s c mod 2 = 0")
  case True
  then show ?thesis using good_refl [OF ok] by (simp add: msetGenericCommand_def)
next
  case False
  define n where "n = argc s c"
  have busy: "wp (if nx then msetnx_busy (client_db s c) (map (arg s c) (mset_indices n)) 0 s else Some (0, s))
      (\<lambda>(m, s2). good {} False s s2)"
    using good_refl [OF ok] by (simp add: msetnx_busy_good)
  have set: "wp (mset_loop c (mset_indices n) s1) (\<lambda>s2. good {} False s (add_dirty (int ((n - 1) div 2)) s2))"
    if g: "good {} False s s1" for s1
  proof (cases "(n - 1) div 2 = 0")
    case True
    then have "n div 2 = 0" using False unfolding n_def by presburger
    then show ?thesis using good_dirty [OF g, of 0 False] True by (simp add: mset_indices_def)
  next
    case big: False
    show ?thesis
      by (rule wp_mono [OF mset_loop_good [OF g]]) (use big in \<open>auto intro!: good_dirty [where q = True]\<close>)
  qed
  have odd: "n mod 2 \<noteq> 0" using False by (simp add: n_def)
  show ?thesis
    unfolding msetGenericCommand_def Let_def n_def [symmetric] if_not_P [OF odd] wp_bind
    by (rule wp_mono [OF busy]) (auto simp: set)
qed

lemma view_operand: "incr_operand c v s = (r, s') \<Longrightarrow> view s' = view s"
proof (cases v)
  case None
  then show "incr_operand c v s = (r, s') \<Longrightarrow> view s' = view s"
    using view_getLongLong(1) [of c None None s] by (simp add: incr_operand_def)
next
  case (Some ob)
  then show "incr_operand c v s = (r, s') \<Longrightarrow> view s' = view s"
  proof (cases ob)
    case (StringObj t)
    then show "incr_operand c v s = (r, s') \<Longrightarrow> view s' = view s"
      using view_getLongLong(1) [of c "Some t" None s] Some by (simp add: incr_operand_def)
  qed (auto simp: incr_operand_def)
qed

lemma incrDecrCommand_good:
  assumes g: "good {} False s s1"
  shows "wp (incrDecrCommand c incr s1) (good {} False s)"
proof -
  define d key where "d = client_db s1 c" and "key = arg s1 c 1"
  have fin: "good {} False s (addReply c r3 (addReply c r2 (addReply c r1 (add_dirty 1
      (notifyKeyspaceEvent REDIS_NOTIFY_STRING ''incrby'' key d (signalModifiedKey d key (db_put d key (StringObj new) s3)))))))"
    if "good {} False s s3" for s3 new r1 r2 r3
    using good_store [OF good_False [OF that], of "StringObj new" d key] by (auto intro!: good_dirty [where q = True])
  show ?thesis
    unfolding incrDecrCommand_def Let_def wp_bind d_def [symmetric] key_def [symmetric]
  proof (rule wp_lookupWrite [OF g], unfold prod.case)
    fix s2
    assume g2: "good {} False s s2"
    obtain r s3 where o: "incr_operand c (db_dict (sv_db s2 d) key) s2 = (r, s3)" by fastforce
    have "view s3 = view s2" by (rule view_operand [OF o])
    then have g3: "good {} False s s3" and db: "sv_db s3 = sv_db s2"
      using g2 good_view [of s3 s2] by (simp_all add: view_def)
    show "wp (case incr_operand c (db_dict (sv_db s2 d) key) s2 of
          (None, s) \<Rightarrow> Some s
        | (Some oldvalue, s) \<Rightarrow>
            if incr < 0 \<and> oldvalue < 0 \<and> incr < - (2 ^ 63) - oldvalue \<or>
               0 < incr \<and> 0 < oldvalue \<and> 2 ^ 63 - 1 - oldvalue < incr
            then Some (addReplyError c ''increment or decrement would overflow'' s)
            else (if db_dict (sv_db s2 d) key \<noteq> None
                then dbOverwrite d key (StringObj (createStringObjectFromLongLong (llong (oldvalue + incr)))) s
                else dbAdd d key (StringObj (createStringObjectFromLongLong (llong (oldvalue + incr)))) s) \<bind>
              (\<lambda>s. Some (addReply c shared_crlf (addReply c (createStringObjectFromLongLong (llong (oldvalue + incr)))
                (addReply c shared_colon (add_dirty 1 (notifyKeyspaceEvent REDIS_NOTIFY_STRING ''incrby'' key d
                  (signalModifiedKey d key s))))))))
        (good {} False s)"
      unfolding o prod.case using g3 fin [OF g3] db
      by (cases "db_dict (sv_db s2 d) key") (simp_all add: dbOverwrite_def dbAdd_def split: option.split)
  qed
qed

lemma incr_commands_good:
  assumes "server_ok s"
  shows "wp (incrCommand c s) (good {} False s)" "wp (decrCommand c s) (good {} False s)"
    "wp (incrbyCommand c s) (good {} False s)" "wp (decrbyCommand c s) (good {} False s)"
proof -
  obtain r s1 where n: "getLongLongFromObjectOrReply c (Some (argv s c 2)) None s = (r, s1)" by fastforce
  have g: "good {} False s s1" using good_reply_num(1) [OF n good_refl [OF assms]] by simp
  show "wp (incrCommand c s) (good {} False s)" "wp (decrCommand c s) (good {} False s)"
    "wp (incrbyCommand c s) (good {} False s)" "wp (decrbyCommand c s) (good {} False s)"
    using g good_refl [OF assms, of "{}" False]
    by (simp_all add: incrCommand_def decrCommand_def incrbyCommand_def decrbyCommand_def n incrDecrCommand_good split: option.split)
qed

lemma append_finish_good:
  assumes "good {(d, key)} True s s1" "val_ok (hash_seed s1) v"
  shows "wp (append_finish c d key n (db_put d key v s1)) (good {} False s)"
  using good_store [OF assms] by (auto simp: append_finish_def Let_def intro!: good_dirty [where q = True])

lemma append_value_good:
  assumes g: "good {} False s s1" and v: "v = db_dict (sv_db s1 d) key"
  shows "wp (append_value c d key v s1) (good {} False s)"
proof (cases v)
  case None
  have "good {(d, key)} True s (encode_arg c 2 s1)" using good_False [OF g] by simp
  moreover have "sv_db (encode_arg c 2 s1) = sv_db s1" by (simp add: encode_arg_def set_argv_def)
  ultimately show ?thesis using None v by (simp add: append_value_def dbAdd_def append_finish_good)
next
  case (Some ob)
  show ?thesis
  proof (cases ob)
    case (StringObj t)
    obtain b s2 where chk: "checkStringLength c (int (stringObjectLen t + length (arg s1 c 2))) s1 = (b, s2)" by fastforce
    have g2: "good {} False s s2" "sv_db s2 = sv_db s1" using good_check_length [OF chk g] by auto
    have "wp (dbUnshareStringValue d key t s2)
        (\<lambda>(t, s). wp (append_finish c d key (length (t @ u)) (db_put d key (StringObj (ObjRaw (t @ u))) s)) (good {} False s'))"
      if "s' = s" for u s'
      using that v Some StringObj g2(2)
      by (intro wp_unshare [where X = "{(d, key)}", OF good_False [OF g2(1)]]) (auto intro: append_finish_good)
    then show ?thesis
      unfolding append_value_def Some StringObj option.case robj.case Let_def chk prod.case
      using g2(1) by (cases b) auto
  qed (use g Some in \<open>simp_all add: append_value_def\<close>)
qed

lemma appendCommand_good:
  assumes "server_ok s"
  shows "wp (appendCommand c s) (good {} False s)"
  unfolding appendCommand_def wp_bind
  by (rule wp_lookupWrite [OF good_refl [OF assms, of "{}" False]]) (simp add: append_value_good lapseD)

lemma strlenCommand_good: "server_ok s \<Longrightarrow> wp (strlenCommand c s) (good {} False s)"
  unfolding strlenCommand_def wp_bind
  by (rule wp_lookupReadOrReply [OF good_refl]) (auto split: robj.split)

end
