(* ===== verification/Multi.thy ===== *)
theory Multi
  imports T_String
begin

text \<open>
  Transactions (\<^verbatim>\<open>multi.c\<close>) and the execution of one command (\<^verbatim>\<open>call\<close> in \<^verbatim>\<open>redis.c\<close>).
  \<^verbatim>\<open>call\<close> is modelled with the flags \<^verbatim>\<open>REDIS_CALL_FULL\<close> and for ordinary clients (not the
  one of the script interpreter); the slow log, the latency monitor and the statistics per command
  are not represented.  The function it runs is an argument: EXEC runs the queued commands, EXEC
  itself never being queued.
\<close>

section \<open>Propagation\<close>

definition propagate :: "nat \<Rightarrow> bytes list \<Rightarrow> bool \<Rightarrow> bool \<Rightarrow> server \<Rightarrow> server" where
  "propagate dbid av to_aof to_repl s =
     (let s = (if aof_on s \<and> to_aof then feedAppendOnlyFile dbid av s else s)
      in if to_repl then replicationFeedSlaves dbid av s else s)"

definition replicationFeedMonitors :: "nat \<Rightarrow> bytes list \<Rightarrow> server \<Rightarrow> server" where
  "replicationFeedMonitors dbid av s = s\<lparr>monitor_log := monitor_log s @ [(dbid, av)]\<rparr>"

definition argv_texts :: "nat \<Rightarrow> server \<Rightarrow> bytes list" where
  "argv_texts c s = map getDecodedObject (c_argv (sv_client s c))"

definition force_flags :: "clientflag set" where
  "force_flags = {REDIS_FORCE_AOF, REDIS_FORCE_REPL}"

text \<open>A command, run by \<open>proc\<close>.  The clock is read before and after.\<close>

definition call_with :: "(string \<Rightarrow> nat \<Rightarrow> server \<Rightarrow> server option) \<Rightarrow> nat \<Rightarrow> server \<Rightarrow> server option" where
  "call_with proc c s =
     (let old_flags = c_flags (sv_client s c);
          s = (if monitors s \<and> \<not> loading s \<and>
                  cmd_flags (c_cmd (sv_client s c)) \<inter> {REDIS_CMD_SKIP_MONITOR, REDIS_CMD_ADMIN} = {}
               then replicationFeedMonitors (client_db s c) (argv_texts c s) s else s);
          s = upd_client c (c_flags_update (\<lambda>f. f - force_flags)) s;
          dirty0 = dirty s;
          s = snd (ustime s)
      in do {
        s \<leftarrow> proc (cmd_proc (c_cmd (sv_client s c))) c s;
        let s = snd (ustime s);
        let changes = (if dirty s - dirty0 < 0 then 0 else dirty s - dirty0);
        let to_repl = (REDIS_FORCE_REPL \<in> c_flags (sv_client s c) \<or> changes \<noteq> 0);
        let to_aof = (REDIS_FORCE_AOF \<in> c_flags (sv_client s c) \<or> changes \<noteq> 0);
        let s = (if to_repl \<or> to_aof then propagate (client_db s c) (argv_texts c s) to_aof to_repl s else s);
        let s = upd_client c (c_flags_update (\<lambda>f. f - force_flags \<union> old_flags \<inter> force_flags)) s;
        Some (s\<lparr>stat_numcommands := Suc (stat_numcommands s)\<rparr>)
      })"

section \<open>MULTI, DISCARD, WATCH\<close>

definition queueMultiCommand :: "nat \<Rightarrow> server \<Rightarrow> server" where
  "queueMultiCommand c = upd_client c (\<lambda>cl. cl\<lparr>c_mstate := c_mstate cl @ [(c_argv cl, c_cmd cl)]\<rparr>)"

definition discardTransaction :: "nat \<Rightarrow> server \<Rightarrow> server option" where
  "discardTransaction c s =
     (let s = upd_client c (\<lambda>cl. cl\<lparr>c_mstate := []\<rparr>) s;
          s = upd_client c (c_flags_update (\<lambda>f. f - {REDIS_MULTI, REDIS_DIRTY_CAS, REDIS_DIRTY_EXEC})) s
      in unwatchAllKeys c s)"

definition flagTransaction :: "nat \<Rightarrow> server \<Rightarrow> server" where
  "flagTransaction c s =
     (if REDIS_MULTI \<in> c_flags (sv_client s c)
      then upd_client c (c_flags_update (insert REDIS_DIRTY_EXEC)) s else s)"

definition multiCommand :: "nat \<Rightarrow> server \<Rightarrow> server option" where
  "multiCommand c s =
     (if REDIS_MULTI \<in> c_flags (sv_client s c)
      then Some (addReplyError c ''MULTI calls can not be nested'' s)
      else
        let s = upd_client c (c_flags_update (insert REDIS_MULTI)) s
        in Some (addReply c shared_ok s))"

definition discardCommand :: "nat \<Rightarrow> server \<Rightarrow> server option" where
  "discardCommand c s =
     (if REDIS_MULTI \<notin> c_flags (sv_client s c)
      then Some (addReplyError c ''DISCARD without MULTI'' s)
      else do {
        s \<leftarrow> discardTransaction c s;
        Some (addReply c shared_ok s)
      })"

definition watchCommand :: "nat \<Rightarrow> server \<Rightarrow> server option" where
  "watchCommand c s =
     (if REDIS_MULTI \<in> c_flags (sv_client s c)
      then Some (addReplyError c ''WATCH inside MULTI is not allowed'' s)
      else Some (addReply c shared_ok (fold (watchForKey c) (map (arg s c) [1..<argc s c]) s)))"

definition unwatchCommand :: "nat \<Rightarrow> server \<Rightarrow> server option" where
  "unwatchCommand c s = do {
     s \<leftarrow> unwatchAllKeys c s;
     let s = upd_client c (c_flags_update (\<lambda>f. f - {REDIS_DIRTY_CAS})) s;
     Some (addReply c shared_ok s)
   }"

section \<open>EXEC\<close>

definition execCommandPropagateMulti :: "nat \<Rightarrow> server \<Rightarrow> server" where
  "execCommandPropagateMulti c s = propagate (client_db s c) [str ''MULTI''] True True s"

text \<open>
  The commands with the indexes of the list, in order; the flag is \<^verbatim>\<open>must_propagate\<close>.  A
  command may rewrite its arguments, which are stored back.
\<close>

fun exec_loop :: "(string \<Rightarrow> nat \<Rightarrow> server \<Rightarrow> server option) \<Rightarrow> nat \<Rightarrow> nat list \<Rightarrow> bool \<Rightarrow> server \<Rightarrow>
    (bool \<times> server) option" where
  "exec_loop proc c [] must_propagate s = Some (must_propagate, s)"
| "exec_loop proc c (j # js) must_propagate s = do {
     let (av, cmd) = c_mstate (sv_client s c) ! j;
     let s = upd_client c (\<lambda>cl. cl\<lparr>c_argv := av, c_cmd := cmd\<rparr>) s;
     let start = (\<not> must_propagate \<and> REDIS_CMD_READONLY \<notin> cmd_flags cmd);
     let s = (if start then execCommandPropagateMulti c s else s);
     s \<leftarrow> call_with proc c s;
     let s = upd_client c (\<lambda>cl. cl\<lparr>c_mstate := (c_mstate cl)[j := (c_argv cl, c_cmd cl)]\<rparr>) s;
     exec_loop proc c js (must_propagate \<or> start) s
   }"

definition exec_handle_monitor :: "nat \<Rightarrow> server \<Rightarrow> server" where
  "exec_handle_monitor c s =
     (if monitors s \<and> \<not> loading s then replicationFeedMonitors (client_db s c) (argv_texts c s) s else s)"

definition execCommand :: "(string \<Rightarrow> nat \<Rightarrow> server \<Rightarrow> server option) \<Rightarrow> nat \<Rightarrow> server \<Rightarrow> server option" where
  "execCommand proc c s =
     (let flags = c_flags (sv_client s c)
      in if REDIS_MULTI \<notin> flags then Some (addReplyError c ''EXEC without MULTI'' s)
         else if REDIS_DIRTY_CAS \<in> flags \<or> REDIS_DIRTY_EXEC \<in> flags then do {
           let s = addReply c (if REDIS_DIRTY_EXEC \<in> flags then shared_execaborterr else shared_nullmultibulk) s;
           s \<leftarrow> discardTransaction c s;
           Some (exec_handle_monitor c s)
         }
         else do {
           s \<leftarrow> unwatchAllKeys c s;
           let orig_argv = c_argv (sv_client s c);
           let orig_cmd = c_cmd (sv_client s c);
           let count = length (c_mstate (sv_client s c));
           let s = addReplyMultiBulkLen c (int count) s;
           (must_propagate, s) \<leftarrow> exec_loop proc c [0..<count] False s;
           let s = upd_client c (\<lambda>cl. cl\<lparr>c_argv := orig_argv, c_cmd := orig_cmd\<rparr>) s;
           s \<leftarrow> discardTransaction c s;
           let s = (if must_propagate then add_dirty 1 s else s);
           Some (exec_handle_monitor c s)
         })"

end
