(* ===== verification/T_Set.thy ===== *)
theory T_Set
  imports T_String
begin

text \<open>
  The set commands of \<^verbatim>\<open>t_set.c\<close>.  A set object that a command works on is named by its key:
  two pointers are the same exactly when the keys are.  Where the C dereferences a pointer the
  object is read from the database again, and \<open>None\<close> results if it is gone (a use after free).
  The counters of type \<^verbatim>\<open>int\<close> are unbounded here: each counts elements of one set.
  Not modelled: SPOP and SRANDMEMBER (which need \<^verbatim>\<open>random\<close>) and SSCAN.
\<close>

section \<open>Deferred lengths\<close>

text \<open>The node of the reply list is given by its position; \<open>None\<close> is the null pointer.\<close>

definition addDeferredMultiBulkLength :: "nat \<Rightarrow> server \<Rightarrow> nat option \<times> server" where
  "addDeferredMultiBulkLength c s =
     (if \<not> prepareClientToWrite (sv_client s c) then (None, s)
      else (Some (length (c_reply (sv_client s c))), upd_client c (c_reply_update (\<lambda>r. r @ [None])) s))"

text \<open>The length is written into the node and the next one glued to it, unless that is a length too.\<close>

definition fill_length :: "nat \<Rightarrow> bytes \<Rightarrow> bytes option list \<Rightarrow> bytes option list" where
  "fill_length i t r =
     (if i + 1 < length r then
        (case r ! (i + 1) of
           Some nxt \<Rightarrow> take i r @ [Some (t @ nxt)] @ drop (i + 2) r
         | None \<Rightarrow> r[i := Some t])
      else r[i := Some t])"

definition setDeferredMultiBulkLength :: "nat \<Rightarrow> nat option \<Rightarrow> int \<Rightarrow> server \<Rightarrow> server" where
  "setDeferredMultiBulkLength c node n s =
     (case node of
        None \<Rightarrow> s
      | Some i \<Rightarrow> upd_client c (c_reply_update (fill_length i (str ''*'' @ dec_int n @ crlf))) s)"

section \<open>SADD, SREM, SMOVE\<close>

text \<open>The set a pointer found under the key points to.\<close>

definition set_at :: "server \<Rightarrow> nat \<Rightarrow> bytes \<Rightarrow> setobj option" where
  "set_at s d key = (case db_dict (sv_db s d) key of Some (SetObj so) \<Rightarrow> Some so | _ \<Rightarrow> None)"

text \<open>
  The arguments from the third on.  The set is modified in place; here the loop carries it and it
  is stored back afterwards.
\<close>

fun sadd_loop :: "nat \<Rightarrow> nat list \<Rightarrow> setobj \<Rightarrow> int \<Rightarrow> server \<Rightarrow> (setobj \<times> int \<times> server) option" where
  "sadd_loop c [] so added s = Some (so, added, s)"
| "sadd_loop c (j # js) so added s = do {
     let s = encode_arg c j s;
     (so, ok) \<leftarrow> setTypeAdd s so (argv s c j);
     sadd_loop c js so (if ok then added + 1 else added) s
   }"

definition sadd_members :: "nat \<Rightarrow> nat \<Rightarrow> bytes \<Rightarrow> setobj \<Rightarrow> server \<Rightarrow> server option" where
  "sadd_members c d key so s = do {
     (so, added, s) \<leftarrow> sadd_loop c [2..<argc s c] so 0 s;
     let s = db_put d key (SetObj so) s;
     let s = (if added \<noteq> 0
              then notifyKeyspaceEvent REDIS_NOTIFY_SET ''sadd'' key d (signalModifiedKey d key s) else s);
     let s = add_dirty added s;
     Some (addReplyLongLong c added s)
   }"

definition saddCommand :: "nat \<Rightarrow> server \<Rightarrow> server option" where
  "saddCommand c s =
     (let d = client_db s c; key = arg s c 1
      in do {
        (v, s) \<leftarrow> lookupKeyWrite d key s;
        case v of
          None \<Rightarrow> do {
            let so = setTypeCreate (argv s c 2);
            s \<leftarrow> dbAdd d key (SetObj so) s;
            sadd_members c d key so s
          }
        | Some (SetObj so) \<Rightarrow> sadd_members c d key so s
        | Some _ \<Rightarrow> Some (addReply c shared_wrongtypeerr s)
      })"

text \<open>The loop of SREM: the set, how many were removed, and whether none is left.\<close>

fun srem_loop :: "server \<Rightarrow> nat \<Rightarrow> nat list \<Rightarrow> setobj \<Rightarrow> int \<Rightarrow> setobj \<times> int \<times> bool" where
  "srem_loop s c [] so deleted = (so, deleted, False)"
| "srem_loop s c (j # js) so deleted =
     (case setTypeRemove s so (argv s c j) of
        (so, True) \<Rightarrow>
          if setTypeSize so = 0 then (so, deleted + 1, True) else srem_loop s c js so (deleted + 1)
      | (so, False) \<Rightarrow> srem_loop s c js so deleted)"

definition srem_members :: "nat \<Rightarrow> nat \<Rightarrow> bytes \<Rightarrow> setobj \<Rightarrow> server \<Rightarrow> server" where
  "srem_members c d key so s =
     (let (so, deleted, keyremoved) = srem_loop s c [2..<argc s c] so 0;
          s = db_put d key (SetObj so) s;
          s = (if keyremoved then snd (dbDelete d key s) else s);
          s = (if deleted \<noteq> 0 then
                 let s = signalModifiedKey d key s;
                     s = notifyKeyspaceEvent REDIS_NOTIFY_SET ''srem'' key d s;
                     s = (if keyremoved then notifyKeyspaceEvent REDIS_NOTIFY_GENERIC ''del'' key d s else s)
                 in add_dirty deleted s
               else s)
      in addReplyLongLong c deleted s)"

definition sremCommand :: "nat \<Rightarrow> server \<Rightarrow> server option" where
  "sremCommand c s =
     (let d = client_db s c; key = arg s c 1
      in do {
        (v, s) \<leftarrow> lookupKeyWriteOrReply c key shared_czero s;
        Some (case v of
                None \<Rightarrow> s
              | Some (SetObj so) \<Rightarrow> srem_members c d key so s
              | Some _ \<Rightarrow> addReply c shared_wrongtypeerr s)
      })"

text \<open>SMOVE once the element was removed from the source, which is now \<open>so\<close>.\<close>

definition smove_removed :: "nat \<Rightarrow> nat \<Rightarrow> bytes \<Rightarrow> bytes \<Rightarrow> strobj \<Rightarrow> setobj \<Rightarrow> setobj option \<Rightarrow> server \<Rightarrow> server option" where
  "smove_removed c d src dst ele so dstset s = do {
     let s = notifyKeyspaceEvent REDIS_NOTIFY_SET ''srem'' src d s;
     let s = (if setTypeSize so = 0
              then notifyKeyspaceEvent REDIS_NOTIFY_GENERIC ''del'' src d (snd (dbDelete d src s)) else s);
     let s = signalModifiedKey d src s;
     let s = signalModifiedKey d dst s;
     let s = add_dirty 1 s;
     (dso, s) \<leftarrow> (case dstset of
                     Some dso \<Rightarrow> Some (dso, s)
                   | None \<Rightarrow> do {
                       let dso = setTypeCreate ele;
                       s \<leftarrow> dbAdd d dst (SetObj dso) s;
                       Some (dso, s)
                     });
     (dso, ok) \<leftarrow> setTypeAdd s dso ele;
     let s = db_put d dst (SetObj dso) s;
     let s = (if ok then notifyKeyspaceEvent REDIS_NOTIFY_SET ''sadd'' dst d (add_dirty 1 s) else s);
     Some (addReply c shared_cone s)
   }"

text \<open>
  The source was found before the destination was looked up: it is read again, and gone if it is
  the same key and expired in between.
\<close>

definition smoveCommand :: "nat \<Rightarrow> server \<Rightarrow> server option" where
  "smoveCommand c s =
     (let d = client_db s c; src = arg s c 1; dst = arg s c 2
      in do {
        (srcv, s) \<leftarrow> lookupKeyWrite d src s;
        (dstv, s) \<leftarrow> lookupKeyWrite d dst s;
        let s = encode_arg c 3 s;
        let ele = argv s c 3;
        if srcv = None then Some (addReply c shared_czero s)
        else do {
          srcv \<leftarrow> db_dict (sv_db s d) src;
          case (srcv, dstv) of
            (SetObj so, None) \<Rightarrow>
              (case setTypeRemove s so ele of
                 (so, False) \<Rightarrow> Some (addReply c shared_czero (db_put d src (SetObj so) s))
               | (so, True) \<Rightarrow> smove_removed c d src dst ele so None (db_put d src (SetObj so) s))
          | (SetObj so, Some (SetObj dso)) \<Rightarrow>
              if src = dst then Some (addReply c shared_cone s)
              else
                (case setTypeRemove s so ele of
                   (so, False) \<Rightarrow> Some (addReply c shared_czero (db_put d src (SetObj so) s))
                 | (so, True) \<Rightarrow> smove_removed c d src dst ele so (Some dso) (db_put d src (SetObj so) s))
          | _ \<Rightarrow> Some (addReply c shared_wrongtypeerr s)
        }
      })"

section \<open>SISMEMBER, SCARD\<close>

definition sismemberCommand :: "nat \<Rightarrow> server \<Rightarrow> server option" where
  "sismemberCommand c s =
     (let d = client_db s c; key = arg s c 1
      in do {
        (v, s) \<leftarrow> lookupKeyReadOrReply c key shared_czero s;
        Some (case v of
                None \<Rightarrow> s
              | Some (SetObj so) \<Rightarrow>
                  let s = encode_arg c 2 s;
                      (so, yes) = setTypeIsMember s so (argv s c 2);
                      s = db_put d key (SetObj so) s
                  in addReply c (if yes then shared_cone else shared_czero) s
              | Some _ \<Rightarrow> addReply c shared_wrongtypeerr s)
      })"

definition scardCommand :: "nat \<Rightarrow> server \<Rightarrow> server option" where
  "scardCommand c s = do {
     (v, s) \<leftarrow> lookupKeyReadOrReply c (arg s c 1) shared_czero s;
     Some (case v of
             None \<Rightarrow> s
           | Some (SetObj so) \<Rightarrow> addReplyLongLong c (int (setTypeSize so)) s
           | Some _ \<Rightarrow> addReply c shared_wrongtypeerr s)
   }"

section \<open>The operands of SINTER, SUNION and SDIFF\<close>

definition lookup_operand :: "nat \<Rightarrow> bool \<Rightarrow> bytes \<Rightarrow> server \<Rightarrow> (robj option \<times> server) option" where
  "lookup_operand d store key s = (if store then lookupKeyWrite d key s else lookupKeyRead d key s)"

text \<open>\<^verbatim>\<open>sets[j]\<close> is named by the key, or is null; \<open>None\<close> as the list means a wrong type.\<close>

fun sunion_operands :: "nat \<Rightarrow> nat \<Rightarrow> bool \<Rightarrow> bytes list \<Rightarrow> server \<Rightarrow> (bytes option list option \<times> server) option" where
  "sunion_operands c d store [] s = Some (Some [], s)"
| "sunion_operands c d store (key # keys) s = do {
     (v, s) \<leftarrow> lookup_operand d store key s;
     case v of
       None \<Rightarrow> do {
         (sets, s) \<leftarrow> sunion_operands c d store keys s;
         Some (map_option (\<lambda>sets. None # sets) sets, s)
       }
     | Some (SetObj _) \<Rightarrow> do {
         (sets, s) \<leftarrow> sunion_operands c d store keys s;
         Some (map_option (\<lambda>sets. Some key # sets) sets, s)
       }
     | Some _ \<Rightarrow> Some (None, addReply c shared_wrongtypeerr s)
   }"

datatype inter_lookup = Operands | Missing_Operand | Wrong_Type

fun sinter_operands :: "nat \<Rightarrow> nat \<Rightarrow> bool \<Rightarrow> bytes list \<Rightarrow> server \<Rightarrow> (inter_lookup \<times> server) option" where
  "sinter_operands c d store [] s = Some (Operands, s)"
| "sinter_operands c d store (key # keys) s = do {
     (v, s) \<leftarrow> lookup_operand d store key s;
     case v of
       None \<Rightarrow> Some (Missing_Operand, s)
     | Some (SetObj _) \<Rightarrow> sinter_operands c d store keys s
     | Some _ \<Rightarrow> Some (Wrong_Type, addReply c shared_wrongtypeerr s)
   }"

text \<open>\<^verbatim>\<open>qsort\<close>: elements that compare equal keep their order.\<close>

fun qsort_insert :: "('a \<Rightarrow> 'a \<Rightarrow> int) \<Rightarrow> 'a \<Rightarrow> 'a list \<Rightarrow> 'a list" where
  "qsort_insert cmp x [] = [x]"
| "qsort_insert cmp x (y # ys) = (if 0 < cmp x y then y # qsort_insert cmp x ys else x # y # ys)"

definition qsort :: "('a \<Rightarrow> 'a \<Rightarrow> int) \<Rightarrow> 'a list \<Rightarrow> 'a list" where
  "qsort cmp xs = foldr (qsort_insert cmp) xs []"

text \<open>The operands with their sizes; the difference of two sizes is returned as an \<^verbatim>\<open>int\<close>.\<close>

definition operand_size :: "server \<Rightarrow> nat \<Rightarrow> bytes option \<Rightarrow> nat option" where
  "operand_size s d k = (case k of None \<Rightarrow> Some 0 | Some key \<Rightarrow> map_option setTypeSize (set_at s d key))"

definition with_sizes :: "server \<Rightarrow> nat \<Rightarrow> bytes option list \<Rightarrow> (nat \<times> bytes option) list option" where
  "with_sizes s d ks = those (map (\<lambda>k. map_option (\<lambda>n. (n, k)) (operand_size s d k)) ks)"

definition qsortCompareSetsByCardinality :: "nat \<times> 'a \<Rightarrow> nat \<times> 'a \<Rightarrow> int" where
  "qsortCompareSetsByCardinality s1 s2 = c_int (int (fst s1) - int (fst s2))"

definition qsortCompareSetsByRevCardinality :: "nat \<times> 'a \<Rightarrow> nat \<times> 'a \<Rightarrow> int" where
  "qsortCompareSetsByRevCardinality s1 s2 = c_int (int (fst s2) - int (fst s1))"

text \<open>The end of the STORE forms: the result replaces the destination, or deletes it if empty.\<close>

definition store_result :: "nat \<Rightarrow> nat \<Rightarrow> bytes \<Rightarrow> string \<Rightarrow> setobj \<Rightarrow> server \<Rightarrow> server option" where
  "store_result c d dstkey event dstset s = do {
     let (deleted, s) = dbDelete d dstkey s;
     s \<leftarrow> (if 0 < setTypeSize dstset then do {
              s \<leftarrow> dbAdd d dstkey (SetObj dstset) s;
              let s = addReplyLongLong c (int (setTypeSize dstset)) s;
              Some (notifyKeyspaceEvent REDIS_NOTIFY_SET event dstkey d s)
            } else
              let s = addReply c shared_czero s
              in Some (if deleted then notifyKeyspaceEvent REDIS_NOTIFY_GENERIC ''del'' dstkey d s else s));
     Some (add_dirty 1 (signalModifiedKey d dstkey s))
   }"

section \<open>SINTER\<close>

text \<open>One test of an element of the first set against another one; the set comes back reorganised.\<close>

definition sinter_test :: "server \<Rightarrow> set_element \<Rightarrow> setobj \<Rightarrow> setobj \<times> bool" where
  "sinter_test s e so =
     (case e of
        Element_Int intobj \<Rightarrow>
          (case so of
             SetIntset is \<Rightarrow> (so, intsetFind is intobj)
           | SetHT _ \<Rightarrow> setTypeIsMember s so (createStringObjectFromLongLong (sint intobj)))
      | Element_Obj eleobj \<Rightarrow>
          (case (eleobj, so) of
             (ObjInt v, SetIntset is) \<Rightarrow>
               if \<not> intsetFind is v then (so, False) else setTypeIsMember s so eleobj
           | _ \<Rightarrow> setTypeIsMember s so eleobj))"

fun sinter_tests :: "nat \<Rightarrow> bytes \<Rightarrow> set_element \<Rightarrow> bytes list \<Rightarrow> server \<Rightarrow> (bool \<times> server) option" where
  "sinter_tests d first e [] s = Some (True, s)"
| "sinter_tests d first e (key # keys) s =
     (if key = first then sinter_tests d first e keys s
      else do {
        so \<leftarrow> set_at s d key;
        let (so, yes) = sinter_test s e so;
        let s = db_put d key (SetObj so) s;
        if yes then sinter_tests d first e keys s else Some (False, s)
      })"

text \<open>The body of the loop over the smallest set; \<open>dstset\<close> is \<open>None\<close> when the result is a reply.\<close>

definition sinter_body ::
    "nat \<Rightarrow> nat \<Rightarrow> bytes \<Rightarrow> bytes list \<Rightarrow> set_element \<Rightarrow> setobj option \<times> int \<times> server \<Rightarrow>
     (setobj option \<times> int \<times> server) option" where
  "sinter_body c d first rest e st =
     (case st of (dstset, cardinality, s) \<Rightarrow> do {
        (all, s) \<leftarrow> sinter_tests d first e rest s;
        if \<not> all then Some (dstset, cardinality, s)
        else
          (case dstset of
             None \<Rightarrow>
               Some (None, cardinality + 1,
                 (case e of
                    Element_Obj eleobj \<Rightarrow> addReplyBulk c eleobj s
                  | Element_Int intobj \<Rightarrow> addReplyBulkLongLong c (sint intobj) s))
           | Some dst \<Rightarrow> do {
               (dst, _) \<leftarrow> setTypeAdd s dst (element_object e);
               Some (Some dst, cardinality, s)
             })
      })"

text \<open>All operands are sets: they are sorted, and the smallest is intersected with the others.\<close>

definition sinter_sets :: "nat \<Rightarrow> nat \<Rightarrow> bytes list \<Rightarrow> bytes option \<Rightarrow> server \<Rightarrow> server option" where
  "sinter_sets c d keys dstkey s = do {
     sized \<leftarrow> with_sizes s d (map Some keys);
     let sets = map (the \<circ> snd) (qsort qsortCompareSetsByCardinality sized);
     let (replylen, s) = (if dstkey = None then addDeferredMultiBulkLength c s else (None, s));
     let dstset = (if dstkey = None then None else Some createIntsetObject);
     so \<leftarrow> set_at s d (hd sets);
     (dstset, cardinality, s) \<leftarrow>
       set_loop (sinter_body c d (hd sets) (tl sets)) so (setTypeInitIterator so) (dstset, 0, s);
     case (dstkey, dstset) of
       (Some key, Some dst) \<Rightarrow> store_result c d key ''sinterstore'' dst s
     | _ \<Rightarrow> Some (setDeferredMultiBulkLength c replylen cardinality s)
   }"

definition sinterGenericCommand :: "nat \<Rightarrow> bytes list \<Rightarrow> bytes option \<Rightarrow> server \<Rightarrow> server option" where
  "sinterGenericCommand c setkeys dstkey s =
     (let d = client_db s c
      in do {
        (r, s) \<leftarrow> sinter_operands c d (dstkey \<noteq> None) setkeys s;
        case r of
          Missing_Operand \<Rightarrow>
            Some (case dstkey of
                    Some key \<Rightarrow>
                      let (deleted, s) = dbDelete d key s;
                          s = (if deleted then add_dirty 1 (signalModifiedKey d key s) else s)
                      in addReply c shared_czero s
                  | None \<Rightarrow> addReply c shared_emptymultibulk s)
        | Wrong_Type \<Rightarrow> Some s
        | Operands \<Rightarrow> sinter_sets c d setkeys dstkey s
      })"

definition sinterCommand :: "nat \<Rightarrow> server \<Rightarrow> server option" where
  "sinterCommand c s = sinterGenericCommand c (map (arg s c) [1..<argc s c]) None s"

definition sinterstoreCommand :: "nat \<Rightarrow> server \<Rightarrow> server option" where
  "sinterstoreCommand c s = sinterGenericCommand c (map (arg s c) [2..<argc s c]) (Some (arg s c 1)) s"

section \<open>SUNION and SDIFF\<close>

datatype set_operation = REDIS_OP_UNION | REDIS_OP_DIFF

definition sunion_element :: "server \<Rightarrow> strobj \<Rightarrow> setobj \<times> int \<Rightarrow> (setobj \<times> int) option" where
  "sunion_element s ele st =
     (case st of (dstset, cardinality) \<Rightarrow> do {
        (dstset, ok) \<leftarrow> setTypeAdd s dstset ele;
        Some (dstset, if ok then cardinality + 1 else cardinality)
      })"

definition sdiff_element :: "server \<Rightarrow> strobj \<Rightarrow> setobj \<times> int \<Rightarrow> (setobj \<times> int) option" where
  "sdiff_element s ele st =
     (case st of (dstset, cardinality) \<Rightarrow>
        let (dstset, ok) = setTypeRemove s dstset ele
        in Some (dstset, if ok then cardinality - 1 else cardinality))"

text \<open>The union: every element of every set; a missing key is like an empty set.\<close>

fun sunion_sets :: "server \<Rightarrow> nat \<Rightarrow> bytes option list \<Rightarrow> setobj \<times> int \<Rightarrow> (setobj \<times> int) option" where
  "sunion_sets s d [] st = Some st"
| "sunion_sets s d (None # ks) st = sunion_sets s d ks st"
| "sunion_sets s d (Some key # ks) st = do {
     so \<leftarrow> set_at s d key;
     st \<leftarrow> set_object_loop (sunion_element s) so (setTypeInitIterator so) st;
     sunion_sets s d ks st
   }"

text \<open>Algorithm 1 of the difference: the elements of the first set that no other set has.\<close>

fun sdiff_tests :: "nat \<Rightarrow> bytes \<Rightarrow> strobj \<Rightarrow> bytes option list \<Rightarrow> server \<Rightarrow> (bool \<times> server) option" where
  "sdiff_tests d first ele [] s = Some (True, s)"
| "sdiff_tests d first ele (None # ks) s = sdiff_tests d first ele ks s"
| "sdiff_tests d first ele (Some key # ks) s =
     (if key = first then Some (False, s)
      else do {
        so \<leftarrow> set_at s d key;
        let (so, yes) = setTypeIsMember s so ele;
        let s = db_put d key (SetObj so) s;
        if yes then Some (False, s) else sdiff_tests d first ele ks s
      })"

definition sdiff_body ::
    "nat \<Rightarrow> bytes \<Rightarrow> bytes option list \<Rightarrow> strobj \<Rightarrow> setobj \<times> int \<times> server \<Rightarrow> (setobj \<times> int \<times> server) option" where
  "sdiff_body d first rest ele st =
     (case st of (dstset, cardinality, s) \<Rightarrow> do {
        (none, s) \<leftarrow> sdiff_tests d first ele rest s;
        if none then do {
          (dstset, _) \<leftarrow> setTypeAdd s dstset ele;
          Some (dstset, cardinality + 1, s)
        } else Some (dstset, cardinality, s)
      })"

text \<open>Algorithm 2: add the first set, remove the others, until nothing is left.\<close>

fun sdiff_remove :: "server \<Rightarrow> nat \<Rightarrow> bytes option list \<Rightarrow> setobj \<times> int \<Rightarrow> (setobj \<times> int) option" where
  "sdiff_remove s d [] st = Some st"
| "sdiff_remove s d (None # ks) st = sdiff_remove s d ks st"
| "sdiff_remove s d (Some key # ks) st = do {
     so \<leftarrow> set_at s d key;
     st \<leftarrow> set_object_loop (sdiff_element s) so (setTypeInitIterator so) st;
     if snd st = 0 then Some st else sdiff_remove s d ks st
   }"

text \<open>The choice of the algorithm; sums of \<^verbatim>\<open>long long\<close>, halved towards zero.\<close>

definition diff_algo_one :: "nat \<Rightarrow> (nat \<times> bytes option) list \<Rightarrow> bool" where
  "diff_algo_one n0 sized =
     (let present = filter (\<lambda>(n, k). k \<noteq> None) sized;
          algo_one_work = fold (\<lambda>_ w. llong (w + int n0)) present 0;
          algo_two_work = fold (\<lambda>(n, k) w. llong (w + int n)) present 0
      in algo_one_work sdiv 2 \<le> algo_two_work)"

definition sdiff_sets :: "nat \<Rightarrow> bytes option list \<Rightarrow> server \<Rightarrow> (setobj \<times> int \<times> server) option" where
  "sdiff_sets d sets s =
     (case sets of
        Some first # rest \<Rightarrow> do {
          sized \<leftarrow> with_sizes s d sets;
          so \<leftarrow> set_at s d first;
          if diff_algo_one (fst (hd sized)) sized then
            let rest = map snd (qsort qsortCompareSetsByRevCardinality (tl sized))
            in set_object_loop (sdiff_body d first rest) so (setTypeInitIterator so) (createIntsetObject, 0, s)
          else do {
            st \<leftarrow> set_object_loop (sunion_element s) so (setTypeInitIterator so) (createIntsetObject, 0);
            (dstset, cardinality) \<leftarrow> (if snd st = 0 then Some st else sdiff_remove s d rest st);
            Some (dstset, cardinality, s)
          }
        }
      | _ \<Rightarrow> Some (createIntsetObject, 0, s))"

definition sunionDiffGenericCommand ::
    "nat \<Rightarrow> bytes list \<Rightarrow> bytes option \<Rightarrow> set_operation \<Rightarrow> server \<Rightarrow> server option" where
  "sunionDiffGenericCommand c setkeys dstkey op s =
     (let d = client_db s c
      in do {
        (r, s) \<leftarrow> sunion_operands c d (dstkey \<noteq> None) setkeys s;
        case r of
          None \<Rightarrow> Some s
        | Some sets \<Rightarrow> do {
            (dstset, cardinality, s) \<leftarrow>
              (case op of
                 REDIS_OP_UNION \<Rightarrow> do {
                   (dstset, cardinality) \<leftarrow> sunion_sets s d sets (createIntsetObject, 0);
                   Some (dstset, cardinality, s)
                 }
               | REDIS_OP_DIFF \<Rightarrow> sdiff_sets d sets s);
            case dstkey of
              None \<Rightarrow>
                set_object_loop (\<lambda>ele s. Some (addReplyBulk c ele s)) dstset (setTypeInitIterator dstset)
                  (addReplyMultiBulkLen c cardinality s)
            | Some key \<Rightarrow>
                store_result c d key (if op = REDIS_OP_UNION then ''sunionstore'' else ''sdiffstore'') dstset s
          }
      })"

definition sunionCommand :: "nat \<Rightarrow> server \<Rightarrow> server option" where
  "sunionCommand c s = sunionDiffGenericCommand c (map (arg s c) [1..<argc s c]) None REDIS_OP_UNION s"

definition sunionstoreCommand :: "nat \<Rightarrow> server \<Rightarrow> server option" where
  "sunionstoreCommand c s =
     sunionDiffGenericCommand c (map (arg s c) [2..<argc s c]) (Some (arg s c 1)) REDIS_OP_UNION s"

definition sdiffCommand :: "nat \<Rightarrow> server \<Rightarrow> server option" where
  "sdiffCommand c s = sunionDiffGenericCommand c (map (arg s c) [1..<argc s c]) None REDIS_OP_DIFF s"

definition sdiffstoreCommand :: "nat \<Rightarrow> server \<Rightarrow> server option" where
  "sdiffstoreCommand c s =
     sunionDiffGenericCommand c (map (arg s c) [2..<argc s c]) (Some (arg s c 1)) REDIS_OP_DIFF s"

section \<open>Output\<close>

text \<open>What the operations do to the output of a client.\<close>

lemma out_add:
  assumes "says c t s s'"
  shows "out s' c = out s c @ (if can_write s c then t else [])" "can_write s' c = can_write s c"
  using assms by (simp_all add: says_def)

lemmas out_reply [simp] = out_add [OF says_object] out_add [OF says_string]

lemma out_signal [simp]: "out (signalModifiedKey d k s) c = out s c" "can_write (signalModifiedKey d k s) c = can_write s c"
  by (auto simp: signalModifiedKey_def touchWatchedKey_def fold_flag out_def can_write_def client_out_def writes_def
      prepareClientToWrite_def split: option.split)

lemma out_same: "sv_client s' = sv_client s \<Longrightarrow> out s' c = out s c \<and> can_write s' c = can_write s c"
  by (simp add: out_def can_write_def)

lemma out_quiet [simp]:
  "out (add_dirty n s) c = out s c" "can_write (add_dirty n s) c = can_write s c"
  "out (notifyKeyspaceEvent ty e k d s) c = out s c" "can_write (notifyKeyspaceEvent ty e k d s) c = can_write s c"
  "out (db_put d k v s) c = out s c" "can_write (db_put d k v s) c = can_write s c"
  "out (snd (dbDelete d k s)) c = out s c" "can_write (snd (dbDelete d k s)) c = can_write s c"
  by (simp_all add: out_def can_write_def add_dirty_def db_put_def upd_db_def)

lemma out_encode [simp]: "out (encode_arg c j s) c' = out s c'" "can_write (encode_arg c j s) c' = can_write s c'"
  by (simp_all add: out_def can_write_def encode_arg_def set_argv_def upd_client_def client_out_def writes_def
      prepareClientToWrite_def)

section \<open>Sets in the database\<close>

definition members :: "server \<Rightarrow> nat \<Rightarrow> bytes \<Rightarrow> bytes set" where
  "members s d k = (case db_dict (sv_db s d) k of Some (SetObj so) \<Rightarrow> set_elems so | _ \<Rightarrow> {})"

text \<open>States that differ in the organisation of sets and the output of clients only.\<close>

definition tidy :: "server \<Rightarrow> server \<Rightarrow> bool" where
  "tidy s s' \<longleftrightarrow> server_ok s' \<and> fixed s' = fixed s \<and> dirty s' = dirty s \<and> repl_log s' = repl_log s \<and>
     (\<forall>w. c_watched (sv_client s' w) = c_watched (sv_client s w) \<and> c_mstate (sv_client s' w) = c_mstate (sv_client s w) \<and>
       c_flags (sv_client s' w) = c_flags (sv_client s w)) \<and>
     (\<forall>d. db_watched (sv_db s' d) = db_watched (sv_db s d)) \<and>
     (\<forall>d k. content s' d k = content s d k)"

lemma tidy_refl: "server_ok s \<Longrightarrow> tidy s s"
  by (simp add: tidy_def)

lemma tidy_trans: "tidy s s1 \<Longrightarrow> tidy s1 s2 \<Longrightarrow> tidy s s2"
  by (simp add: tidy_def)

lemma tidy_ok: "tidy s s' \<Longrightarrow> server_ok s'"
  by (simp add: tidy_def)

lemma tidy_view:
  assumes "tidy s s1" "view s2 = view s1"
  shows "tidy s s2"
proof -
  have "fixed s2 = fixed s1" "sv_db s2 = sv_db s1" "dirty s2 = dirty s1" "repl_log s2 = repl_log s1"
    "\<And>w. c_watched (sv_client s2 w) = c_watched (sv_client s1 w)"
    "\<And>w. c_mstate (sv_client s2 w) = c_mstate (sv_client s1 w)"
    "\<And>w. c_flags (sv_client s2 w) = c_flags (sv_client s1 w)"
    using assms(2) by (auto simp: view_def dest: fun_cong)
  moreover have "server_ok s2"
    using good_view [OF assms(2), of "{}" True s1] good_refl [OF tidy_ok [OF assms(1)]] good_ok by blast
  ultimately show ?thesis using assms(1) by (simp add: tidy_def content_def)
qed

lemma good_tidy:
  assumes "good X p s0 s" "tidy s s'"
  shows "good X p s0 s'"
proof -
  have eq: "fixed s' = fixed s" "dirty s' = dirty s" "repl_log s' = repl_log s"
    "\<And>w. c_watched (sv_client s' w) = c_watched (sv_client s w)" "\<And>w. c_mstate (sv_client s' w) = c_mstate (sv_client s w)"
    "\<And>w. c_flags (sv_client s' w) = c_flags (sv_client s w)" "\<And>d. db_watched (sv_db s' d) = db_watched (sv_db s d)"
    "\<And>d k. content s' d k = content s d k"
    using assms(2) by (simp_all add: tidy_def)
  have "advance X p s0 s' = advance X p s0 s"
    by (simp only: advance_def client_le_def touched_def logged_def eq)
  then show ?thesis using assms by (simp add: good_def tidy_def)
qed

lemma content_sets:
  "members s d k = (case fst (content s d k) of Some (Inr E) \<Rightarrow> E | _ \<Rightarrow> {})"
  "set_at s d k = None \<longleftrightarrow> (case fst (content s d k) of Some (Inr E) \<Rightarrow> False | _ \<Rightarrow> True)"
  "db_expires (sv_db s d) k = snd (content s d k)"
  "db_dict (sv_db s d) k = None \<longleftrightarrow> fst (content s d k) = None"
  by (auto simp: content_def contents_def members_def set_at_def split: option.split robj.split)

lemma tidy_sets:
  assumes "tidy s s'"
  shows "members s' d k = members s d k" "set_at s' d k = None \<longleftrightarrow> set_at s d k = None"
    "db_expires (sv_db s' d) k = db_expires (sv_db s d) k"
    "db_dict (sv_db s' d) k = None \<longleftrightarrow> db_dict (sv_db s d) k = None"
proof -
  have "content s' d k = content s d k" using assms by (simp add: tidy_def)
  then show "members s' d k = members s d k" "set_at s' d k = None \<longleftrightarrow> set_at s d k = None"
    "db_expires (sv_db s' d) k = db_expires (sv_db s d) k"
    "db_dict (sv_db s' d) k = None \<longleftrightarrow> db_dict (sv_db s d) k = None"
    unfolding content_sets by simp_all
qed

lemma set_at_Some: "set_at s d k = Some so \<longleftrightarrow> db_dict (sv_db s d) k = Some (SetObj so)"
  by (auto simp: set_at_def split: option.splits robj.splits)

lemma set_at_ok:
  assumes "server_ok s" "set_at s d k = Some so"
  shows "set_inv s so" "members s d k = set_elems so" "set_elems so \<noteq> {}"
proof -
  have "val_ok (hash_seed s) (SetObj so)"
    using assms unfolding server_ok_def db_ok_def set_at_Some by blast
  then show "set_inv s so" "members s d k = set_elems so" "set_elems so \<noteq> {}"
    using assms by (simp_all add: set_at_Some members_def set_inv_def server_ok_def)
qed

lemma set_inv_fixed: "fixed s' = fixed s \<Longrightarrow> set_inv s' so = set_inv s so"
  by (simp add: set_inv_def fixed_def)

lemma ok_limit: "server_ok s \<Longrightarrow> set_max_intset_entries s < intset_cap"
  by (simp add: server_ok_def)

text \<open>A set stored back with the same elements.\<close>

lemma tidy_put:
  assumes ok: "server_ok s" and at: "set_at s d k = Some so" and so': "set_inv s so'" "set_elems so' = set_elems so"
  shows "tidy s (db_put d k (SetObj so') s)"
proof -
  define s' where "s' = db_put d k (SetObj so') s"
  have eq: "fixed s' = fixed s" "dirty s' = dirty s" "repl_log s' = repl_log s" "sv_client s' = sv_client s"
    "db_watched (sv_db s' d') = db_watched (sv_db s d')" "content s' d' k' = content s d' k'" for d' k'
    using at so'(2) by (simp_all add: s'_def db_put_def upd_db_def fixed_def content_def contents_def set_at_Some)
  have "db_ok (hash_seed s) (sv_db s' d')" for d'
  proof -
    have "db_ok (hash_seed s) (sv_db s d')" using ok by (simp add: server_ok_def)
    then show ?thesis
      using so' set_at_ok(3) [OF ok at] by (auto simp: s'_def db_put_def upd_db_def db_ok_def set_inv_def split: if_splits)
  qed
  then have "server_ok s'"
    using ok eq by (simp add: server_ok_def watch_ok_def fixed_def)
  with eq show ?thesis by (simp add: tidy_def s'_def [symmetric])
qed

section \<open>Lookups of several keys\<close>

text \<open>Of the keys \<open>K\<close> some with a time to live may have expired.\<close>

definition lapses :: "nat \<Rightarrow> bytes set \<Rightarrow> server \<Rightarrow> server \<Rightarrow> bool" where
  "lapses d K s s' \<longleftrightarrow> fixed s' = fixed s \<and> dirty s' = dirty s \<and>
     (\<forall>w. c_argv (sv_client s' w) = c_argv (sv_client s w) \<and> c_db (sv_client s' w) = c_db (sv_client s w)) \<and>
     (\<forall>d' k. entry s' d' k = entry s d' k \<or>
        d' = d \<and> k \<in> K \<and> db_expires (sv_db s d) k \<noteq> None \<and> entry s' d' k = (None, None))"

lemma lapses_refl: "lapses d K s s"
  by (simp add: lapses_def)

lemma lapses_one:
  assumes "lapse d k s s'"
  shows "lapses d (insert k K) s s'"
proof -
  have "entry s' d' k' = entry s d' k' \<or>
      d' = d \<and> k' \<in> insert k K \<and> db_expires (sv_db s d) k' \<noteq> None \<and> entry s' d' k' = (None, None)" for d' k'
    using assms by (cases "(d', k') = (d, k)") (auto simp: lapse_def)
  then show ?thesis using assms by (simp add: lapse_def lapses_def)
qed

lemma lapses_view:
  assumes "lapses d K s s1" "view s2 = view s1" "\<And>w. c_argv (sv_client s2 w) = c_argv (sv_client s1 w)"
  shows "lapses d K s s2"
proof -
  have "fixed s2 = fixed s1" "sv_db s2 = sv_db s1" "dirty s2 = dirty s1"
    "\<And>w. c_db (sv_client s2 w) = c_db (sv_client s1 w)"
    using assms(2) by (auto simp: view_def dest: fun_cong)
  with assms(1,3) show ?thesis by (simp add: lapses_def entry_def)
qed

lemma lapses_trans:
  assumes "lapses d K s s1" "lapses d L s1 s2" "K \<subseteq> M" "L \<subseteq> M"
  shows "lapses d M s s2"
proof -
  have "entry s2 d' k = entry s d' k \<or> d' = d \<and> k \<in> M \<and> db_expires (sv_db s d) k \<noteq> None \<and> entry s2 d' k = (None, None)" for d' k
  proof -
    have a: "entry s1 d' k = entry s d' k \<or> d' = d \<and> k \<in> K \<and> db_expires (sv_db s d) k \<noteq> None \<and> entry s1 d' k = (None, None)"
      and b: "entry s2 d' k = entry s1 d' k \<or> d' = d \<and> k \<in> L \<and> db_expires (sv_db s1 d) k \<noteq> None \<and> entry s2 d' k = (None, None)"
      using assms(1,2) by (simp_all add: lapses_def)
    show ?thesis
    proof (cases "entry s1 d' k = entry s d' k")
      case True
      then have "db_expires (sv_db s1 d') k = db_expires (sv_db s d') k" by (simp add: entry_def)
      with True b assms(4) show ?thesis by (metis subsetD)
    next
      case False
      then have "d' = d \<and> k \<in> M \<and> db_expires (sv_db s d) k \<noteq> None" "entry s1 d' k = (None, None)" using a assms(3) by auto
      with b show ?thesis by auto
    qed
  qed
  then show ?thesis using assms(1,2) by (simp add: lapses_def)
qed

lemma lapses_entry: "lapses d K s s' \<Longrightarrow> k \<notin> K \<or> db_expires (sv_db s d) k = None \<Longrightarrow> entry s' d k = entry s d k"
  unfolding lapses_def by blast

lemma lapse_found:
  "lapse d k s s1 \<Longrightarrow> db_dict (sv_db s1 d) j \<noteq> None \<Longrightarrow> entry s1 d j = entry s d j"
  by (cases "j = k") (auto simp: lapse_def, auto simp: entry_def)

lemma lapses_gone: "lapses d K s s' \<Longrightarrow> db_dict (sv_db s d) k = None \<Longrightarrow> db_dict (sv_db s' d) k = None"
  unfolding lapses_def entry_def by (metis prod.inject)

lemma entry_set_at: "entry s' d k = entry s d k \<Longrightarrow> set_at s' d k = set_at s d k"
  by (simp add: entry_def set_at_def)

lemma wp_operand:
  assumes "good X p s0 s" and "\<And>s1. good X p s0 s1 \<Longrightarrow> lapse d k s s1 \<Longrightarrow> Q (db_dict (sv_db s1 d) k, s1)"
  shows "wp (lookup_operand d store k s) Q"
  unfolding lookup_operand_def wp_if by (auto intro: wp_lookupWrite [OF assms(1)] wp_lookupRead [OF assms(1)] assms(2))

lemma argv_reply: "c_argv (sv_client (addReply c ob s) w) = c_argv (sv_client s w)"
  using says_object [of c ob s] by (auto simp: says_def upd_client_def)

definition wrong_type :: "server \<Rightarrow> nat \<Rightarrow> bytes \<Rightarrow> bool" where
  "wrong_type s d k \<longleftrightarrow> db_dict (sv_db s d) k \<noteq> None \<and> set_at s d k = None"

lemma wrong_typeI: "db_dict (sv_db s d) k = Some v \<Longrightarrow> otype v \<noteq> REDIS_SET \<Longrightarrow> wrong_type s d k"
  by (cases v) (auto simp: wrong_type_def set_at_def)

lemma wrong_type_lapse: "lapse d key s s1 \<Longrightarrow> wrong_type s1 d k \<Longrightarrow> wrong_type s d k"
  using lapse_found [of d key s s1 k] by (simp add: wrong_type_def entry_def set_at_def)

text \<open>The lookups write nothing but the error.\<close>

definition looked_up :: "bool \<Rightarrow> nat \<Rightarrow> server \<Rightarrow> server \<Rightarrow> bool" where
  "looked_up wrong c s s' \<longleftrightarrow>
     (if wrong
      then out s' c = out s c @ (if can_write s c then getDecodedObject shared_wrongtypeerr else [])
      else sv_client s' = sv_client s)"

lemma looked_up_lapse: "lapse d k s s1 \<Longrightarrow> looked_up wrong c s1 s' \<Longrightarrow> looked_up wrong c s s'"
  using out_same [of s1 s c] by (auto simp: lapse_def looked_up_def split: if_splits)

lemma looked_up_reply: "lapse d k s s1 \<Longrightarrow> looked_up True c s (addReply c shared_wrongtypeerr s1)"
  using out_same [of s1 s c] by (simp add: lapse_def looked_up_def)

lemma sinter_operands_ok:
  assumes "good X p s0 s"
  shows "wp (sinter_operands c d store keys s) (\<lambda>(r, s'). good X p s0 s' \<and> lapses d (set keys) s s' \<and>
    looked_up (r = Wrong_Type) c s s' \<and>
    (case r of
       Operands \<Rightarrow> \<forall>k \<in> set keys. set_at s' d k \<noteq> None
     | Missing_Operand \<Rightarrow> \<exists>k \<in> set keys. db_dict (sv_db s' d) k = None
     | Wrong_Type \<Rightarrow> \<exists>k \<in> set keys. wrong_type s d k))"
  using assms
proof (induction keys arbitrary: s)
  case Nil
  then show ?case by (simp add: lapses_refl looked_up_def)
next
  case (Cons key keys)
  show ?case
    unfolding sinter_operands.simps wp_bind
  proof (rule wp_operand [OF Cons.prems], unfold prod.case)
    fix s1
    assume g: "good X p s0 s1" and l: "lapse d key s s1"
    note l1 = lapses_one [OF l]
    let ?Q = "\<lambda>(r, s'). good X p s0 s' \<and> lapses d (set (key # keys)) s s' \<and>
      looked_up (r = Wrong_Type) c s s' \<and>
      (case r of
         Operands \<Rightarrow> \<forall>k \<in> set (key # keys). set_at s' d k \<noteq> None
       | Missing_Operand \<Rightarrow> \<exists>k \<in> set (key # keys). db_dict (sv_db s' d) k = None
       | Wrong_Type \<Rightarrow> \<exists>k \<in> set (key # keys). wrong_type s d k)"
    have found: "wp (sinter_operands c d store keys s1) ?Q" if v: "db_dict (sv_db s1 d) key = Some (SetObj so)" for so
    proof (rule wp_mono [OF Cons.IH [OF g]], unfold split_paired_all prod.case, elim conjE, intro conjI)
      fix r s'
      assume g': "good X p s0 s'" and l': "lapses d (set keys) s1 s'" and o': "looked_up (r = Wrong_Type) c s1 s'" and
        c: "case r of Operands \<Rightarrow> \<forall>k \<in> set keys. set_at s' d k \<noteq> None
          | Missing_Operand \<Rightarrow> \<exists>k \<in> set keys. db_dict (sv_db s' d) k = None
          | Wrong_Type \<Rightarrow> \<exists>k \<in> set keys. wrong_type s1 d k"
      have "set_at s' d key \<noteq> None" if "\<forall>k \<in> set keys. set_at s' d k \<noteq> None"
      proof (cases "key \<in> set keys")
        case False
        then have "set_at s' d key = set_at s1 d key" using lapses_entry [OF l'] entry_set_at by blast
        then show ?thesis using v by (simp add: set_at_def)
      qed (use that in blast)
      then show "case r of Operands \<Rightarrow> \<forall>k \<in> set (key # keys). set_at s' d k \<noteq> None
         | Missing_Operand \<Rightarrow> \<exists>k \<in> set (key # keys). db_dict (sv_db s' d) k = None
         | Wrong_Type \<Rightarrow> \<exists>k \<in> set (key # keys). wrong_type s d k"
        using c wrong_type_lapse [OF l] by (cases r) auto
      show "looked_up (r = Wrong_Type) c s s'" by (rule looked_up_lapse [OF l o'])
      show "good X p s0 s'" by (rule g')
      show "lapses d (set (key # keys)) s s'" by (rule lapses_trans [OF l1 l']) auto
    qed
    have "wrong_type s d key" if "db_dict (sv_db s1 d) key = Some v" "otype v \<noteq> REDIS_SET" for v
      using wrong_type_lapse [OF l] wrong_typeI [OF that] .
    then show "wp (case db_dict (sv_db s1 d) key of
         None \<Rightarrow> Some (Missing_Operand, s1)
       | Some (SetObj _) \<Rightarrow> sinter_operands c d store keys s1
       | Some _ \<Rightarrow> Some (Wrong_Type, addReply c shared_wrongtypeerr s1)) ?Q"
      using found g lapses_view [OF l1, of "addReply c shared_wrongtypeerr s1" "set keys"] l1 looked_up_reply [OF l]
        looked_up_lapse [OF l, of False c s1]
      by (auto simp: argv_reply looked_up_def [of False c s1 s1] split: option.split robj.split)
  qed
qed

text \<open>
  The operands of a union are read off the state after the lookups, unless a key that expired
  meanwhile was looked up twice.
\<close>

lemma sunion_operands_ok:
  assumes "good X p s0 s" and "distinct keys \<or> (\<forall>k \<in> set keys. db_expires (sv_db s d) k = None)"
  shows "wp (sunion_operands c d store keys s) (\<lambda>(r, s'). good X p s0 s' \<and> lapses d (set keys) s s' \<and>
    looked_up (r = None) c s s' \<and>
    (case r of
       None \<Rightarrow> \<exists>k \<in> set keys. wrong_type s d k
     | Some sets \<Rightarrow> sets = map (\<lambda>k. if set_at s' d k = None then None else Some k) keys \<and>
         (\<forall>k \<in> set keys. \<not> wrong_type s' d k)))"
  using assms
proof (induction keys arbitrary: s)
  case Nil
  then show ?case by (simp add: lapses_refl looked_up_def)
next
  case (Cons key keys)
  show ?case
    unfolding sunion_operands.simps wp_bind
  proof (rule wp_operand [OF Cons.prems(1)], unfold prod.case)
    fix s1
    assume g: "good X p s0 s1" and l: "lapse d key s s1"
    note l1 = lapses_one [OF l]
    have no_ttl: "db_expires (sv_db s1 d) k = None" if "db_expires (sv_db s d) k = None" for k
      using lapses_entry [OF l1 disjI2 [OF that]] that by (simp add: entry_def)
    have d1: "distinct keys \<or> (\<forall>k \<in> set keys. db_expires (sv_db s1 d) k = None)"
      using Cons.prems(2) no_ttl by auto
    let ?R = "\<lambda>ks r s'. (case r of
         None \<Rightarrow> \<exists>k \<in> set ks. wrong_type s d k
       | Some sets \<Rightarrow> sets = map (\<lambda>k. if set_at s' d k = None then None else Some k) ks \<and>
           (\<forall>k \<in> set ks. \<not> wrong_type s' d k))"
    let ?Q = "\<lambda>(r, s'). good X p s0 s' \<and> lapses d (set (key # keys)) s s' \<and>
      looked_up (r = None) c s s' \<and> ?R (key # keys) r s'"
    have found: "wp (do { (sets, s) \<leftarrow> sunion_operands c d store keys s1; Some (map_option (\<lambda>sets. k # sets) sets, s) }) ?Q"
      if v: "k = (if set_at s1 d key = None then None else Some key)" "\<not> wrong_type s1 d key" for k
      unfolding wp_bind
    proof (rule wp_mono [OF Cons.IH [OF g d1]], unfold split_paired_all prod.case wp_Some, elim conjE, intro conjI)
      fix r s'
      assume g': "good X p s0 s'" and l': "lapses d (set keys) s1 s'" and o': "looked_up (r = None) c s1 s'" and
        c: "case r of None \<Rightarrow> \<exists>k \<in> set keys. wrong_type s1 d k
          | Some sets \<Rightarrow> sets = map (\<lambda>k. if set_at s' d k = None then None else Some k) keys \<and>
              (\<forall>k \<in> set keys. \<not> wrong_type s' d k)"
      have "key \<notin> set keys \<or> db_expires (sv_db s1 d) key = None" using Cons.prems(2) no_ttl by auto
      then have e: "entry s' d key = entry s1 d key" by (rule lapses_entry [OF l'])
      then show "?R (key # keys) (map_option ((#) k) r) s'"
        using c v wrong_type_lapse [OF l] entry_set_at [OF e]
        by (cases r) (auto simp: wrong_type_def entry_def)
      show "looked_up (map_option ((#) k) r = None) c s s'" using looked_up_lapse [OF l o'] by simp
      show "good X p s0 s'" by (rule g')
      show "lapses d (set (key # keys)) s s'" by (rule lapses_trans [OF l1 l']) auto
    qed
    have "wrong_type s d key" if "db_dict (sv_db s1 d) key = Some v" "otype v \<noteq> REDIS_SET" for v
      using wrong_type_lapse [OF l] wrong_typeI [OF that] .
    note wrong = this
    have refused: "wp (Some (None, addReply c shared_wrongtypeerr s1)) ?Q" if "wrong_type s d key"
      using g that lapses_view [OF l1, of "addReply c shared_wrongtypeerr s1" "set keys"] looked_up_reply [OF l] by (simp add: argv_reply)
    show "wp (case db_dict (sv_db s1 d) key of
         None \<Rightarrow> do {
           (sets, s) \<leftarrow> sunion_operands c d store keys s1;
           Some (map_option (\<lambda>sets. None # sets) sets, s)
         }
       | Some (SetObj _) \<Rightarrow> do {
           (sets, s) \<leftarrow> sunion_operands c d store keys s1;
           Some (map_option (\<lambda>sets. Some key # sets) sets, s)
         }
       | Some _ \<Rightarrow> Some (None, addReply c shared_wrongtypeerr s1)) ?Q"
    proof (cases "db_dict (sv_db s1 d) key")
      case None
      show ?thesis
        unfolding None option.case by (rule found) (simp_all add: wrong_type_def set_at_def None)
    next
      case (Some v)
      show ?thesis
      proof (cases v)
        case (SetObj so)
        show ?thesis
          unfolding Some option.case SetObj robj.case
          by (rule found) (simp_all add: wrong_type_def set_at_def Some SetObj)
      qed (use wrong [OF Some] refused in \<open>simp_all only: Some option.case robj.case otype.simps objtype.distinct simp_thms\<close>)
    qed
  qed
qed

section \<open>Sorting\<close>

lemma qsort_insert_mset: "mset (qsort_insert cmp x ys) = add_mset x (mset ys)"
  by (induction ys) auto

lemma qsort_mset: "mset (qsort cmp xs) = mset xs"
  by (induction xs) (simp_all add: qsort_def qsort_insert_mset)

lemma qsort_set: "set (qsort cmp xs) = set xs"
  using qsort_mset by (metis set_mset_mset)

lemma with_sizes_ok:
  assumes "\<And>k. Some k \<in> set ks \<Longrightarrow> set_at s d k \<noteq> None"
  shows "\<exists>sizes. with_sizes s d ks = Some sizes \<and> map snd sizes = ks"
  using assms
proof (induction ks)
  case Nil
  then show ?case by (simp add: with_sizes_def)
next
  case (Cons k ks)
  then obtain sizes where sz: "with_sizes s d ks = Some sizes" "map snd sizes = ks" by auto
  have "operand_size s d k \<noteq> None"
    using Cons.prems by (cases k) (simp_all add: operand_size_def)
  then show ?case using sz by (auto simp: with_sizes_def)
qed

end
