(* ===== verification/Set_Algebra.thy ===== *)
theory Set_Algebra
  imports T_Set
begin

text \<open>
  What the loops of SINTER, SUNION and SDIFF compute: the intersection, the union and the
  difference of the operands, by either algorithm of the difference and in whatever order the
  operands are sorted; and that storing a result is a change like any other.
\<close>

section \<open>Storing a result\<close>

text \<open>The content of a key that holds a set of texts; no key holds the empty set.\<close>

definition set_content :: "bytes set \<Rightarrow> (robj + bytes set) option \<times> int option" where
  "set_content E = (if E = {} then None else Some (Inr E), None)"

lemma wp_store_result:
  assumes g: "good {} False s0 s" and inv: "set_inv s dst"
    and Q: "\<And>s'. good {} False s0 s' \<Longrightarrow> touched s' d key \<Longrightarrow> dirty s' = dirty s + 1 \<Longrightarrow>
      (\<And>d' k'. content s' d' k' = (if d' = d \<and> k' = key then set_content (set_elems dst) else content s d' k')) \<Longrightarrow>
      (card (set_elems dst) < 2 ^ 63 \<longrightarrow>
       out s' c = out s c @ (if can_write s c then str '':'' @ dec_int (int (card (set_elems dst))) @ crlf else [])) \<Longrightarrow> Q s'"
  shows "wp (store_result c d key ev dst s) Q"
proof -
  define s1 where "s1 = snd (dbDelete d key s)"
  define s2 where "s2 = (if set_elems dst = {} then s1 else db_put d key (SetObj dst) s1)"
  have g1: "good {(d, key)} True s0 s1" unfolding s1_def by (rule good_delete [OF good_False [OF g]]) simp
  have "fixed s1 = fixed s" by (simp add: s1_def)
  then have inv1: "set_inv s1 dst" using inv set_inv_fixed by blast
  have g2: "good {(d, key)} True s0 s2"
    using good_put [OF g1, of "SetObj dst" d key] g1 inv1 by (simp add: s2_def set_inv_def)
  have c2: "content s2 d' k' = (if d' = d \<and> k' = key then set_content (set_elems dst) else content s d' k')" for d' k'
    by (simp add: s2_def s1_def db_put_def upd_db_def dbDelete_upd content_def contents_def set_content_def)
  have d2: "dirty s2 = dirty s" by (simp add: s2_def s1_def db_put_def upd_db_def)
  have fin: "Q (add_dirty 1 (signalModifiedKey d key s3))" if v: "view s3 = view s2"
    and o: "card (set_elems dst) < 2 ^ 63 \<Longrightarrow> out s3 c = out s c @ (if can_write s c then str '':'' @ dec_int (int (card (set_elems dst))) @ crlf else [])" for s3
  proof (rule Q)
    have db: "sv_db s3 = sv_db s2" "dirty s3 = dirty s2" using v by (simp_all add: view_def)
    have g3: "good {(d, key)} True s0 s3" using g2 good_view [OF v] by blast
    then have g4: "good {} True s0 (signalModifiedKey d key s3)" by (rule good_signal)
    show "good {} False s0 (add_dirty 1 (signalModifiedKey d key s3))"
      by (rule good_dirty [OF g4]) simp_all
    show "touched (add_dirty 1 (signalModifiedKey d key s3)) d key"
      using touched_signal [OF good_ok [OF g3], of d key] by (simp add: touched_def add_dirty_def)
    show "dirty (add_dirty 1 (signalModifiedKey d key s3)) = dirty s + 1"
      by (simp add: add_dirty_def sv_signal db d2)
    show "content (add_dirty 1 (signalModifiedKey d key s3)) d' k' =
        (if d' = d \<and> k' = key then set_content (set_elems dst) else content s d' k')" for d' k'
      using c2 by (simp add: content_def add_dirty_def sv_signal db)
    show "card (set_elems dst) < 2 ^ 63 \<longrightarrow> out (add_dirty 1 (signalModifiedKey d key s3)) c = out s c @
        (if can_write s c then str '':'' @ dec_int (int (card (set_elems dst))) @ crlf else [])" using o by simp
  qed
  have o2: "out s2 c = out s c" "can_write s2 c = can_write s c" by (simp_all add: s2_def s1_def)
  have del: "dbDelete d key s = (fst (dbDelete d key s), s1)" by (simp add: s1_def)
  show ?thesis
  proof (cases "set_elems dst = {}")
    case True
    then have "s2 = s1" "setTypeSize dst = 0" using setTypeSize_card [OF inv] by (simp_all add: s2_def)
    then show ?thesis
      unfolding store_result_def using True o2
      by (subst del) (simp add: Let_def fin shared_czero_def dec_int_def dec_nat_small)
  next
    case False
    then have "0 < setTypeSize dst" using sets.count_zero [OF inv] by simp
    moreover have fin': "Q (add_dirty 1 (signalModifiedKey d key (notifyKeyspaceEvent REDIS_NOTIFY_SET ev key d
        (addReplyLongLong c (int (card (set_elems dst))) s2))))"
      using out_add(1) [OF says_long_long [of "int (card (set_elems dst))" c s2]] o2 by (intro fin) simp_all
    moreover have "dbAdd d key (SetObj dst) s1 = Some s2"
      using False by (simp add: dbAdd_def s2_def s1_def dbDelete_upd upd_db_def)
    ultimately show ?thesis
      unfolding store_result_def using setTypeSize_card [OF inv] fin' by (subst del) (simp add: Let_def)
  qed
qed

section \<open>Intersection\<close>

lemma int_member: "set_inv s (SetIntset is) \<Longrightarrow> intsetFind is v \<longleftrightarrow> dec_int (sint v) \<in> set_elems (SetIntset is)"
  by (simp add: intset_text set_inv_def setobj_ok_def intset.mem_law)

lemma sinter_test_ok:
  assumes "set_inv s so" and t: "sinter_test s e so = (so', yes)"
  shows "set_inv s so' \<and> (yes \<longleftrightarrow> getDecodedObject (element_object e) \<in> set_elems so) \<and> set_elems so' = set_elems so"
proof (cases e)
  case (Element_Int v)
  have eo: "createStringObjectFromLongLong (sint v) = element_object (Element_Int v)" by (simp add: element_object_def)
  show ?thesis
  proof (cases so)
    case (SetIntset "is")
    then show ?thesis using assms int_member by (auto simp: sinter_test_def Element_Int)
  next
    case (SetHT d)
    then have m: "setTypeIsMember s so (element_object (Element_Int v)) = (so', yes)"
      using t by (simp add: sinter_test_def Element_Int eo)
    then show ?thesis using setTypeIsMember_ok [OF assms(1) m] by (simp add: Element_Int)
  qed
next
  case (Element_Obj ob)
  have gen: "setTypeIsMember s so ob = (so', yes) \<Longrightarrow> ?thesis"
    using setTypeIsMember_ok [OF assms(1)] by (simp add: Element_Obj)
  show ?thesis
  proof (cases "\<exists>v is. ob = ObjInt v \<and> so = SetIntset is")
    case True
    then obtain v "is" where v: "ob = ObjInt v" "so = SetIntset is" by blast
    then show ?thesis
      using gen t assms(1) int_member by (auto simp: sinter_test_def Element_Obj decoded_int split: if_splits)
  next
    case False
    then show ?thesis using gen t by (auto simp: sinter_test_def Element_Obj split: strobj.splits setobj.splits)
  qed
qed

text \<open>Reorganised sets, and the output of no client changed.\<close>

definition calm :: "server \<Rightarrow> server \<Rightarrow> bool" where
  "calm s s' \<longleftrightarrow> tidy s s' \<and> sv_client s' = sv_client s"

lemma calm_tidy: "calm s s' \<Longrightarrow> tidy s s'"
  by (simp add: calm_def)

lemma calm_refl: "server_ok s \<Longrightarrow> calm s s"
  by (simp add: calm_def tidy_refl)

lemma calm_trans: "calm s s1 \<Longrightarrow> calm s1 s2 \<Longrightarrow> calm s s2"
  unfolding calm_def using tidy_trans [of s s1 s2] by simp

lemma calm_put: "server_ok s \<Longrightarrow> set_at s d k = Some so \<Longrightarrow> set_inv s so' \<Longrightarrow> set_elems so' = set_elems so \<Longrightarrow>
    calm s (db_put d k (SetObj so') s)"
  using tidy_put by (simp add: calm_def db_put_def upd_db_def)

lemma calm_inv: "calm s s' \<Longrightarrow> set_inv s' so = set_inv s so"
  by (rule set_inv_fixed) (simp add: calm_def tidy_def)

lemmas calm_ok = tidy_ok [OF calm_tidy] and calm_sets = tidy_sets [OF calm_tidy]

lemma calm_out: "calm s s' \<Longrightarrow> out s' c = out s c \<and> can_write s' c = can_write s c"
  unfolding calm_def using out_same by blast

lemma sinter_tests_ok:
  assumes "server_ok s" and "\<forall>k \<in> set keys. set_at s d k \<noteq> None"
  shows "wp (sinter_tests d first e keys s) (\<lambda>(all, s'). calm s s' \<and>
    (all \<longleftrightarrow> (\<forall>k \<in> set keys. k \<noteq> first \<longrightarrow> getDecodedObject (element_object e) \<in> members s d k)))"
  using assms
proof (induction keys arbitrary: s)
  case Nil
  then show ?case by (simp add: calm_refl)
next
  case (Cons key keys)
  show ?case
  proof (cases "key = first")
    case True
    then show ?thesis using Cons by simp
  next
    case False
    obtain so where so: "set_at s d key = Some so" using Cons.prems by auto
    note inv = set_at_ok [OF Cons.prems(1) so]
    obtain so' yes where t: "sinter_test s e so = (so', yes)" by fastforce
    note p = sinter_test_ok [OF inv(1) t]
    define s1 where "s1 = db_put d key (SetObj so') s"
    have s1: "calm s s1" using calm_put [OF Cons.prems(1) so, of so'] p by (simp add: s1_def)
    have "\<forall>k \<in> set keys. set_at s1 d k \<noteq> None" using Cons.prems(2) calm_sets(2) [OF s1] by simp
    note IH = Cons.IH [OF calm_ok [OF s1] this]
    have "wp (sinter_tests d first e keys s1) (\<lambda>(all, s'). calm s s' \<and>
       (all \<longleftrightarrow> (\<forall>k \<in> set (key # keys). k \<noteq> first \<longrightarrow> getDecodedObject (element_object e) \<in> members s d k)))" if yes
      by (rule wp_mono [OF IH])
        (use that p inv(2) False s1 in \<open>auto simp: calm_sets(1) [OF s1] intro: calm_trans\<close>)
    then show ?thesis
      using False s1 p inv(2) by (cases yes) (simp_all add: so t s1_def [symmetric])
  qed
qed

text \<open>The loop of SINTERSTORE.\<close>

lemma sinter_store_loop:
  assumes ok: "server_ok s" and first: "set_at s d first = Some so" and rest: "\<forall>k \<in> set rest. set_at s d k \<noteq> None"
  shows "wp (set_loop (sinter_body c d first rest) so (setTypeInitIterator so) (Some createIntsetObject, 0, s))
    (\<lambda>(dstset, n, s'). calm s s' \<and> (\<exists>dst. dstset = Some dst \<and> set_inv s' dst \<and>
       set_elems dst = (\<Inter>k \<in> set (first # rest). members s d k)))"
proof -
  let ?text = "\<lambda>e. getDecodedObject (element_object e)"
  define J where "J = {t. \<forall>k \<in> set rest. k \<noteq> first \<longrightarrow> t \<in> members s d k}"
  have "members s d first \<inter> J = (\<Inter>k \<in> set (first # rest). members s d k)" by (auto simp: J_def)
  then have inter: "set_elems so \<inter> J = members s d first \<inter> (\<Inter>k \<in> set rest. members s d k)"
    using set_at_ok(2) [OF ok first] by simp
  define I where "I = (\<lambda>es (dstset, n :: int, s'). calm s s' \<and> (\<exists>dst. dstset = Some dst \<and> set_inv s' dst \<and>
       set_elems dst \<union> (?text ` set es \<inter> J) = set_elems so \<inter> J))"
  note so = set_at_ok [OF ok first]
  have texts: "?text ` set (set_list so) = set_elems so"
    using sets.elems_law [OF so(1)] by (simp add: set_objects_def image_image)
  have "wp (foldM (sinter_body c d first rest) (set_list so) (Some createIntsetObject, 0, s)) (I [])"
  proof (rule foldM_inv)
    show "I (set_list so) (Some createIntsetObject, 0, s)"
      using calm_refl [OF ok] set_inv_intset [OF ok_limit [OF ok]] texts by (simp add: I_def)
    show "wp (sinter_body c d first rest e st) (I es)" if inv: "I (e # es) st" for e es st
    proof -
      obtain n s1 dst where st: "st = (Some dst, n, s1)" and t1: "calm s s1" and dst: "set_inv s1 dst"
        "set_elems dst \<union> (?text ` set (e # es) \<inter> J) = set_elems so \<inter> J"
        using inv by (auto simp: I_def)
      have r1: "\<forall>k \<in> set rest. set_at s1 d k \<noteq> None" using rest calm_sets(2) [OF t1] by simp
      show ?thesis
        unfolding sinter_body_def st prod.case wp_bind
      proof (rule wp_mono [OF sinter_tests_ok [OF calm_ok [OF t1] r1, of first e]], unfold split_paired_all prod.case, elim conjE)
        fix all s2
        assume t2: "calm s1 s2" and all: "all \<longleftrightarrow> (\<forall>k \<in> set rest. k \<noteq> first \<longrightarrow> ?text e \<in> members s1 d k)"
        have J: "all \<longleftrightarrow> ?text e \<in> J" using all by (simp add: J_def calm_sets(1) [OF t1])
        note t = calm_trans [OF t1 t2]
        have dst2: "set_inv s2 dst" using dst(1) calm_inv [OF t2] by simp
        have "wp (setTypeAdd s2 dst (element_object e)) (\<lambda>(dst, _). I es (Some dst, n, s2))" if all
          by (rule wp_mono [OF setTypeAdd_ok [OF dst2]]) (use that J t dst(2) in \<open>auto simp: I_def\<close>)
        moreover have "I es (Some dst, n, s2)" if "\<not> all" using that J t dst dst2 by (auto simp: I_def)
        ultimately show "wp (if \<not> all then Some (Some dst, n, s2)
           else case Some dst of
             None \<Rightarrow> Some (None, n + 1, case e of Element_Obj eleobj \<Rightarrow> addReplyBulk c eleobj s2
               | Element_Int intobj \<Rightarrow> addReplyBulkLongLong c (sint intobj) s2)
           | Some dst \<Rightarrow> do { (dst, _) \<leftarrow> setTypeAdd s2 dst (element_object e); Some (Some dst, n, s2) }) (I es)"
          by (cases all) (simp_all add: case_prod_unfold)
      qed
    qed
  qed
  then show ?thesis
    unfolding loop_set(1) [OF so(1)]
    by (rule wp_mono) (auto simp: I_def inter)
qed

section \<open>Replies of sets\<close>

text \<open>The multi-bulk reply of a list of texts.\<close>

definition multi_bulk :: "bytes list \<Rightarrow> bytes" where
  "multi_bulk ts = str ''*'' @ dec_int (int (length ts)) @ crlf @ concat (map bulk ts)"

text \<open>
  The reply to \<open>c\<close> lists every element of \<open>E\<close> once, in some order; for a client that is written
  to, and elements whose lengths are representable.
\<close>

definition replies_set :: "nat \<Rightarrow> bytes set \<Rightarrow> server \<Rightarrow> server \<Rightarrow> bool" where
  "replies_set c E s s' \<longleftrightarrow>
     (can_write s c \<and> (\<forall>x \<in> E. length x < 2 ^ 63) \<and> card E < 2 ^ 63 \<longrightarrow>
      (\<exists>ts. distinct ts \<and> set ts = E \<and> out s' c = out s c @ multi_bulk ts))"

text \<open>
  A length is pending: the reply list is \<open>r\<close>, the node of the length, and the nodes written
  since, which hold the text \<open>t\<close>.
\<close>

definition pending :: "nat \<Rightarrow> bytes \<Rightarrow> bytes option list \<Rightarrow> bytes \<Rightarrow> server \<Rightarrow> bool" where
  "pending c b r t s \<longleftrightarrow> can_write s c \<and> c_buf (sv_client s c) = b \<and>
     (\<exists>rest. c_reply (sv_client s c) = r @ None # rest \<and> None \<notin> set rest \<and> concat (map chunk rest) = t)"

lemma pending_same: "sv_client s' = sv_client s \<Longrightarrow> pending c b r t s' = pending c b r t s"
  by (simp add: pending_def can_write_def)

lemma pending_list:
  assumes "writes cl" "c_reply cl = r @ None # rest" "None \<notin> set rest"
  shows "\<exists>rest'. addReplyStringToList u cl = cl\<lparr>c_reply := r @ None # rest'\<rparr> \<and> None \<notin> set rest' \<and>
    concat (map chunk rest') = concat (map chunk rest) @ u"
proof (cases rest rule: rev_cases)
  case Nil
  then show ?thesis using assms by (intro exI [of _ "[Some u]"]) (simp add: addReplyStringToList_def writes_def)
next
  case (snoc xs x)
  then obtain tail where x: "x = Some tail" using assms(3) by (cases x) auto
  show ?thesis
  proof (cases "length tail + length u \<le> REDIS_REPLY_CHUNK_BYTES")
    case True
    have "butlast (r @ None # xs @ [Some tail]) = r @ None # xs"
      using butlast_append [of "r @ None # xs" "[Some tail]"] by simp
    then show ?thesis using assms snoc x True
      by (intro exI [of _ "xs @ [Some (tail @ u)]"]) (simp add: addReplyStringToList_def writes_def)
  next
    case False
    then show ?thesis using assms snoc x
      by (intro exI [of _ "rest @ [Some u]"]) (simp add: addReplyStringToList_def writes_def)
  qed
qed

lemma pending_client:
  assumes "writes cl" "c_reply cl \<noteq> []"
  shows "client_addReplyString u cl = addReplyStringToList u cl" "client_addReply ob cl = addReplyStringToList (getDecodedObject ob) cl"
proof -
  have b: "addReplyToBuffer t cl = None" for t using assms by (simp add: addReplyToBuffer_def writes_def)
  then show "client_addReplyString u cl = addReplyStringToList u cl"
    using assms by (simp add: client_addReplyString_def writes_def)
  show "client_addReply ob cl = addReplyStringToList (getDecodedObject ob) cl"
    using assms b by (cases ob) (simp_all add: client_addReply_def writes_def object_to_list)
qed

lemma pending_string: "pending c b r t s \<Longrightarrow> pending c b r (t @ u) (addReplyString c u s)"
proof -
  assume p: "pending c b r t s"
  then obtain rest where rest: "c_reply (sv_client s c) = r @ None # rest" "None \<notin> set rest" "concat (map chunk rest) = t"
    by (auto simp: pending_def)
  have w: "writes (sv_client s c)" using p by (simp add: pending_def can_write_def)
  obtain rest' where r': "addReplyStringToList u (sv_client s c) = (sv_client s c)\<lparr>c_reply := r @ None # rest'\<rparr>"
    "None \<notin> set rest'" "concat (map chunk rest') = t @ u"
    using pending_list [OF w rest(1,2), of u] rest(3) by auto
  have "sv_client (addReplyString c u s) c = (sv_client s c)\<lparr>c_reply := r @ None # rest'\<rparr>"
    using pending_client(1) [OF w, of u] rest(1) r'(1) by (simp add: addReplyString_def upd_client_def)
  then show ?thesis using p r'(2,3) out_reply(4) [of c u s] by (simp add: pending_def)
qed

lemma pending_object: "pending c b r t s \<Longrightarrow> pending c b r (t @ getDecodedObject ob) (addReply c ob s)"
proof -
  assume p: "pending c b r t s"
  then have "writes (sv_client s c)" "c_reply (sv_client s c) \<noteq> []" by (auto simp: pending_def can_write_def)
  note pc = pending_client [OF this]
  have "addReply c ob s = addReplyString c (getDecodedObject ob) s"
    by (simp add: addReply_def addReplyString_def upd_client_def pc)
  then show ?thesis using pending_string [OF p] by simp
qed

lemma pending_prefix:
  assumes "pending c b r t s" "0 \<le> n" "n < 2 ^ 63" "p = CHR ''$''"
  shows "pending c b r (t @ str ''$'' @ dec_int n @ crlf) (addReplyLongLongWithPrefix c n p s)"
proof -
  have "(case ll2string (replicate 127 0) (word_of_int n) of (buf, len) \<Rightarrow> addReplyString c (of_char p # take len buf @ crlf) s) =
      addReplyString c (of_char p # dec_int n @ crlf) s"
    using ll2string_word [of n "replicate 127 0"] assms(2,3) by (simp add: split_beta)
  then show ?thesis
    using pending_string [OF assms(1), of "str ''$'' @ dec_int n @ crlf"] pending_object [OF assms(1), of "shared_bulkhdr n"]
    by (simp add: addReplyLongLongWithPrefix_def assms(4) shared_bulkhdr_def)
qed

lemma pending_bulk:
  assumes p: "pending c b r t s" and n: "length (getDecodedObject ob) < 2 ^ 63"
  shows "pending c b r (t @ bulk (getDecodedObject ob)) (addReplyBulk c ob s)"
proof -
  let ?hdr = "str ''$'' @ dec_int (int (length (getDecodedObject ob))) @ crlf"
  have "int (length (getDecodedObject ob)) < 2 ^ 63" using n by (simp add: of_nat_less_numeral_power_cancel_iff)
  then have "pending c b r (t @ ?hdr) (addReplyBulkLen c ob s)"
    using pending_prefix [OF p _ _ refl, of "int (length (getDecodedObject ob))"]
      pending_object [OF p, of "shared_bulkhdr (int (length (getDecodedObject ob)))"]
    by (simp add: addReplyBulkLen_def bulk_len_text shared_bulkhdr_def)
  from pending_object [OF pending_object [OF this, of ob], of shared_crlf] show ?thesis
    by (simp add: addReplyBulk_def bulk_def shared_crlf_def Let_def)
qed

lemma pending_bulk_number:
  assumes p: "pending c b r t s"
  shows "pending c b r (t @ bulk (dec_int (sint v))) (addReplyBulkLongLong c (sint (v :: u64)) s)"
proof -
  have le: "length (dec_int (sint v)) \<le> 21" by (rule length_dec_int_u64)
  have "(case ll2string (replicate 64 0) v of (buf, len) \<Rightarrow> take len buf) = dec_int (sint v)"
    using ll2string_word [of "sint v" "replicate 64 0"] sint_greater_eq [of v] sint_less [of v] by simp
  then have "addReplyBulkLongLong c (sint v) s = addReplyBulkCBuffer c (dec_int (sint v)) s"
    by (simp add: addReplyBulkLongLong_def split_beta)
  moreover have "pending c b r (t @ str ''$'' @ dec_int (int (length (dec_int (sint v)))) @ crlf)
      (addReplyLongLongWithPrefix c (int (length (dec_int (sint v)))) CHR ''$'' s)"
    using le by (intro pending_prefix [OF p]) simp_all
  note pending_object [OF pending_string [OF this, of "dec_int (sint v)"], of shared_crlf]
  ultimately show ?thesis by (simp add: addReplyBulkCBuffer_def bulk_def shared_crlf_def Let_def)
qed

lemma pending_deferred:
  assumes "can_write s c" and "addDeferredMultiBulkLength c s = (node, s1)"
  shows "node = Some (length (c_reply (sv_client s c)))"
    "pending c (c_buf (sv_client s c)) (c_reply (sv_client s c)) [] s1"
proof -
  have n: "node = Some (length (c_reply (sv_client s c)))" and s1: "s1 = upd_client c (c_reply_update (\<lambda>r. r @ [None])) s"
    using assms by (auto simp: addDeferredMultiBulkLength_def can_write_def writes_def)
  show "node = Some (length (c_reply (sv_client s c)))" by (rule n)
  show "pending c (c_buf (sv_client s c)) (c_reply (sv_client s c)) [] s1"
    using assms(1) by (auto simp: pending_def s1 upd_client_def can_write_def writes_def prepareClientToWrite_def split: if_splits)
qed

lemma pending_filled:
  assumes "pending c b r t s"
  shows "out (setDeferredMultiBulkLength c (Some (length r)) n s) c = b @ concat (map chunk r) @ str ''*'' @ dec_int n @ crlf @ t"
proof -
  obtain rest where rest: "c_reply (sv_client s c) = r @ None # rest" "None \<notin> set rest" "concat (map chunk rest) = t"
    and b: "c_buf (sv_client s c) = b"
    using assms by (auto simp: pending_def)
  have "concat (map chunk (fill_length (length r) u (r @ None # rest))) = concat (map chunk r) @ u @ t" for u
  proof (cases rest)
    case Nil
    then show ?thesis using rest(3) by (simp add: fill_length_def)
  next
    case (Cons x xs)
    then obtain y where "x = Some y" using rest(2) by (cases x) auto
    then show ?thesis using rest(3) Cons by (simp add: fill_length_def nth_append)
  qed
  then show ?thesis by (simp add: setDeferredMultiBulkLength_def out_def client_out_def upd_client_def rest(1) b)
qed

text \<open>The loop of SINTER; the last part is about a client that is written to, and elements of representable length.\<close>

lemma sinter_reply_loop:
  assumes ok: "server_ok s" and first: "set_at s d first = Some so" and rest: "\<forall>k \<in> set rest. set_at s d k \<noteq> None"
    and E: "E = (\<Inter>k \<in> set (first # rest). members s d k)"
  shows "wp (set_loop (sinter_body c d first rest) so (setTypeInitIterator so) (None, 0, s))
    (\<lambda>(dstset, n, s'). tidy s s' \<and> dstset = None \<and>
       (pending c b r [] s \<and> (\<forall>x \<in> E. length x < 2 ^ 63) \<longrightarrow>
        (\<exists>ts. distinct ts \<and> set ts = E \<and> n = int (length ts) \<and> pending c b r (concat (map bulk ts)) s')))"
proof -
  let ?text = "\<lambda>e. getDecodedObject (element_object e)"
  define J where "J = {t. \<forall>k \<in> set rest. k \<noteq> first \<longrightarrow> t \<in> members s d k}"
  note so = set_at_ok [OF ok first]
  have E': "E = set_elems so \<inter> J" using so(2) by (auto simp: E J_def)
  have texts: "distinct (map ?text (set_list so))" "?text ` set (set_list so) = set_elems so"
    using sets.elems_law [OF so(1)] by (simp_all add: set_objects_def image_image comp_def)
  define P where "P \<longleftrightarrow> pending c b r [] s \<and> (\<forall>x \<in> E. length x < 2 ^ 63)"
  define I where "I = (\<lambda>es (dstset :: setobj option, n, s'). tidy s s' \<and> dstset = None \<and>
      distinct (map ?text es) \<and> ?text ` set es \<subseteq> set_elems so \<and>
      (P \<longrightarrow> (\<exists>ts. distinct ts \<and> n = int (length ts) \<and> pending c b r (concat (map bulk ts)) s' \<and>
        set ts \<inter> ?text ` set es = {} \<and> set ts \<union> (?text ` set es \<inter> J) = E)))"
  have "wp (foldM (sinter_body c d first rest) (set_list so) (None, 0, s)) (I [])"
  proof (rule foldM_inv)
    show "I (set_list so) (None, 0, s)"
      using tidy_refl [OF ok] texts E' by (auto simp: I_def P_def intro!: exI [of _ "[]"])
    show "wp (sinter_body c d first rest e st) (I es)" if inv: "I (e # es) st" for e es st
    proof -
      obtain n s1 where st: "st = (None, n, s1)" and t1: "tidy s s1" and el: "?text e \<in> set_elems so" "?text e \<notin> ?text ` set es"
        "distinct (map ?text es)" "?text ` set es \<subseteq> set_elems so"
        using inv by (auto simp: I_def)
      have r1: "\<forall>k \<in> set rest. set_at s1 d k \<noteq> None" using rest tidy_sets(2) [OF t1] by simp
      show ?thesis
        unfolding sinter_body_def st prod.case wp_bind
      proof (rule wp_mono [OF sinter_tests_ok [OF tidy_ok [OF t1] r1, of first e]], unfold split_paired_all prod.case, elim conjE)
        fix all s2
        assume t2: "calm s1 s2" and all: "all \<longleftrightarrow> (\<forall>k \<in> set rest. k \<noteq> first \<longrightarrow> ?text e \<in> members s1 d k)"
        have J: "all \<longleftrightarrow> ?text e \<in> J" using all by (simp add: J_def tidy_sets(1) [OF t1])
        note t = tidy_trans [OF t1 calm_tidy [OF t2]]
        have same: "pending c b r t s2 = pending c b r t s1" for t by (rule pending_same) (use t2 in \<open>simp add: calm_def\<close>)
        define s3 where "s3 = (case e of Element_Obj eleobj \<Rightarrow> addReplyBulk c eleobj s2
            | Element_Int intobj \<Rightarrow> addReplyBulkLongLong c (sint intobj) s2)"
        have "view s3 = view s2" by (cases e) (simp_all add: s3_def)
        then have t3: "tidy s s3" by (rule tidy_view [OF t])
        have p3: "pending c b r (u @ bulk (?text e)) s3" if "pending c b r u s2" "length (?text e) < 2 ^ 63" for u
          using pending_bulk [OF that(1)] pending_bulk_number [OF that(1)] that(2) by (cases e) (simp_all add: s3_def)
        have yes: "I es (None, n + 1, s3)" if a: "all"
        proof -
          have "\<exists>ts. distinct ts \<and> n + 1 = int (length ts) \<and> pending c b r (concat (map bulk ts)) s3 \<and>
              set ts \<inter> ?text ` set es = {} \<and> set ts \<union> (?text ` set es \<inter> J) = E" if P: P
          proof -
            obtain ts where ts: "distinct ts" "n = int (length ts)" "pending c b r (concat (map bulk ts)) s2"
              "set ts \<inter> ?text ` set (e # es) = {}" "set ts \<union> (?text ` set (e # es) \<inter> J) = E"
              using inv P by (auto simp: I_def st same)
            have "length (?text e) < 2 ^ 63" using P ts(5) a J by (auto simp: P_def)
            then have "pending c b r (concat (map bulk (ts @ [?text e]))) s3" using p3 [OF ts(3)] by simp
            then show ?thesis using ts(1,2,4,5) el(2) a J by (intro exI [of _ "ts @ [?text e]"]) auto
          qed
          then show ?thesis using t3 el by (simp add: I_def)
        qed
        have no: "I es (None, n, s2)" if "\<not> all"
          using inv that t el J by (auto simp: I_def st same)
        show "wp (if \<not> all then Some (None, n, s2)
           else case None of
             None \<Rightarrow> Some (None, n + 1, case e of Element_Obj eleobj \<Rightarrow> addReplyBulk c eleobj s2
               | Element_Int intobj \<Rightarrow> addReplyBulkLongLong c (sint intobj) s2)
           | Some dst \<Rightarrow> do { (dst, _) \<leftarrow> setTypeAdd s2 dst (element_object e); Some (Some dst, n, s2) }) (I es)"
          using yes no by (cases all) (simp_all add: s3_def)
      qed
    qed
  qed
  then show ?thesis
    unfolding loop_set(1) [OF so(1)] by (rule wp_mono) (auto simp: I_def P_def)
qed

lemma view_deferred [simp]:
  "view (snd (addDeferredMultiBulkLength c s)) = view s" "view (setDeferredMultiBulkLength c node n s) = view s"
  by (auto simp: addDeferredMultiBulkLength_def setDeferredMultiBulkLength_def split: option.split intro: view_client)

lemmas good_neutral_deferred [simp] = good_view [OF view_deferred(1)] good_view [OF view_deferred(2)]

text \<open>The sorted operands are the operands.\<close>

lemma sorted_operands:
  assumes "map snd sizes = ks"
  shows "set (map snd (qsort cmp sizes)) = set ks" "length (map snd (qsort cmp sizes)) = length ks"
proof -
  show "set (map snd (qsort cmp sizes)) = set ks" unfolding assms [symmetric] set_map qsort_set ..
  show "length (map snd (qsort cmp sizes)) = length ks"
    unfolding assms [symmetric] length_map by (rule mset_eq_length [OF qsort_mset])
qed

lemma wp_sinter_sets:
  assumes g: "good {} False s0 s" and all: "\<forall>k \<in> set keys. set_at s d k \<noteq> None" and ne: "keys \<noteq> []"
    and store: "\<And>key s'. dstkey = Some key \<Longrightarrow> good {} False s0 s' \<Longrightarrow> touched s' d key \<Longrightarrow> dirty s' = dirty s + 1 \<Longrightarrow>
      (\<And>d' k'. content s' d' k' = (if d' = d \<and> k' = key then set_content (\<Inter>k \<in> set keys. members s d k)
        else content s d' k')) \<Longrightarrow>
      (card (\<Inter>k \<in> set keys. members s d k) < 2 ^ 63 \<longrightarrow> out s' c = out s c @ (if can_write s c
         then str '':'' @ dec_int (int (card (\<Inter>k \<in> set keys. members s d k))) @ crlf else [])) \<Longrightarrow> Q s'"
    and reply: "\<And>s'. dstkey = None \<Longrightarrow> good {} False s0 s' \<Longrightarrow> tidy s s' \<Longrightarrow>
      replies_set c (\<Inter>k \<in> set keys. members s d k) s s' \<Longrightarrow> Q s'"
  shows "wp (sinter_sets c d keys dstkey s) Q"
proof -
  obtain sizes where sz: "with_sizes s d (map Some keys) = Some sizes" "map snd sizes = map Some keys"
    using with_sizes_ok [of "map Some keys" s d] all by auto
  define sets where "sets = map (the \<circ> snd) (qsort qsortCompareSetsByCardinality sizes)"
  have "sets = map the (map snd (qsort qsortCompareSetsByCardinality sizes))" by (simp add: sets_def)
  then have "set sets = the ` set (map Some keys)" "length sets = length keys"
    using sorted_operands [OF sz(2), of qsortCompareSetsByCardinality] by (simp_all only: set_map length_map)
  then have sets: "set sets = set keys" "length sets = length keys" by (simp_all add: image_image)
  then obtain first rest where fr: "sets = first # rest" using ne by (cases sets) auto
  have keys: "set (first # rest) = set keys" using sets fr by simp
  note ok = good_ok [OF g]
  show ?thesis
  proof (cases dstkey)
    case None
    obtain node s1 where def1: "addDeferredMultiBulkLength c s = (node, s1)" by fastforce
    have v1: "view s1 = view s" using view_deferred(1) [of c s] def1 by simp
    have t1: "tidy s s1" by (rule tidy_view [OF tidy_refl [OF ok] v1])
    have all1: "\<forall>k \<in> set (first # rest). set_at s1 d k \<noteq> None" using all keys tidy_sets(2) [OF t1] by simp
    then obtain so where so: "set_at s1 d first = Some so" by auto
    have rest1: "\<forall>k \<in> set rest. set_at s1 d k \<noteq> None" using all1 by simp
    have "wp (set_loop (sinter_body c d first rest) so (setTypeInitIterator so) (None, 0, s1))
        (\<lambda>(dstset, n, s'). Q (setDeferredMultiBulkLength c node n s'))"
    proof (rule wp_mono [OF sinter_reply_loop [OF tidy_ok [OF t1] so rest1 refl, where c = c and b = "c_buf (sv_client s c)"
          and r = "c_reply (sv_client s c)"]], unfold split_paired_all prod.case, elim conjE)
      fix dstset n s2
      let ?E = "\<Inter>k \<in> set (first # rest). members s1 d k"
      assume "tidy s1 s2" and loop: "pending c (c_buf (sv_client s c)) (c_reply (sv_client s c)) [] s1 \<and> (\<forall>x \<in> ?E. length x < 2 ^ 63) \<longrightarrow>
        (\<exists>ts. distinct ts \<and> set ts = ?E \<and> n = int (length ts) \<and>
          pending c (c_buf (sv_client s c)) (c_reply (sv_client s c)) (concat (map bulk ts)) s2)"
      then have t2: "tidy s s2" using t1 tidy_trans by blast
      have E: "?E = (\<Inter>k \<in> set keys. members s d k)" unfolding keys by (simp only: tidy_sets(1) [OF t1])
      show "Q (setDeferredMultiBulkLength c node n s2)"
      proof (rule reply [OF None])
        show "good {} False s0 (setDeferredMultiBulkLength c node n s2)" using good_tidy [OF g t2] by simp
        show "tidy s (setDeferredMultiBulkLength c node n s2)" by (rule tidy_view [OF t2]) simp
        show "replies_set c (\<Inter>k \<in> set keys. members s d k) s (setDeferredMultiBulkLength c node n s2)"
          unfolding replies_set_def
        proof (intro impI, elim conjE)
          assume w: "can_write s c" and short: "\<forall>x \<in> \<Inter>k \<in> set keys. members s d k. length x < 2 ^ 63"
          note p = pending_deferred [OF w def1]
          obtain ts where ts: "distinct ts" "set ts = (\<Inter>k \<in> set keys. members s d k)" "n = int (length ts)"
            "pending c (c_buf (sv_client s c)) (c_reply (sv_client s c)) (concat (map bulk ts)) s2"
            using loop p(2) short unfolding E by blast
          have "out (setDeferredMultiBulkLength c node n s2) c = out s c @ multi_bulk ts"
            using pending_filled [OF ts(4), of n] by (simp add: p(1) multi_bulk_def ts(3) out_def client_out_def)
          then show "\<exists>ts. distinct ts \<and> set ts = (\<Inter>k \<in> set keys. members s d k) \<and>
              out (setDeferredMultiBulkLength c node n s2) c = out s c @ multi_bulk ts"
            using ts(1,2) by blast
        qed
      qed
    qed
    then show ?thesis
      by (simp add: sinter_sets_def sz sets_def [symmetric] fr None def1 so case_prod_unfold)
  next
    case (Some key)
    obtain so where so: "set_at s d first = Some so" using all keys by auto
    have rest: "\<forall>k \<in> set rest. set_at s d k \<noteq> None" using all keys by auto
    have "wp (set_loop (sinter_body c d first rest) so (setTypeInitIterator so) (Some createIntsetObject, 0, s))
        (\<lambda>(dstset, n, s'). \<exists>dst. dstset = Some dst \<and> wp (store_result c d key ''sinterstore'' dst s') Q)"
    proof (rule wp_mono [OF sinter_store_loop [OF ok so rest]], unfold split_paired_all prod.case, elim conjE exE)
      fix dstset n s1 dst
      assume t1: "calm s s1" and dst: "dstset = Some dst" "set_inv s1 dst"
        "set_elems dst = (\<Inter>k \<in> set (first # rest). members s d k)"
      have el: "set_elems dst = (\<Inter>k \<in> set keys. members s d k)" using dst(3) unfolding keys .
      have "wp (store_result c d key ''sinterstore'' dst s1) Q"
      proof (rule wp_store_result [OF good_tidy [OF g calm_tidy [OF t1]] dst(2)])
        fix s'
        assume "good {} False s0 s'" "touched s' d key" "dirty s' = dirty s1 + 1"
          "\<And>d' k'. content s' d' k' = (if d' = d \<and> k' = key then set_content (set_elems dst) else content s1 d' k')"
          "card (set_elems dst) < 2 ^ 63 \<longrightarrow>
           out s' c = out s1 c @ (if can_write s1 c then str '':'' @ dec_int (int (card (set_elems dst))) @ crlf else [])"
        then show "Q s'" using calm_tidy [OF t1] calm_out [OF t1, of c] by (intro store [OF Some]) (simp_all add: tidy_def el)
      qed
      then show "\<exists>dst. dstset = Some dst \<and> wp (store_result c d key ''sinterstore'' dst s1) Q" using dst(1) by blast
    qed
    then show ?thesis
      by (auto simp: sinter_sets_def sz sets_def [symmetric] fr Some so case_prod_unfold elim!: wp_mono)
  qed
qed

section \<open>Union\<close>

lemma counting:
  "sunion_element s = sets.add_counting s" "sdiff_element s = sets.del_counting s"
  by (intro ext; simp add: sunion_element_def sets.add_counting_def sdiff_element_def sets.del_counting_def split: prod.split)+

lemma union_loop:
  assumes "set_inv s so" and "set_inv s dst"
  shows "wp (set_object_loop (sunion_element s) so (setTypeInitIterator so) (dst, n)) (\<lambda>(dst', n'). set_inv s dst' \<and>
    set_elems dst' = set_elems dst \<union> set_elems so \<and> n' = n + int (card (set_elems dst')) - int (card (set_elems dst)))"
  using sets.add_all [OF assms(2), of "set_objects so" n] sets.elems_law [OF assms(1)]
  unfolding loop_set(2) [OF assms(1)] counting by simp

lemma remove_loop:
  assumes "set_inv s so" and "set_inv s dst"
  shows "wp (set_object_loop (sdiff_element s) so (setTypeInitIterator so) (dst, n)) (\<lambda>(dst', n'). set_inv s dst' \<and>
    set_elems dst' = set_elems dst - set_elems so \<and> n' = n + int (card (set_elems dst')) - int (card (set_elems dst)))"
  using sets.del_all [OF assms(2), of "set_objects so" n] sets.elems_law [OF assms(1)]
  unfolding loop_set(2) [OF assms(1)] counting by simp

text \<open>The elements of an operand, which is empty if it is missing.\<close>

definition operand :: "server \<Rightarrow> nat \<Rightarrow> bytes option \<Rightarrow> bytes set" where
  "operand s d k = (case k of None \<Rightarrow> {} | Some key \<Rightarrow> members s d key)"

lemma operand_simps [simp]: "operand s d None = {}" "operand s d (Some key) = members s d key"
  by (simp_all add: operand_def)

lemma sunion_sets_ok:
  assumes ok: "server_ok s" and "set_inv s dst" "n = int (card (set_elems dst))"
    and "\<And>k. Some k \<in> set ks \<Longrightarrow> set_at s d k \<noteq> None"
  shows "wp (sunion_sets s d ks (dst, n)) (\<lambda>(dst', n'). set_inv s dst' \<and>
    set_elems dst' = set_elems dst \<union> (\<Union>k \<in> set ks. operand s d k) \<and> n' = int (card (set_elems dst')))"
  using assms(2-)
proof (induction ks arbitrary: dst n)
  case (Cons k ks)
  show ?case
  proof (cases k)
    case None
    then show ?thesis using Cons by simp
  next
    case (Some key)
    obtain so where so: "set_at s d key = Some so" using Cons.prems(3) [of key] Some by auto
    note inv = set_at_ok [OF ok so]
    show ?thesis
      unfolding Some sunion_sets.simps so Option.bind.simps wp_bind
    proof (rule wp_mono [OF union_loop [OF inv(1) Cons.prems(1)]], unfold split_paired_all prod.case, elim conjE)
      fix dst' n'
      assume a: "set_inv s dst'" "set_elems dst' = set_elems dst \<union> set_elems so"
        "n' = n + int (card (set_elems dst')) - int (card (set_elems dst))"
      have "n' = int (card (set_elems dst'))" using a(3) Cons.prems(2) by simp
      from Cons.IH [OF a(1) this] Cons.prems(3)
      have "wp (sunion_sets s d ks (dst', n')) (\<lambda>(dst'', n''). set_inv s dst'' \<and>
          set_elems dst'' = set_elems dst' \<union> (\<Union>k \<in> set ks. operand s d k) \<and> n'' = int (card (set_elems dst'')))"
        by simp
      then show "wp (sunion_sets s d ks (dst', n')) (\<lambda>(dst'', n''). set_inv s dst'' \<and>
          set_elems dst'' = set_elems dst \<union> (\<Union>k \<in> set (Some key # ks). operand s d k) \<and> n'' = int (card (set_elems dst'')))"
        by (rule wp_mono) (auto simp: a(2) inv(2))
    qed
  qed
qed simp

section \<open>Difference\<close>

lemma if_cases: "R \<Longrightarrow> (b \<Longrightarrow> P) \<Longrightarrow> (if b then P else R)"
  by simp

lemma sdiff_remove_ok:
  assumes ok: "server_ok s" and "set_inv s dst" "n = int (card (set_elems dst))"
    and "\<And>k. Some k \<in> set ks \<Longrightarrow> set_at s d k \<noteq> None"
  shows "wp (sdiff_remove s d ks (dst, n)) (\<lambda>(dst', n'). set_inv s dst' \<and>
    set_elems dst' = set_elems dst - (\<Union>k \<in> set ks. operand s d k) \<and> n' = int (card (set_elems dst')))"
  using assms(2-)
proof (induction ks arbitrary: dst n)
  case (Cons k ks)
  show ?case
  proof (cases k)
    case None
    then show ?thesis using Cons by simp
  next
    case (Some key)
    obtain so where so: "set_at s d key = Some so" using Cons.prems(3) [of key] Some by auto
    note inv = set_at_ok [OF ok so]
    show ?thesis
      unfolding Some sdiff_remove.simps so Option.bind.simps wp_bind
    proof (rule wp_mono [OF remove_loop [OF inv(1) Cons.prems(1)]], unfold split_paired_all prod.case, elim conjE)
      fix dst' n'
      assume a: "set_inv s dst'" "set_elems dst' = set_elems dst - set_elems so"
        "n' = n + int (card (set_elems dst')) - int (card (set_elems dst))"
      have n': "n' = int (card (set_elems dst'))" using a(3) Cons.prems(2) by simp
      let ?Q = "\<lambda>(dst'', n''). set_inv s dst'' \<and>
          set_elems dst'' = set_elems dst - (\<Union>k \<in> set (Some key # ks). operand s d k) \<and> n'' = int (card (set_elems dst''))"
      have "wp (sdiff_remove s d ks (dst', n')) (\<lambda>(dst'', n''). set_inv s dst'' \<and>
          set_elems dst'' = set_elems dst' - (\<Union>k \<in> set ks. operand s d k) \<and> n'' = int (card (set_elems dst'')))"
        using Cons.IH [OF a(1) n'] Cons.prems(3) by simp
      then have more: "wp (sdiff_remove s d ks (dst', n')) ?Q"
        by (rule wp_mono) (auto simp: a(2) inv(2))
      have "?Q (dst', n')" if "n' = 0"
      proof -
        have "set_elems dst' = {}" using that n' sets.finite_abs [OF a(1)] by simp
        then show ?thesis using a(1,2) n' inv(2) by auto
      qed
      with more show "wp (if snd (dst', n') = 0 then Some (dst', n') else sdiff_remove s d ks (dst', n')) ?Q"
        unfolding snd_conv wp_if wp_Some by (rule if_cases)
    qed
  qed
qed simp

lemma sdiff_tests_ok:
  assumes "server_ok s" and "\<And>k. Some k \<in> set ks \<Longrightarrow> set_at s d k \<noteq> None" and "getDecodedObject ele \<in> members s d first"
  shows "wp (sdiff_tests d first ele ks s) (\<lambda>(none, s'). calm s s' \<and>
    (none \<longleftrightarrow> getDecodedObject ele \<notin> (\<Union>k \<in> set ks. operand s d k)))"
  using assms
proof (induction ks arbitrary: s)
  case Nil
  then show ?case by (simp add: calm_refl)
next
  case (Cons k ks)
  show ?case
  proof (cases k)
    case None
    then show ?thesis using Cons by simp
  next
    case (Some key)
    show ?thesis
    proof (cases "key = first")
      case True
      then show ?thesis using Cons.prems Some by (simp add: calm_refl)
    next
      case False
      obtain so where so: "set_at s d key = Some so" using Cons.prems(2) [of key] Some by auto
      note inv = set_at_ok [OF Cons.prems(1) so]
      obtain so' yes where t: "setTypeIsMember s so ele = (so', yes)" by fastforce
      note p = setTypeIsMember_ok [OF inv(1) t]
      define s1 where "s1 = db_put d key (SetObj so') s"
      have s1: "calm s s1" using calm_put [OF Cons.prems(1) so, of so'] p by (simp add: s1_def)
      have ops: "operand s1 d j = operand s d j" for j
        by (cases j) (simp_all add: calm_sets(1) [OF s1])
      have "wp (sdiff_tests d first ele ks s1) (\<lambda>(none, s'). calm s1 s' \<and>
          (none \<longleftrightarrow> getDecodedObject ele \<notin> (\<Union>k \<in> set ks. operand s1 d k)))"
        using Cons.prems(2,3) by (intro Cons.IH [OF calm_ok [OF s1]]) (simp_all add: calm_sets [OF s1])
      then have "wp (sdiff_tests d first ele ks s1) (\<lambda>(none, s'). calm s s' \<and>
          (none \<longleftrightarrow> getDecodedObject ele \<notin> (\<Union>k \<in> set (Some key # ks). operand s d k)))" if "\<not> yes"
        by (rule wp_mono) (use that p inv(2) in \<open>auto simp: ops intro: calm_trans [OF s1]\<close>)
      then show ?thesis
        using False s1 p inv(2) by (cases yes) (simp_all add: Some so t s1_def [symmetric])
    qed
  qed
qed

lemma sdiff_one_loop:
  assumes ok: "server_ok s" and first: "set_at s d first = Some so" and rest: "\<And>k. Some k \<in> set rest \<Longrightarrow> set_at s d k \<noteq> None"
  shows "wp (set_object_loop (sdiff_body d first rest) so (setTypeInitIterator so) (createIntsetObject, 0, s))
    (\<lambda>(dst, n, s'). calm s s' \<and> set_inv s' dst \<and> set_elems dst = members s d first - (\<Union>k \<in> set rest. operand s d k) \<and>
       n = int (card (set_elems dst)))"
proof -
  define D where "D = (\<Union>k \<in> set rest. operand s d k)"
  define I where "I = (\<lambda>es (dst, n, s'). calm s s' \<and> set_inv s' dst \<and> n = int (card (set_elems dst)) \<and>
       distinct (map getDecodedObject es) \<and> getDecodedObject ` set es \<subseteq> set_elems so \<and>
       set_elems dst \<inter> getDecodedObject ` set es = {} \<and>
       set_elems dst \<union> (getDecodedObject ` set es - D) = set_elems so - D)"
  note so = set_at_ok [OF ok first]
  note el = sets.elems_law [OF so(1)]
  have "wp (foldM (sdiff_body d first rest) (set_objects so) (createIntsetObject, 0, s)) (I [])"
  proof (rule foldM_inv)
    show "I (set_objects so) (createIntsetObject, 0, s)"
      using calm_refl [OF ok] set_inv_intset [OF ok_limit [OF ok]] el by (simp add: I_def)
    show "wp (sdiff_body d first rest e st) (I es)" if inv: "I (e # es) st" for e es st
    proof -
      obtain dst n s1 where st: "st = (dst, n, s1)" and t1: "calm s s1" and dst: "set_inv s1 dst" "n = int (card (set_elems dst))"
        using inv by (auto simp: I_def)
      have ops: "operand s1 d k = operand s d k" for k by (cases k) (simp_all add: calm_sets(1) [OF t1])
      have r1: "set_at s1 d k \<noteq> None" if "Some k \<in> set rest" for k using rest [OF that] calm_sets(2) [OF t1] by simp
      have e1: "getDecodedObject e \<in> members s1 d first" using inv so(2) by (simp add: st I_def calm_sets(1) [OF t1])
      show ?thesis
        unfolding sdiff_body_def st prod.case wp_bind
      proof (rule wp_mono [OF sdiff_tests_ok [OF calm_ok [OF t1] r1 e1]], assumption, unfold split_paired_all prod.case, elim conjE)
        fix none s2
        assume t2: "calm s1 s2" and "none \<longleftrightarrow> getDecodedObject e \<notin> (\<Union>k \<in> set rest. operand s1 d k)"
        then have none: "none \<longleftrightarrow> getDecodedObject e \<notin> D" by (simp add: D_def ops)
        note t = calm_trans [OF t1 t2]
        have dst2: "set_inv s2 dst" using dst(1) calm_inv [OF t2] by simp
        define T where "T = getDecodedObject ` set es"
        have i: "getDecodedObject e \<notin> T" "distinct (map getDecodedObject es)" "getDecodedObject e \<in> set_elems so"
          "T \<subseteq> set_elems so" "set_elems dst \<inter> insert (getDecodedObject e) T = {}"
          "set_elems dst \<union> (insert (getDecodedObject e) T - D) = set_elems so - D"
          using inv by (simp_all add: st I_def T_def)
        have "wp (setTypeAdd s2 dst e) (\<lambda>(dst, _). I es (dst, n + 1, s2))" if none
          by (rule wp_mono [OF setTypeAdd_ok [OF dst2]])
            (use that none t i dst(2) sets.finite_abs [OF dst2] in \<open>auto simp: I_def T_def [symmetric]\<close>)
        moreover have "I es (dst, n, s2)" if "\<not> none"
          using that none t i dst(2) dst2 by (auto simp: I_def T_def [symmetric])
        ultimately show "wp (if none then do { (dstset, _) \<leftarrow> setTypeAdd s2 dst e; Some (dstset, n + 1, s2) }
            else Some (dst, n, s2)) (I es)"
          by (cases none) (simp_all add: case_prod_unfold)
      qed
    qed
  qed
  then show ?thesis
    unfolding loop_set(2) [OF so(1)]
    by (rule wp_mono) (auto simp: I_def D_def so(2))
qed

lemma sdiff_sets_ok:
  assumes ok: "server_ok s" and at: "\<And>k. Some k \<in> set ks \<Longrightarrow> set_at s d k \<noteq> None" and ne: "ks \<noteq> []"
  shows "wp (sdiff_sets d ks s) (\<lambda>(dst, n, s'). calm s s' \<and> set_inv s' dst \<and>
    set_elems dst = operand s d (hd ks) - (\<Union>k \<in> set (tl ks). operand s d k) \<and> n = int (card (set_elems dst)))"
proof -
  obtain k rest where ks: "ks = k # rest" using ne by (cases ks) auto
  have empty: "set_inv s createIntsetObject" "set_elems createIntsetObject = {}"
    using set_inv_intset [OF ok_limit [OF ok]] by simp_all
  show ?thesis
  proof (cases k)
    case None
    then show ?thesis using empty by (simp add: sdiff_sets_def ks calm_refl [OF ok])
  next
    case (Some first)
    obtain sizes where sz: "with_sizes s d ks = Some sizes" "map snd sizes = ks" using with_sizes_ok [of ks s d] at by auto
    obtain so where so: "set_at s d first = Some so" using at [of first] by (auto simp: ks Some)
    note inv = set_at_ok [OF ok so]
    define sorted where "sorted = map snd (qsort qsortCompareSetsByRevCardinality (tl sizes))"
    have "map snd (tl sizes) = rest" using sz(2) ks by (cases sizes) auto
    then have sorted: "set sorted = set rest" unfolding sorted_def by (rule sorted_operands(1))
    let ?Q = "\<lambda>(dst, n, s'). calm s s' \<and> set_inv s' dst \<and>
      set_elems dst = members s d first - (\<Union>k \<in> set rest. operand s d k) \<and> n = int (card (set_elems dst))"
    have one: "wp (set_object_loop (sdiff_body d first sorted) so (setTypeInitIterator so) (createIntsetObject, 0, s)) ?Q"
      using sdiff_one_loop [OF ok so, of sorted] at by (simp add: sorted ks)
    let ?R = "\<lambda>(dst, n). set_inv s dst \<and>
      set_elems dst = members s d first - (\<Union>k \<in> set rest. operand s d k) \<and> n = int (card (set_elems dst))"
    have two: "wp (set_object_loop (sunion_element s) so (setTypeInitIterator so) (createIntsetObject, 0))
        (\<lambda>st. wp (if snd st = 0 then Some st else sdiff_remove s d rest st)
          ?R)"
    proof (rule wp_mono [OF union_loop [OF inv(1) empty(1)]], unfold split_paired_all prod.case, elim conjE)
      fix dst n
      assume a: "set_inv s dst" "set_elems dst = set_elems createIntsetObject \<union> set_elems so"
        "n = 0 + int (card (set_elems dst)) - int (card (set_elems createIntsetObject))"
      then have b: "set_elems dst = members s d first" "n = int (card (set_elems dst))" using empty(2) inv(2) by simp_all
      have "wp (sdiff_remove s d rest (dst, n)) ?R"
        by (rule wp_mono [OF sdiff_remove_ok [OF ok a(1) b(2)]])
          (use at in \<open>auto simp: ks b(1) \<close>)
      moreover have "?R (dst, n)" if "n = 0"
      proof -
        have "set_elems dst = {}" using that b(2) sets.finite_abs [OF a(1)] by simp
        then show ?thesis using a(1) b by auto
      qed
      ultimately show "wp (if snd (dst, n) = 0 then Some (dst, n) else sdiff_remove s d rest (dst, n)) ?R"
        unfolding snd_conv wp_if wp_Some prod.case by (rule if_cases)
    qed
    show ?thesis
    proof (cases "diff_algo_one (fst (hd sizes)) sizes")
      case True
      then show ?thesis
        using one by (simp add: sdiff_sets_def Some so sz(1) [unfolded ks Some] ks sorted_def [symmetric])
    next
      case False
      then show ?thesis
        using two by (simp add: sdiff_sets_def Some so sz(1) [unfolded ks Some] ks case_prod_unfold calm_refl [OF ok] del: wp_if)
    qed
  qed
qed

section \<open>The commands\<close>

definition combined :: "set_operation \<Rightarrow> server \<Rightarrow> nat \<Rightarrow> bytes list \<Rightarrow> bytes set" where
  "combined op s d keys =
     (case op of
        REDIS_OP_UNION \<Rightarrow> \<Union>k \<in> set keys. members s d k
      | REDIS_OP_DIFF \<Rightarrow> members s d (hd keys) - (\<Union>k \<in> set (tl keys). members s d k))"

lemma members_none: "set_at s d k = None \<Longrightarrow> members s d k = {}"
  by (auto simp: set_at_def members_def split: option.splits robj.splits)

lemma operand_key: "operand s d (if set_at s d k = None then None else Some k) = members s d k"
  by (simp add: members_none)

lemma combined_ok:
  assumes ok: "server_ok s" and ne: "keys \<noteq> []"
    and sets: "sets = map (\<lambda>k. if set_at s d k = None then None else Some k) keys"
  shows "wp (case op of
      REDIS_OP_UNION \<Rightarrow> do { (dst, n) \<leftarrow> sunion_sets s d sets (createIntsetObject, 0); Some (dst, n, s) }
    | REDIS_OP_DIFF \<Rightarrow> sdiff_sets d sets s)
    (\<lambda>(dst, n, s'). calm s s' \<and> set_inv s' dst \<and> set_elems dst = combined op s d keys \<and> n = int (card (set_elems dst)))"
proof -
  have at: "set_at s d k \<noteq> None" if "Some k \<in> set sets" for k using that by (auto simp: sets split: if_splits)
  have ops: "(\<Union>k \<in> set (map (\<lambda>k. if set_at s d k = None then None else Some k) ks). operand s d k) = (\<Union>k \<in> set ks. members s d k)" for ks
    by (induction ks) (simp_all add: operand_key del: operand_simps split del: if_split)
  have hd: "operand s d (hd sets) = members s d (hd keys)" "tl sets = map (\<lambda>k. if set_at s d k = None then None else Some k) (tl keys)"
    using ne by (simp_all add: sets hd_map map_tl operand_key del: operand_simps)
  have empty: "set_inv s createIntsetObject" "set_elems createIntsetObject = {}"
    using set_inv_intset [OF ok_limit [OF ok]] by simp_all
  have u: "(\<Union>k \<in> set sets. operand s d k) = (\<Union>k \<in> set keys. members s d k)" unfolding sets by (rule ops)
  show ?thesis
  proof (cases op)
    case REDIS_OP_UNION
    have "wp (sunion_sets s d sets (createIntsetObject, 0)) (\<lambda>(dst, n). calm s s \<and> set_inv s dst \<and>
        set_elems dst = combined op s d keys \<and> n = int (card (set_elems dst)))"
      by (rule wp_mono [OF sunion_sets_ok [OF ok empty(1) _ at]])
        (clarsimp simp: empty(2) combined_def REDIS_OP_UNION calm_refl [OF ok] u)+
    then show ?thesis by (simp add: REDIS_OP_UNION case_prod_unfold)
  next
    case REDIS_OP_DIFF
    have ne': "sets \<noteq> []" using ne by (simp add: sets)
    have t: "(\<Union>k \<in> set (tl sets). operand s d k) = (\<Union>k \<in> set (tl keys). members s d k)"
      unfolding hd(2) by (rule ops)
    show ?thesis
      using sdiff_sets_ok [OF ok at ne'] unfolding REDIS_OP_DIFF set_operation.case combined_def hd(1) t by simp
  qed
qed

lemma view_bulks: "wp (foldM (\<lambda>ele s. Some (addReplyBulk c ele s)) es s) (\<lambda>s'. view s' = view s)"
proof (induction es arbitrary: s)
  case (Cons e es)
  show ?case using Cons.IH [of "addReplyBulk c e s"] by simp
qed simp

lemma says_bulks:
  assumes "\<forall>e \<in> set es. length (getDecodedObject e) < 2 ^ 63" and "says c t s0 s"
  shows "wp (foldM (\<lambda>ele s. Some (addReplyBulk c ele s)) es s)
    (\<lambda>s'. says c (t @ concat (map (\<lambda>e. bulk (getDecodedObject e)) es)) s0 s')"
  using assms
proof (induction es arbitrary: s t)
  case (Cons e es)
  have "says c (t @ bulk (getDecodedObject e)) s0 (addReplyBulk c e s)"
    using Cons.prems says_trans says_bulk by auto
  then show ?case using Cons.IH [of "t @ bulk (getDecodedObject e)" "addReplyBulk c e s"] Cons.prems(1) by simp
qed simp

text \<open>The reply of SUNION and SDIFF.\<close>

lemma bulks_reply:
  assumes dst: "set_inv s dst" and n: "n = int (card (set_elems dst))"
  shows "wp (foldM (\<lambda>ele s. Some (addReplyBulk c ele s)) (set_objects dst) (addReplyMultiBulkLen c n s))
    (\<lambda>s'. view s' = view s \<and> replies_set c (set_elems dst) s s')"
proof (rule wp_conj)
  show "wp (foldM (\<lambda>ele s. Some (addReplyBulk c ele s)) (set_objects dst) (addReplyMultiBulkLen c n s)) (\<lambda>s'. view s' = view s)"
    by (rule wp_mono [OF view_bulks]) simp
  define ts where "ts = map getDecodedObject (set_objects dst)"
  have ts: "distinct ts" "set ts = set_elems dst" using sets.elems_law [OF dst] by (simp_all add: ts_def)
  then have len: "n = int (length ts)" using n distinct_card by metis
  show "wp (foldM (\<lambda>ele s. Some (addReplyBulk c ele s)) (set_objects dst) (addReplyMultiBulkLen c n s))
      (replies_set c (set_elems dst) s)"
  proof (cases "(\<forall>x \<in> set_elems dst. length x < 2 ^ 63) \<and> card (set_elems dst) < 2 ^ 63")
    case True
    then have "\<forall>e \<in> set (set_objects dst). length (getDecodedObject e) < 2 ^ 63" using ts(2) by (auto simp: ts_def)
    moreover have "says c (str ''*'' @ dec_int n @ crlf) s (addReplyMultiBulkLen c n s)"
      using True n by (intro says_multi_bulk_len) simp_all
    ultimately show ?thesis
    proof (rule wp_mono [OF says_bulks])
      fix s'
      assume "says c ((str ''*'' @ dec_int n @ crlf) @ concat (map (\<lambda>e. bulk (getDecodedObject e)) (set_objects dst))) s s'"
      then have "out s' c = out s c @ (if can_write s c then multi_bulk ts else [])"
        using out_add(1) by (simp add: multi_bulk_def len ts_def comp_def)
      then show "replies_set c (set_elems dst) s s'" using ts unfolding replies_set_def by (metis (full_types))
    qed
  next
    case False
    have "replies_set c (set_elems dst) s s'" for s' using False by (auto simp: replies_set_def)
    then show ?thesis by (rule wp_mono [OF view_bulks])
  qed
qed

text \<open>The effect of a STORE form: the destination holds the result, and a change is counted.\<close>

definition stored :: "nat \<Rightarrow> bytes \<Rightarrow> bytes set \<Rightarrow> server \<Rightarrow> server \<Rightarrow> bool" where
  "stored d key E s s' \<longleftrightarrow> touched s' d key \<and> dirty s' = dirty s + 1 \<and>
     (\<forall>d' k'. content s' d' k' = (if d' = d \<and> k' = key then set_content E else content s d' k'))"

lemma wp_sunionDiff:
  assumes g: "good {} False s0 s" and once: "distinct keys \<or> (\<forall>k \<in> set keys. db_expires (sv_db s (client_db s c)) k = None)"
    and ne: "keys \<noteq> []"
    and wrong: "\<And>s'. good {} False s0 s' \<Longrightarrow> lapses (client_db s c) (set keys) s s' \<Longrightarrow>
      \<exists>k \<in> set keys. wrong_type s (client_db s c) k \<Longrightarrow>
      out s' c = out s c @ (if can_write s c then getDecodedObject shared_wrongtypeerr else []) \<Longrightarrow> Q s'"
    and store: "\<And>key s1 s'. dstkey = Some key \<Longrightarrow> good {} False s0 s' \<Longrightarrow> lapses (client_db s c) (set keys) s s1 \<Longrightarrow>
      \<forall>k \<in> set keys. \<not> wrong_type s1 (client_db s c) k \<Longrightarrow>
      stored (client_db s c) key (combined op s1 (client_db s c) keys) s1 s' \<Longrightarrow>
      (card (combined op s1 (client_db s c) keys) < 2 ^ 63 \<longrightarrow> out s' c = out s c @ (if can_write s c
         then str '':'' @ dec_int (int (card (combined op s1 (client_db s c) keys))) @ crlf else [])) \<Longrightarrow> Q s'"
    and reply: "\<And>s1 s'. dstkey = None \<Longrightarrow> good {} False s0 s' \<Longrightarrow> lapses (client_db s c) (set keys) s s1 \<Longrightarrow> tidy s1 s' \<Longrightarrow>
      \<forall>k \<in> set keys. \<not> wrong_type s1 (client_db s c) k \<Longrightarrow>
      replies_set c (combined op s1 (client_db s c) keys) s s' \<Longrightarrow> Q s'"
  shows "wp (sunionDiffGenericCommand c keys dstkey op s) Q"
  unfolding sunionDiffGenericCommand_def Let_def wp_bind
proof (rule wp_mono [OF sunion_operands_ok [OF g once]], unfold split_paired_all prod.case, elim conjE)
  fix r s1
  define d where "d = client_db s c"
  let ?comb = "\<lambda>sets. case op of
      REDIS_OP_UNION \<Rightarrow> do { (dst, n) \<leftarrow> sunion_sets s1 d sets (createIntsetObject, 0); Some (dst, n, s1) }
    | REDIS_OP_DIFF \<Rightarrow> sdiff_sets d sets s1"
  let ?finish = "\<lambda>(dst, n, s'). case dstkey of
       None \<Rightarrow> set_object_loop (\<lambda>ele s. Some (addReplyBulk c ele s)) dst (setTypeInitIterator dst) (addReplyMultiBulkLen c n s')
     | Some key \<Rightarrow> store_result c d key (if op = REDIS_OP_UNION then ''sunionstore'' else ''sdiffstore'') dst s'"
  assume g1: "good {} False s0 s1" and l: "lapses (client_db s c) (set keys) s s1" and lu: "looked_up (r = None) c s s1" and
    r: "case r of None \<Rightarrow> \<exists>k \<in> set keys. wrong_type s (client_db s c) k
     | Some sets \<Rightarrow> sets = map (\<lambda>k. if set_at s1 (client_db s c) k = None then None else Some k) keys \<and>
         (\<forall>k \<in> set keys. \<not> wrong_type s1 (client_db s c) k)"
  have "wp (?comb sets) (\<lambda>x. wp (?finish x) Q)" if sets: "r = Some sets" for sets
  proof (rule wp_mono [OF combined_ok [OF good_ok [OF g1] ne]], unfold split_paired_all prod.case)
    have cl: "sv_client s1 = sv_client s" using lu sets by (simp add: looked_up_def)
    show "sets = map (\<lambda>k. if set_at s1 d k = None then None else Some k) keys" using r sets by (simp add: d_def)
    fix dst n s2
    assume a: "calm s1 s2 \<and> set_inv s2 dst \<and> set_elems dst = combined op s1 d keys \<and> n = int (card (set_elems dst))"
    then have t: "tidy s1 s2" and dst: "set_inv s2 dst" and el: "set_elems dst = combined op s1 d keys" "n = int (card (set_elems dst))"
      by (simp_all add: calm_tidy)
    have cl2: "sv_client s2 = sv_client s" using a cl by (simp add: calm_def)
    then have o2: "out s2 c = out s c" "can_write s2 c = can_write s c" using out_same by blast+
    note g2 = good_tidy [OF g1 t]
    show "wp (case dstkey of
       None \<Rightarrow> set_object_loop (\<lambda>ele s. Some (addReplyBulk c ele s)) dst (setTypeInitIterator dst) (addReplyMultiBulkLen c n s2)
     | Some key \<Rightarrow> store_result c d key (if op = REDIS_OP_UNION then ''sunionstore'' else ''sdiffstore'') dst s2) Q"
    proof (cases dstkey)
      case None
      show ?thesis
        unfolding None option.case loop_set(2) [OF dst]
      proof (rule wp_mono [OF bulks_reply [OF dst el(2)]], elim conjE)
        fix s3
        assume v: "view s3 = view s2" and "replies_set c (set_elems dst) s2 s3"
        then have "replies_set c (combined op s1 d keys) s s3" by (simp add: replies_set_def o2 el(1))
        then show "Q s3"
          using tidy_view [OF t v] r sets unfolding d_def
          by (intro reply [OF None _ l]) (use good_tidy [OF g1] in simp_all)
      qed
    next
      case (Some key)
      show ?thesis
        unfolding Some option.case
      proof (rule wp_store_result [OF g2 dst])
        fix s'
        assume "good {} False s0 s'" and s': "touched s' d key" "dirty s' = dirty s2 + 1"
          "\<And>d' k'. content s' d' k' = (if d' = d \<and> k' = key then set_content (set_elems dst) else content s2 d' k')"
          "card (set_elems dst) < 2 ^ 63 \<longrightarrow>
           out s' c = out s2 c @ (if can_write s2 c then str '':'' @ dec_int (int (card (set_elems dst))) @ crlf else [])"
        then show "Q s'"
          using t r sets o2 by (intro store [OF Some _ l]) (simp_all add: stored_def tidy_def d_def [symmetric] el(1))
      qed
    qed
  qed
  then show "wp (case r of None \<Rightarrow> Some s1
    | Some sets \<Rightarrow> ?comb sets \<bind> ?finish) Q"
    using wrong [OF g1 l] r lu by (cases r) (simp_all add: looked_up_def)
qed

end
