(* ===== verification/Set_Commands.thy ===== *)
theory Set_Commands
  imports Set_Algebra
begin

text \<open>
  The set commands as a whole: each is a handler like the others (it fails no assertion, keeps the
  invariant, marks the watchers of what it changes and counts its changes), and what it does to the
  keys it names.
\<close>

section \<open>SINTER and SINTERSTORE\<close>

lemma wp_sinter:
  assumes g: "good {} False s0 s" and ne: "keys \<noteq> []"
    and wrong: "\<And>s'. good {} False s0 s' \<Longrightarrow> lapses (client_db s c) (set keys) s s' \<Longrightarrow>
      \<exists>k \<in> set keys. wrong_type s (client_db s c) k \<Longrightarrow>
      out s' c = out s c @ (if can_write s c then getDecodedObject shared_wrongtypeerr else []) \<Longrightarrow> Q s'"
    and store: "\<And>key s1 s'. dstkey = Some key \<Longrightarrow> good {} False s0 s' \<Longrightarrow> lapses (client_db s c) (set keys) s s1 \<Longrightarrow>
      (\<And>d' k'. content s' d' k' = (if d' = client_db s c \<and> k' = key
         then set_content (\<Inter>k \<in> set keys. members s1 (client_db s c) k) else content s1 d' k')) \<Longrightarrow>
      (card (\<Inter>k \<in> set keys. members s1 (client_db s c) k) < 2 ^ 63 \<longrightarrow> out s' c = out s c @ (if can_write s c
         then str '':'' @ dec_int (int (card (\<Inter>k \<in> set keys. members s1 (client_db s c) k))) @ crlf else [])) \<Longrightarrow> Q s'"
    and reply: "\<And>s1 s'. dstkey = None \<Longrightarrow> good {} False s0 s' \<Longrightarrow> lapses (client_db s c) (set keys) s s1 \<Longrightarrow> tidy s1 s' \<Longrightarrow>
      replies_set c (\<Inter>k \<in> set keys. members s1 (client_db s c) k) s s' \<Longrightarrow> Q s'"
  shows "wp (sinterGenericCommand c keys dstkey s) Q"
  unfolding sinterGenericCommand_def Let_def wp_bind
proof (rule wp_mono [OF sinter_operands_ok [OF g]], unfold split_paired_all prod.case, elim conjE)
  fix r s1
  define d where "d = client_db s c"
  assume g1: "good {} False s0 s1" and l: "lapses (client_db s c) (set keys) s s1" and lu: "looked_up (r = Wrong_Type) c s s1" and
    r: "case r of
         Operands \<Rightarrow> \<forall>k \<in> set keys. set_at s1 (client_db s c) k \<noteq> None
       | Missing_Operand \<Rightarrow> \<exists>k \<in> set keys. db_dict (sv_db s1 (client_db s c)) k = None
       | Wrong_Type \<Rightarrow> \<exists>k \<in> set keys. wrong_type s (client_db s c) k"
  show "wp (case r of
         Operands \<Rightarrow> sinter_sets c (client_db s c) keys dstkey s1
       | Missing_Operand \<Rightarrow> Some (case dstkey of
           None \<Rightarrow> addReply c shared_emptymultibulk s1
         | Some key \<Rightarrow> (case dbDelete (client_db s c) key s1 of
             (deleted, t) \<Rightarrow> addReply c shared_czero
               (if deleted then add_dirty 1 (signalModifiedKey (client_db s c) key t) else t)))
       | Wrong_Type \<Rightarrow> Some s1) Q"
  proof (cases r)
    case Operands
    then have all: "\<forall>k \<in> set keys. set_at s1 (client_db s c) k \<noteq> None" using r by simp
    have "sv_client s1 = sv_client s" using lu Operands by (simp add: looked_up_def)
    then have o1: "out s1 c = out s c" "can_write s1 c = can_write s c" using out_same by blast+
    show ?thesis
      unfolding Operands inter_lookup.case
    proof (rule wp_sinter_sets [OF g1 all ne])
      show "Q s'" if "dstkey = Some key" "good {} False s0 s'" "touched s' (client_db s c) key"
          "dirty s' = dirty s1 + 1"
          "\<And>d' k'. content s' d' k' = (if d' = client_db s c \<and> k' = key
             then set_content (\<Inter>k \<in> set keys. members s1 (client_db s c) k) else content s1 d' k')"
          "card (\<Inter>k \<in> set keys. members s1 (client_db s c) k) < 2 ^ 63 \<longrightarrow> out s' c = out s1 c @ (if can_write s1 c
             then str '':'' @ dec_int (int (card (\<Inter>k \<in> set keys. members s1 (client_db s c) k))) @ crlf else [])" for key s'
        by (rule store [OF that(1,2) l that(5) that(6) [unfolded o1]])
      show "Q s'" if "dstkey = None" "good {} False s0 s'" "tidy s1 s'"
          "replies_set c (\<Inter>k \<in> set keys. members s1 (client_db s c) k) s1 s'" for s'
        by (rule reply [OF that(1,2) l that(3) that(4) [unfolded replies_set_def o1, folded replies_set_def]])
    qed
  next
    case Missing_Operand
    then obtain k where k: "k \<in> set keys" "db_dict (sv_db s1 d) k = None" using r by (auto simp: d_def)
    then have none: "(\<Inter>k \<in> set keys. members s1 d k) = {}" by (auto simp: members_def)
    have "sv_client s1 = sv_client s" using lu Missing_Operand by (simp add: looked_up_def)
    then have o1: "out s1 c = out s c" "can_write s1 c = can_write s c" using out_same by blast+
    show ?thesis
    proof (cases dstkey)
      case None
      have "view (addReply c shared_emptymultibulk s1) = view s1" by simp
      from tidy_view [OF tidy_refl [OF good_ok [OF g1]] this] have "tidy s1 (addReply c shared_emptymultibulk s1)" .
      moreover have "good {} False s0 (addReply c shared_emptymultibulk s1)" using g1 by simp
      moreover
      have "replies_set c {} s (addReply c shared_emptymultibulk s1)"
        by (simp add: replies_set_def o1 multi_bulk_def shared_emptymultibulk_def dec_int_def dec_nat_small)
      ultimately have "Q (addReply c shared_emptymultibulk s1)"
        using none unfolding d_def by (intro reply [OF None _ l]) simp_all
      then show ?thesis by (simp add: Missing_Operand None)
    next
      case (Some key)
      define s2 where "s2 = snd (dbDelete d key s1)"
      define s3 where "s3 = (if db_dict (sv_db s1 d) key \<noteq> None then add_dirty 1 (signalModifiedKey d key s2) else s2)"
      have "good {} False s0 s3"
      proof (cases "db_dict (sv_db s1 d) key = None")
        case True
        then have "good {} False s0 s2" unfolding s2_def by (intro good_delete [OF g1]) simp
        then show ?thesis using True by (simp add: s3_def)
      next
        case False
        have "good {(d, key)} True s0 s2" unfolding s2_def by (rule good_delete [OF good_False [OF g1]]) simp
        then have "good {} True s0 (signalModifiedKey d key s2)" by (rule good_signal)
        then have "good {} False s0 (add_dirty 1 (signalModifiedKey d key s2))" by (rule good_dirty) simp_all
        then show ?thesis using False by (simp add: s3_def)
      qed
      moreover have o3: "out s3 c = out s c" "can_write s3 c = can_write s c" by (simp_all add: s3_def s2_def o1)
      moreover have "content s3 d' k' = (if d' = d \<and> k' = key then set_content {} else content s1 d' k')" for d' k'
        by (simp add: s3_def s2_def content_def set_content_def add_dirty_def sv_signal dbDelete_upd upd_db_def)
      moreover have "sv_db (addReply c shared_czero s3) = sv_db s3"
        using view_reply(2) [of c shared_czero s3] by (simp add: view_def)
      ultimately have "Q (addReply c shared_czero s3)"
        using none o3 by (intro store [OF Some _ l])
          (simp_all add: content_def d_def [symmetric], simp_all add: shared_czero_def dec_int_def dec_nat_small)
      moreover have "dbDelete d key s1 = (db_dict (sv_db s1 d) key \<noteq> None, s2)" by (simp add: s2_def dbDelete_upd)
      ultimately show ?thesis
        by (cases "db_dict (sv_db s1 d) key = None") (simp_all add: Missing_Operand Some d_def [symmetric] s3_def)
    qed
  next
    case Wrong_Type
    then show ?thesis using wrong [OF g1 l] r lu by (simp add: looked_up_def)
  qed
qed

section \<open>SADD\<close>

lemma arg_encode [simp]: "arg (encode_arg c j s) c i = arg s c i" "argc (encode_arg c j s) c = argc s c"
  by (cases "i = j"; cases "j < length (c_argv (sv_client s c))")
    (simp_all add: encode_arg_def set_argv_def upd_client_def arg_def argv_def argc_def decoded_encoding list_update_beyond)

lemma view_inv: "view s' = view s \<Longrightarrow> set_inv s' so = set_inv s so"
  by (rule set_inv_fixed) (simp add: view_def)

lemma sadd_loop_ok:
  assumes "set_inv s so"
  shows "wp (sadd_loop c js so n s) (\<lambda>(so', n', s'). view s' = view s \<and> set_inv s' so' \<and>
    set_elems so' = set_elems so \<union> arg s c ` set js \<and> n' = n + int (card (set_elems so')) - int (card (set_elems so)) \<and>
    out s' c = out s c \<and> can_write s' c = can_write s c)"
  using assms
proof (induction js arbitrary: so n s)
  case (Cons j js)
  define s1 where "s1 = encode_arg c j s"
  have inv: "set_inv s1 so" using Cons.prems view_inv [of s1 s so] by (simp add: s1_def)
  have a: "getDecodedObject (argv s1 c j) = arg s c j" "\<And>i. arg s1 c i = arg s c i"
    using arg_encode(1) [of c j s j] unfolding s1_def arg_def [of "encode_arg c j s" c j] by simp_all
  show ?case
    unfolding sadd_loop.simps Let_def s1_def [symmetric] wp_bind
  proof (rule wp_mono [OF setTypeAdd_ok [OF inv]], unfold split_paired_all prod.case, elim conjE)
    fix so' ok
    assume so': "set_inv s1 so'" "ok \<longleftrightarrow> getDecodedObject (argv s1 c j) \<notin> set_elems so"
      "set_elems so' = insert (getDecodedObject (argv s1 c j)) (set_elems so)"
    have n: "(if ok then n + 1 else n) = n + int (card (set_elems so')) - int (card (set_elems so))"
      using so'(2,3) sets.finite_abs [OF inv] by (simp add: insert_absorb)
    show "wp (sadd_loop c js so' (if ok then n + 1 else n) s1) (\<lambda>(so', n', s'). view s' = view s \<and> set_inv s' so' \<and>
        set_elems so' = set_elems so \<union> arg s c ` set (j # js) \<and>
        n' = n + int (card (set_elems so')) - int (card (set_elems so)) \<and>
        out s' c = out s c \<and> can_write s' c = can_write s c)"
      by (rule wp_mono [OF Cons.IH [OF so'(1)]]) (use n so'(3) in \<open>auto simp: a, simp_all add: s1_def\<close>)
  qed
qed simp

lemma put_same [simp]:
  "fixed (db_put d k v s) = fixed s" "sv_client (db_put d k v s) = sv_client s" "dirty (db_put d k v s) = dirty s"
  "repl_log (db_put d k v s) = repl_log s" "argc (db_put d k v s) c = argc s c" "argv (db_put d k v s) c j = argv s c j"
  "arg (db_put d k v s) c j = arg s c j"
  by (simp_all add: db_put_def upd_db_def fixed_def argc_def argv_def arg_def)

lemma sv_put: "sv_db (db_put d k v s) = (sv_db s)(d := db_dict_update (\<lambda>m. m(k \<mapsto> v)) (sv_db s d))"
  by (simp add: db_put_def upd_db_def)

lemma put_twice: "db_put d k v (db_put d k u s) = db_put d k v s"
  by (simp add: db_put_def upd_db_def comp_def)

lemma view_put: "view s' = view s \<Longrightarrow> view (db_put d k v s') = view (db_put d k v s)"
  by (simp add: view_def sv_put)

lemma content_put: "content (db_put d k v s) d' k' =
    (if d' = d \<and> k' = k then (Some (contents v), db_expires (sv_db s d) k) else content s d' k')"
  by (simp add: content_def sv_put)

text \<open>
  A set stored back with different elements, in a state that looks like one where the key is
  already in use or has just been created: the change is signalled and counted.
\<close>

lemma good_change:
  assumes g: "good {} False s0 s" and v: "view s1 = view (db_put d k (SetObj so) s)"
    and inv: "set_inv s so" "set_elems so \<noteq> {}" and n: "0 < n"
  shows "good {} False s0 (add_dirty n (notifyKeyspaceEvent ty e k d (signalModifiedKey d k s1)))"
proof -
  have "good {(d, k)} True s0 (db_put d k (SetObj so) s)"
    by (rule good_put [OF good_False [OF g]]) (use inv in \<open>simp_all add: set_inv_def\<close>)
  then have "good {(d, k)} True s0 s1" using good_view [OF v] by blast
  then have "good {} True s0 (signalModifiedKey d k s1)" by (rule good_signal)
  then have "good {} True s0 (notifyKeyspaceEvent ty e k d (signalModifiedKey d k s1))" by simp
  then show ?thesis by (rule good_dirty) (simp_all add: n less_imp_le)
qed

lemma content_view: "sv_db s1 = sv_db s \<Longrightarrow> content s1 d k = content s d k"
  by (simp add: content_def)

lemma db_reply [simp]: "sv_db (addReplyLongLong c n s) = sv_db s" "sv_db (addReply c ob s) = sv_db s"
  "dirty (addReplyLongLong c n s) = dirty s" "dirty (addReply c ob s) = dirty s"
  using view_replies(4) [of c n s] view_reply(2) [of c ob s] by (simp_all add: view_def)

lemma out_long_long:
  assumes "- (2 ^ 63) \<le> n" "n < 2 ^ 63"
  shows "out (addReplyLongLong c n s) c = out s c @ (if can_write s c then str '':'' @ dec_int n @ crlf else [])"
  using out_add(1) [OF says_long_long [OF assms]] .

lemma card_args: "A \<subseteq> f ` {2..<n} \<Longrightarrow> card A \<le> n" for n :: nat
proof -
  assume "A \<subseteq> f ` {2..<n}"
  then have "card A \<le> card (f ` {2..<n})" by (intro card_mono) simp_all
  also have "\<dots> \<le> n - 2" using card_image_le [of "{2..<n}" f] by simp
  finally show ?thesis by simp
qed

lemma wp_sadd_members:
  assumes g: "good {} False s0 s" and inv: "set_inv s so"
    and st: "s1 = s \<and> set_at s d key = Some so \<or> s1 = db_put d key (SetObj so) s \<and> db_dict (sv_db s d) key = None \<and> set_elems so = {}"
    and n: "3 \<le> argc s c" "argc s c < 2 ^ 63"
    and Q: "\<And>s' E. good {} False s0 s' \<Longrightarrow> E = members s d key \<union> arg s c ` {2..<argc s c} \<Longrightarrow>
      (\<And>d' k'. content s' d' k' = (if d' = d \<and> k' = key then (Some (Inr E), db_expires (sv_db s d) key) else content s d' k')) \<Longrightarrow>
      dirty s' = dirty s + int (card (E - members s d key)) \<Longrightarrow>
      out s' c = out s c @ (if can_write s c then str '':'' @ dec_int (int (card (E - members s d key))) @ crlf else []) \<Longrightarrow> Q s'"
  shows "wp (sadd_members c d key so s1) Q"
proof -
  have m: "members s d key = set_elems so"
    using st by (auto simp: members_def set_at_Some)
  have args: "argc s1 c = argc s c" "\<And>j. arg s1 c j = arg s c j" "out s1 c = out s c" "can_write s1 c = can_write s c"
    and dirty1: "dirty s1 = dirty s"
    using st by auto
  have inv1: "set_inv s1 so" using st inv set_inv_fixed [of s1 s so] by auto
  have put: "db_put d key v s1 = db_put d key v s" for v using st put_twice by auto
  show ?thesis
    unfolding sadd_members_def wp_bind
  proof (rule wp_mono [OF sadd_loop_ok [OF inv1]], unfold split_paired_all prod.case, elim conjE)
    fix so' n' s2
    assume v: "view s2 = view s1" and inv2: "set_inv s2 so'" and
      E: "set_elems so' = set_elems so \<union> arg s1 c ` set [2..<argc s1 c]" and
      n': "n' = 0 + int (card (set_elems so')) - int (card (set_elems so))" and
      o: "out s2 c = out s1 c" "can_write s2 c = can_write s1 c"
    have vput: "view (db_put d key (SetObj so') s2) = view (db_put d key (SetObj so') s)"
      using view_put [OF v] put by simp
    have inv': "set_inv s so'" using inv2 view_inv [OF v] set_inv_fixed [of s1 s so'] st by auto
    have fin: "finite (set_elems so')" by (rule sets.finite_abs [OF inv'])
    have ne: "set_elems so' \<noteq> {}" using E n(1) args(1) by auto
    have sub: "set_elems so \<subseteq> set_elems so'" using E by blast
    have card: "n' = int (card (set_elems so' - set_elems so))"
      using n' card_Diff_subset [OF finite_subset [OF sub fin] sub] card_mono [OF fin sub] by simp
    have "set_elems so' - set_elems so \<subseteq> arg s c ` {2..<argc s c}" using E args by auto
    then have lim: "- (2 ^ 63) \<le> n'" "n' < 2 ^ 63"
      unfolding card using le_less_trans [OF card_args n(2)] by (simp_all add: of_nat_less_numeral_power_cancel_iff)
    define s3 where "s3 = add_dirty n' (if n' \<noteq> 0
      then notifyKeyspaceEvent REDIS_NOTIFY_SET ''sadd'' key d (signalModifiedKey d key (db_put d key (SetObj so') s2))
      else db_put d key (SetObj so') s2)"
    have good3: "good {} False s0 s3"
    proof (cases "n' = 0")
      case False
      then have "0 < n'" using card by simp
      from good_change [OF g vput inv' ne this] show ?thesis using False by (simp add: s3_def)
    next
      case True
      then have same: "set_elems so' = set_elems so" using card sub fin by auto
      have "set_at s d key = Some so" using st same ne by auto
      then have "tidy s (db_put d key (SetObj so') s)" by (rule tidy_put [OF good_ok [OF g] _ inv' same])
      then have "good {} False s0 (db_put d key (SetObj so') s2)" using good_tidy [OF g] good_view [OF vput] by blast
      then have "good {} False s0 (add_dirty 0 (db_put d key (SetObj so') s2))" by (rule good_dirty) simp_all
      then show ?thesis using True by (simp add: s3_def)
    qed
    have db3: "sv_db s3 = sv_db (db_put d key (SetObj so') s)"
      using vput by (simp add: s3_def add_dirty_def sv_signal view_def)
    have dirty2: "dirty s2 = dirty s" using v dirty1 by (simp add: view_def)
    have dirty3: "dirty s3 = dirty s + n'" by (simp add: s3_def add_dirty_def sv_signal dirty2)
    have o3: "out s3 c = out s c" "can_write s3 c = can_write s c" using o args by (simp_all add: s3_def)
    have "Q (addReplyLongLong c n' s3)"
    proof (rule Q)
      show "good {} False s0 (addReplyLongLong c n' s3)" using good3 by simp
      show "set_elems so' = members s d key \<union> arg s c ` {2..<argc s c}" using E args by (simp add: m)
      show "content (addReplyLongLong c n' s3) d' k' =
          (if d' = d \<and> k' = key then (Some (Inr (set_elems so')), db_expires (sv_db s d) key) else content s d' k')" for d' k'
        using content_put [of d key "SetObj so'" s d' k'] by (simp add: content_def db3 contents_def)
      show "dirty (addReplyLongLong c n' s3) = dirty s + int (card (set_elems so' - members s d key))"
        by (simp add: dirty3 card m)
      show "out (addReplyLongLong c n' s3) c = out s c @ (if can_write s c
          then str '':'' @ dec_int (int (card (set_elems so' - members s d key))) @ crlf else [])"
        unfolding m card [symmetric] out_long_long [OF lim] o3 ..
    qed
    then show "wp (let s = db_put d key (SetObj so') s2;
         s = (if n' \<noteq> 0 then notifyKeyspaceEvent REDIS_NOTIFY_SET ''sadd'' key d (signalModifiedKey d key s) else s);
         s = add_dirty n' s
       in Some (addReplyLongLong c n' s)) Q"
      by (simp add: s3_def Let_def)
  qed
qed

lemma wp_sadd:
  assumes g: "good {} False s0 s" and n: "3 \<le> argc s c" "argc s c < 2 ^ 63"
    and wrong: "\<And>s1. good {} False s0 s1 \<Longrightarrow> lapse (client_db s c) (arg s c 1) s s1 \<Longrightarrow>
      wrong_type s (client_db s c) (arg s c 1) \<Longrightarrow> Q (addReply c shared_wrongtypeerr s1)"
    and Q: "\<And>s1 s' E. good {} False s0 s' \<Longrightarrow> lapse (client_db s c) (arg s c 1) s s1 \<Longrightarrow>
      \<not> wrong_type s1 (client_db s c) (arg s c 1) \<Longrightarrow>
      E = members s1 (client_db s c) (arg s c 1) \<union> arg s c ` {2..<argc s c} \<Longrightarrow>
      (\<And>d k. content s' d k = (if d = client_db s c \<and> k = arg s c 1
         then (Some (Inr E), db_expires (sv_db s1 (client_db s c)) (arg s c 1)) else content s1 d k)) \<Longrightarrow>
      dirty s' = dirty s + int (card (E - members s1 (client_db s c) (arg s c 1))) \<Longrightarrow>
      out s' c = out s c @ (if can_write s c
        then str '':'' @ dec_int (int (card (E - members s1 (client_db s c) (arg s c 1)))) @ crlf else []) \<Longrightarrow> Q s'"
  shows "wp (saddCommand c s) Q"
  unfolding saddCommand_def Let_def wp_bind
proof (rule wp_lookupWrite [OF g], unfold prod.case)
  fix s1
  define d key where "d = client_db s c" and "key = arg s c 1"
  assume g1: "good {} False s0 s1" and l: "lapse (client_db s c) (arg s c 1) s s1"
  note same = lapseD [OF l]
  have o: "out s1 c = out s c" "can_write s1 c = can_write s c" using out_same [OF same(2)] by simp_all
  have n1: "3 \<le> argc s1 c" "argc s1 c < 2 ^ 63" using n same(7) by simp_all
  have add: "wp (sadd_members c d key so s2) Q" if inv: "set_inv s1 so" and
    st: "s2 = s1 \<and> set_at s1 d key = Some so \<or> s2 = db_put d key (SetObj so) s1 \<and> db_dict (sv_db s1 d) key = None \<and> set_elems so = {}"
    for so s2
  proof (rule wp_sadd_members [OF g1 inv st n1])
    fix s' E
    assume a: "good {} False s0 s'" "E = members s1 d key \<union> arg s1 c ` {2..<argc s1 c}"
      "\<And>d' k'. content s' d' k' = (if d' = d \<and> k' = key then (Some (Inr E), db_expires (sv_db s1 d) key) else content s1 d' k')"
      "dirty s' = dirty s1 + int (card (E - members s1 d key))"
      "out s' c = out s1 c @ (if can_write s1 c then str '':'' @ dec_int (int (card (E - members s1 d key))) @ crlf else [])"
    have nw: "\<not> wrong_type s1 d key" using st by (auto simp: wrong_type_def)
    note b = a [unfolded same(3) same(6) same(7) o d_def key_def]
    show "Q s'" by (rule Q [OF b(1) l nw [unfolded d_def key_def] b(2-5)])
  qed
  have refused: "wp (Some (addReply c shared_wrongtypeerr s1)) Q" if "db_dict (sv_db s1 d) key = Some v" "otype v \<noteq> REDIS_SET" for v
    using wrong [OF g1 l] wrong_type_lapse [OF l wrong_typeI [OF that [unfolded d_def key_def]]] by simp
  have new: "wp (dbAdd d key (SetObj (setTypeCreate (argv s1 c 2))) s1) (\<lambda>s. wp (sadd_members c d key (setTypeCreate (argv s1 c 2)) s) Q)"
    if "db_dict (sv_db s1 d) key = None"
    using set_inv_create [OF ok_limit [OF good_ok [OF g1]], of "argv s1 c 2"] that by (simp add: dbAdd_def add)
  have old: "wp (sadd_members c d key so s1) Q" if "db_dict (sv_db s1 d) key = Some (SetObj so)" for so
    using set_at_ok(1) [OF good_ok [OF g1], of d key so] that by (intro add) (simp_all add: set_at_Some)
  show "wp (case db_dict (sv_db s1 (client_db s c)) (arg s c 1) of
       None \<Rightarrow> dbAdd (client_db s c) (arg s c 1) (SetObj (setTypeCreate (argv s1 c 2))) s1 \<bind>
         sadd_members c (client_db s c) (arg s c 1) (setTypeCreate (argv s1 c 2))
     | Some (SetObj so) \<Rightarrow> sadd_members c (client_db s c) (arg s c 1) so s1
     | Some _ \<Rightarrow> Some (addReply c shared_wrongtypeerr s1)) Q"
    unfolding d_def [symmetric] key_def [symmetric]
  proof (cases "db_dict (sv_db s1 d) key")
    case None
    from new [OF None] show "wp (case db_dict (sv_db s1 d) key of
       None \<Rightarrow> dbAdd d key (SetObj (setTypeCreate (argv s1 c 2))) s1 \<bind> sadd_members c d key (setTypeCreate (argv s1 c 2))
     | Some (SetObj so) \<Rightarrow> sadd_members c d key so s1
     | Some _ \<Rightarrow> Some (addReply c shared_wrongtypeerr s1)) Q"
      unfolding None option.case wp_bind .
  next
    case (Some v)
    show "wp (case db_dict (sv_db s1 d) key of
       None \<Rightarrow> dbAdd d key (SetObj (setTypeCreate (argv s1 c 2))) s1 \<bind> sadd_members c d key (setTypeCreate (argv s1 c 2))
     | Some (SetObj so) \<Rightarrow> sadd_members c d key so s1
     | Some _ \<Rightarrow> Some (addReply c shared_wrongtypeerr s1)) Q"
      unfolding Some option.case
      by (cases v) (use Some old refused [OF Some] in \<open>simp_all only: robj.case otype.simps objtype.distinct simp_thms\<close>)
  qed
qed

section \<open>SREM\<close>

text \<open>What a key with elements \<open>E\<close> and this time to live holds: nothing if there are none.\<close>

definition key_content :: "bytes set \<Rightarrow> int option \<Rightarrow> (robj + bytes set) option \<times> int option" where
  "key_content E tm = (if E = {} then (None, None) else (Some (Inr E), tm))"

lemma content_members:
  assumes "server_ok s" and "\<not> wrong_type s d k"
  shows "content s d k = key_content (members s d k) (db_expires (sv_db s d) k)"
proof (cases "set_at s d k")
  case None
  then have "db_dict (sv_db s d) k = None" using assms(2) by (simp add: wrong_type_def)
  moreover have "db_expires (sv_db s d) k = None" using assms(1) calculation by (auto simp: server_ok_def db_ok_def)
  ultimately show ?thesis by (simp add: content_def key_content_def members_def)
next
  case (Some so)
  then show ?thesis
    using set_at_ok [OF assms(1) Some] by (simp add: content_def key_content_def set_at_Some contents_def)
qed

lemma delete_put: "snd (dbDelete d k (db_put d k v s)) = snd (dbDelete d k s)"
  by (simp add: dbDelete_upd db_put_def upd_db_def comp_def)

lemma content_delete: "content (snd (dbDelete d k s)) d' k' = (if d' = d \<and> k' = k then (None, None) else content s d' k')"
  by (simp add: dbDelete_upd upd_db_def content_def)

lemma srem_loop_ok:
  assumes "set_inv s so" "set_elems so \<noteq> {}" and "srem_loop s c js so n = (so', n', gone)"
  shows "set_inv s so' \<and> set_elems so' = set_elems so - arg s c ` set js \<and> (gone \<longleftrightarrow> set_elems so' = {}) \<and>
    n' = n + int (card (set_elems so)) - int (card (set_elems so'))"
  using assms
proof (induction js arbitrary: so n)
  case (Cons j js)
  obtain so1 ok where r: "setTypeRemove s so (argv s c j) = (so1, ok)" by fastforce
  have p: "set_inv s so1" "ok \<longleftrightarrow> arg s c j \<in> set_elems so" "set_elems so1 = set_elems so - {arg s c j}"
    using setTypeRemove_ok [OF Cons.prems(1) r] by (simp_all add: arg_def)
  have z: "setTypeSize so1 = 0 \<longleftrightarrow> set_elems so1 = {}" by (rule sets.count_zero [OF p(1)])
  show ?case
  proof (cases ok)
    case False
    then have same: "set_elems so1 = set_elems so" using p by auto
    have "srem_loop s c js so1 n = (so', n', gone)" using Cons.prems(3) r False by simp
    from Cons.IH [OF p(1) _ this] Cons.prems(2) same False p(2) show ?thesis by auto
  next
    case True
    then have c1: "Suc (card (set_elems so1)) = card (set_elems so)"
      using p card_Suc_Diff1 [OF sets.finite_abs [OF Cons.prems(1)]] by simp
    show ?thesis
    proof (cases "set_elems so1 = {}")
      case True
      then have "so' = so1 \<and> n' = n + 1 \<and> gone" using Cons.prems(3) r \<open>ok\<close> z by simp
      then show ?thesis using True p c1 by auto
    next
      case False
      then have "srem_loop s c js so1 (n + 1) = (so', n', gone)" using Cons.prems(3) r \<open>ok\<close> z by simp
      from Cons.IH [OF p(1) False this] c1 p(3) show ?thesis by auto
    qed
  qed
qed simp

lemma srem_members_ok:
  assumes g: "good {} False s0 s" and at: "set_at s d key = Some so" and n: "argc s c < 2 ^ 63"
    and s': "s' = srem_members c d key so s" and E: "E = members s d key - arg s c ` {2..<argc s c}"
  shows "good {} False s0 s'"
    "content s' d' k' = (if d' = d \<and> k' = key then key_content E (db_expires (sv_db s d) key) else content s d' k')"
    "dirty s' = dirty s + int (card (members s d key - E))"
    "out s' c = out s c @ (if can_write s c then str '':'' @ dec_int (int (card (members s d key - E))) @ crlf else [])"
proof -
  note inv = set_at_ok [OF good_ok [OF g] at]
  obtain so' n' gone where r: "srem_loop s c [2..<argc s c] so 0 = (so', n', gone)" by (metis prod_cases3)
  have p: "set_inv s so'" "set_elems so' = E" "gone \<longleftrightarrow> E = {}" "n' = int (card (set_elems so)) - int (card E)"
    using srem_loop_ok [OF inv(1,3) r] by (simp_all add: E inv(2))
  have fin: "finite (set_elems so)" by (rule sets.finite_abs [OF inv(1)])
  have sub: "E \<subseteq> set_elems so" using E inv(2) by auto
  have card: "n' = int (card (members s d key - E))"
    using p(4) card_Diff_subset [OF finite_subset [OF sub fin] sub] card_mono [OF fin sub] inv(2) by simp
  have "members s d key - E \<subseteq> arg s c ` {2..<argc s c}" using E by auto
  then have lim: "- (2 ^ 63) \<le> n'" "n' < 2 ^ 63"
    unfolding card using le_less_trans [OF card_args n] by (simp_all add: of_nat_less_numeral_power_cancel_iff)
  define s1 where "s1 = (if gone then snd (dbDelete d key s) else db_put d key (SetObj so') s)"
  define s2 where "s2 = (if n' \<noteq> 0 then
      let t = notifyKeyspaceEvent REDIS_NOTIFY_SET ''srem'' key d (signalModifiedKey d key s1)
      in add_dirty n' (if gone then notifyKeyspaceEvent REDIS_NOTIFY_GENERIC ''del'' key d t else t)
    else s1)"
  have s'': "s' = addReplyLongLong c n' s2"
    by (cases gone) (simp_all add: s' srem_members_def r s2_def s1_def delete_put Let_def)
  have "good {} False s0 s2"
  proof (cases "n' = 0")
    case True
    then have same: "set_elems so' = set_elems so" using card sub fin p(2) inv(2) by auto
    then have "\<not> gone" using inv(3) p by auto
    then show ?thesis
      using good_tidy [OF g tidy_put [OF good_ok [OF g] at p(1) same]] True by (simp add: s2_def s1_def)
  next
    case False
    then have pos: "0 < n'" using card by simp
    show ?thesis
    proof (cases gone)
      case True
      have "good {(d, key)} True s0 s1"
        using good_delete [OF good_False [OF g], where d = d and k = key and X = "{(d, key)}" and p = True] by (simp add: s1_def True)
      then have "good {} True s0 (signalModifiedKey d key s1)" by (rule good_signal)
      then have "good {} True s0 (notifyKeyspaceEvent REDIS_NOTIFY_GENERIC ''del'' key d
          (notifyKeyspaceEvent REDIS_NOTIFY_SET ''srem'' key d (signalModifiedKey d key s1)))" by simp
      then show ?thesis
        using False True pos good_dirty [where q = True and p = False and n = n'] by (simp add: s2_def Let_def)
    next
      case gone: False
      then have "set_elems so' \<noteq> {}" using p by simp
      from good_change [OF g refl p(1) this pos] show ?thesis using False gone by (simp add: s2_def s1_def)
    qed
  qed
  then show "good {} False s0 s'" by (simp add: s'')
  have db: "sv_db s2 = sv_db s1" by (simp add: s2_def add_dirty_def sv_signal Let_def)
  have "content s1 d' k' = (if d' = d \<and> k' = key then key_content E (db_expires (sv_db s d) key) else content s d' k')"
    by (simp add: s1_def key_content_def contents_def content_put content_delete p(2,3))
  then show "content s' d' k' = (if d' = d \<and> k' = key then key_content E (db_expires (sv_db s d) key) else content s d' k')"
    by (simp add: s'' content_def db)
  have "dirty s2 = dirty s + n'" by (simp add: s2_def s1_def add_dirty_def sv_signal Let_def)
  then show "dirty s' = dirty s + int (card (members s d key - E))" by (simp add: s'' card)
  have "out s2 c = out s c" "can_write s2 c = can_write s c" by (simp_all add: s2_def s1_def Let_def)
  then show "out s' c = out s c @ (if can_write s c then str '':'' @ dec_int (int (card (members s d key - E))) @ crlf else [])"
    unfolding s'' card [symmetric] by (simp only: out_long_long [OF lim])
qed

lemma out_czero: "out (addReply c shared_czero s) c = out s c @ (if can_write s c then str '':'' @ dec_int 0 @ crlf else [])"
  by (simp add: shared_czero_def dec_int_def dec_nat_small)

lemma wp_srem:
  assumes g: "good {} False s0 s" and n: "argc s c < 2 ^ 63"
    and wrong: "\<And>s1. good {} False s0 s1 \<Longrightarrow> lapse (client_db s c) (arg s c 1) s s1 \<Longrightarrow>
      wrong_type s (client_db s c) (arg s c 1) \<Longrightarrow> Q (addReply c shared_wrongtypeerr s1)"
    and Q: "\<And>s1 s' E. good {} False s0 s' \<Longrightarrow> lapse (client_db s c) (arg s c 1) s s1 \<Longrightarrow>
      \<not> wrong_type s1 (client_db s c) (arg s c 1) \<Longrightarrow>
      E = members s1 (client_db s c) (arg s c 1) - arg s c ` {2..<argc s c} \<Longrightarrow>
      (\<And>d k. content s' d k = (if d = client_db s c \<and> k = arg s c 1
         then key_content E (db_expires (sv_db s1 (client_db s c)) (arg s c 1)) else content s1 d k)) \<Longrightarrow>
      dirty s' = dirty s + int (card (members s1 (client_db s c) (arg s c 1) - E)) \<Longrightarrow>
      out s' c = out s c @ (if can_write s c
        then str '':'' @ dec_int (int (card (members s1 (client_db s c) (arg s c 1) - E))) @ crlf else []) \<Longrightarrow> Q s'"
  shows "wp (sremCommand c s) Q"
  unfolding sremCommand_def Let_def lookupKeyWriteOrReply_def wp_simps
proof (rule wp_lookupWrite [OF g], unfold prod.case)
  fix s1
  define d key where "d = client_db s c" and "key = arg s c 1"
  assume g1: "good {} False s0 s1" and l: "lapse (client_db s c) (arg s c 1) s s1"
  note same = lapseD [OF l]
  have o: "out s1 c = out s c" "can_write s1 c = can_write s c" using out_same [OF same(2)] by simp_all
  show "Q (case db_dict (sv_db s1 (client_db s c)) (arg s c 1) of
       None \<Rightarrow> if db_dict (sv_db s1 (client_db s c)) (arg s c 1) = None then addReply c shared_czero s1 else s1
     | Some (SetObj so) \<Rightarrow> srem_members c (client_db s c) (arg s c 1) so
         (if db_dict (sv_db s1 (client_db s c)) (arg s c 1) = None then addReply c shared_czero s1 else s1)
     | Some _ \<Rightarrow> addReply c shared_wrongtypeerr
         (if db_dict (sv_db s1 (client_db s c)) (arg s c 1) = None then addReply c shared_czero s1 else s1))"
  proof (cases "db_dict (sv_db s1 d) key")
    case None
    have nw: "\<not> wrong_type s1 d key" and m: "members s1 d key = {}" using None by (simp_all add: wrong_type_def members_def)
    have "Q (addReply c shared_czero s1)"
    proof (rule Q)
      show "good {} False s0 (addReply c shared_czero s1)" using g1 by simp
      show "lapse (client_db s c) (arg s c 1) s s1" by (rule l)
      show "\<not> wrong_type s1 (client_db s c) (arg s c 1)" using nw by (simp add: d_def key_def)
      show "content (addReply c shared_czero s1) d' k' = (if d' = client_db s c \<and> k' = arg s c 1
         then key_content (members s1 (client_db s c) (arg s c 1) - arg s c ` {2..<argc s c})
           (db_expires (sv_db s1 (client_db s c)) (arg s c 1)) else content s1 d' k')" for d' k'
        using content_members [OF good_ok [OF g1] nw] m by (auto simp: d_def key_def content_def)
    qed (use m same(3) o in \<open>simp_all add: d_def key_def, simp_all add: shared_czero_def dec_int_def dec_nat_small\<close>)
    then show ?thesis using None by (simp add: d_def key_def)
  next
    case (Some v)
    show ?thesis
    proof (cases "otype v = REDIS_SET")
      case True
      then obtain so where v: "v = SetObj so" by (cases v) simp_all
      have at: "set_at s1 d key = Some so" using Some v by (simp add: set_at_Some)
      have nw: "\<not> wrong_type s1 d key" using at by (simp add: wrong_type_def)
      have n1: "argc s1 c < 2 ^ 63" using n same(7) by simp
      note b = srem_members_ok [OF g1 at n1 refl refl]
      have "Q (srem_members c d key so s1)"
        using b [unfolded same(3) same(6) same(7) o d_def key_def] nw l
        unfolding d_def key_def by (intro Q) simp_all
      then show ?thesis using Some v by (simp add: d_def key_def)
    next
      case False
      have "Q (addReply c shared_wrongtypeerr s1)"
        using wrong [OF g1 l wrong_type_lapse [OF l wrong_typeI [OF Some [unfolded d_def key_def] False]]] .
      then show ?thesis using Some False by (cases v) (simp_all add: d_def key_def)
    qed
  qed
qed

section \<open>SISMEMBER and SCARD\<close>

lemma wp_sismember:
  assumes g: "good {} False s0 s"
    and wrong: "\<And>s1. good {} False s0 s1 \<Longrightarrow> lapse (client_db s c) (arg s c 1) s s1 \<Longrightarrow>
      wrong_type s (client_db s c) (arg s c 1) \<Longrightarrow> Q (addReply c shared_wrongtypeerr s1)"
    and Q: "\<And>s1 s'. good {} False s0 s' \<Longrightarrow> lapse (client_db s c) (arg s c 1) s s1 \<Longrightarrow> tidy s1 s' \<Longrightarrow>
      \<not> wrong_type s1 (client_db s c) (arg s c 1) \<Longrightarrow>
      out s' c = out s c @ (if can_write s c
        then (if arg s c 2 \<in> members s1 (client_db s c) (arg s c 1) then str '':1'' @ crlf else str '':0'' @ crlf) else []) \<Longrightarrow> Q s'"
  shows "wp (sismemberCommand c s) Q"
  unfolding sismemberCommand_def Let_def lookupKeyReadOrReply_def wp_simps
proof (rule wp_lookupRead [OF g], unfold prod.case)
  fix s1
  define d key where "d = client_db s c" and "key = arg s c 1"
  let ?s1 = "if db_dict (sv_db s1 (client_db s c)) (arg s c 1) = None then addReply c shared_czero s1 else s1"
  assume g1: "good {} False s0 s1" and l: "lapse (client_db s c) (arg s c 1) s s1"
  note same = lapseD [OF l]
  note ok1 = good_ok [OF g1]
  have o: "out s1 c = out s c" "can_write s1 c = can_write s c" using out_same [OF same(2)] by simp_all
  show "Q (case db_dict (sv_db s1 (client_db s c)) (arg s c 1) of
       None \<Rightarrow> ?s1
     | Some (SetObj so) \<Rightarrow> (case setTypeIsMember (encode_arg c 2 ?s1) so (argv (encode_arg c 2 ?s1) c 2) of
         (so, yes) \<Rightarrow> addReply c (if yes then shared_cone else shared_czero)
           (db_put (client_db s c) (arg s c 1) (SetObj so) (encode_arg c 2 ?s1)))
     | Some _ \<Rightarrow> addReply c shared_wrongtypeerr ?s1)"
  proof (cases "db_dict (sv_db s1 d) key")
    case None
    have nw: "\<not> wrong_type s1 d key" and m: "members s1 d key = {}" using None by (simp_all add: wrong_type_def members_def)
    have "Q (addReply c shared_czero s1)"
    proof (rule Q [OF _ l])
      show "tidy s1 (addReply c shared_czero s1)" by (rule tidy_view [OF tidy_refl [OF ok1]]) simp
    qed (use g1 m nw o in \<open>simp_all add: d_def key_def shared_czero_def\<close>)
    then show ?thesis using None by (simp add: d_def key_def)
  next
    case (Some v)
    show ?thesis
    proof (cases "otype v = REDIS_SET")
      case True
      then obtain so where v: "v = SetObj so" by (cases v) simp_all
      define s2 where "s2 = encode_arg c 2 s1"
      have v2: "view s2 = view s1" by (simp add: s2_def)
      have t2: "tidy s1 s2" by (rule tidy_view [OF tidy_refl [OF ok1] v2])
      have at: "set_at s2 d key = Some so" using Some v v2 by (simp add: set_at_Some view_def)
      have nw: "\<not> wrong_type s1 d key" using Some v by (simp add: wrong_type_def set_at_def)
      note inv = set_at_ok [OF tidy_ok [OF t2] at]
      obtain so' yes where m: "setTypeIsMember s2 so (argv s2 c 2) = (so', yes)" by fastforce
      note p = setTypeIsMember_ok [OF inv(1) m]
      have a: "getDecodedObject (argv s2 c 2) = arg s c 2"
        using arg_encode(1) [of c 2 s1 2] same(6) unfolding s2_def arg_def by simp
      have t3: "tidy s1 (db_put d key (SetObj so') s2)" using tidy_trans [OF t2 tidy_put [OF tidy_ok [OF t2] at]] p by blast
      have mem: "members s2 d key = members s1 d key" by (rule tidy_sets(1) [OF t2])
      have "Q (addReply c (if yes then shared_cone else shared_czero) (db_put d key (SetObj so') s2))"
      proof (rule Q [OF _ l])
        show "good {} False s0 (addReply c (if yes then shared_cone else shared_czero) (db_put d key (SetObj so') s2))"
          using good_tidy [OF g1 t3] by simp
        show "tidy s1 (addReply c (if yes then shared_cone else shared_czero) (db_put d key (SetObj so') s2))"
          by (rule tidy_view [OF t3]) simp
        show "out (addReply c (if yes then shared_cone else shared_czero) (db_put d key (SetObj so') s2)) c = out s c @
           (if can_write s c then (if arg s c 2 \<in> members s1 (client_db s c) (arg s c 1) then str '':1'' @ crlf else str '':0'' @ crlf) else [])"
          using p a mem inv(2) o by (simp add: shared_cone_def shared_czero_def d_def key_def s2_def)
      qed (use nw in \<open>simp add: d_def key_def\<close>)
      then show ?thesis using Some v m by (simp add: d_def [symmetric] key_def [symmetric] s2_def)
    next
      case False
      have "Q (addReply c shared_wrongtypeerr s1)"
        using wrong [OF g1 l wrong_type_lapse [OF l wrong_typeI [OF Some [unfolded d_def key_def] False]]] .
      then show ?thesis using Some False by (cases v) (simp_all add: d_def key_def)
    qed
  qed
qed

lemma wp_scard:
  assumes g: "good {} False s0 s"
    and wrong: "\<And>s1. good {} False s0 s1 \<Longrightarrow> lapse (client_db s c) (arg s c 1) s s1 \<Longrightarrow>
      wrong_type s (client_db s c) (arg s c 1) \<Longrightarrow> Q (addReply c shared_wrongtypeerr s1)"
    and Q: "\<And>s1. good {} False s0 s1 \<Longrightarrow> lapse (client_db s c) (arg s c 1) s s1 \<Longrightarrow>
      \<not> wrong_type s1 (client_db s c) (arg s c 1) \<Longrightarrow>
      Q (addReplyLongLong c (int (card (members s1 (client_db s c) (arg s c 1)))) s1)"
  shows "wp (scardCommand c s) Q"
  unfolding scardCommand_def Let_def lookupKeyReadOrReply_def wp_simps
proof (rule wp_lookupRead [OF g], unfold prod.case)
  fix s1
  define d key where "d = client_db s c" and "key = arg s c 1"
  let ?s1 = "if db_dict (sv_db s1 (client_db s c)) (arg s c 1) = None then addReply c shared_czero s1 else s1"
  assume g1: "good {} False s0 s1" and l: "lapse (client_db s c) (arg s c 1) s s1"
  show "Q (case db_dict (sv_db s1 (client_db s c)) (arg s c 1) of
       None \<Rightarrow> ?s1
     | Some (SetObj so) \<Rightarrow> addReplyLongLong c (int (setTypeSize so)) ?s1
     | Some _ \<Rightarrow> addReply c shared_wrongtypeerr ?s1)"
  proof (cases "db_dict (sv_db s1 d) key")
    case None
    have "\<not> wrong_type s1 d key" and "members s1 d key = {}" using None by (simp_all add: wrong_type_def members_def)
    then have "Q (addReplyLongLong c (int (card {})) s1)" using Q [OF g1 l] by (simp add: d_def key_def)
    then show ?thesis using None by (simp add: d_def key_def addReplyLongLong_def)
  next
    case (Some v)
    show ?thesis
    proof (cases "otype v = REDIS_SET")
      case True
      then obtain so where v: "v = SetObj so" by (cases v) simp_all
      have at: "set_at s1 d key = Some so" using Some v by (simp add: set_at_Some)
      then have nw: "\<not> wrong_type s1 d key" by (simp add: wrong_type_def)
      note inv = set_at_ok [OF good_ok [OF g1] at]
      have "Q (addReplyLongLong c (int (setTypeSize so)) s1)"
        using Q [OF g1 l] nw inv(2) setTypeSize_card [OF inv(1)] by (simp add: d_def key_def)
      then show ?thesis using Some v by (simp add: d_def key_def)
    next
      case False
      have "Q (addReply c shared_wrongtypeerr s1)"
        using wrong [OF g1 l wrong_type_lapse [OF l wrong_typeI [OF Some [unfolded d_def key_def] False]]] .
      then show ?thesis using Some False by (cases v) (simp_all add: d_def key_def)
    qed
  qed
qed

section \<open>SMOVE\<close>

lemma smove_removed_ok:
  assumes g: "good {} False s0 s" and at: "set_at s d src = Some so" and ne: "src \<noteq> dst"
    and so': "set_inv s so'" "set_elems so' = set_elems so - {x}" "x \<in> set_elems so" and x: "getDecodedObject ele = x"
    and dso: "(case dstset of None \<Rightarrow> db_dict (sv_db s d) dst = None | Some dso \<Rightarrow> set_at s d dst = Some dso)"
    and Q: "\<And>s'. good {} False s0 s' \<Longrightarrow>
      (\<And>d' k'. content s' d' k' =
        (if d' = d \<and> k' = src then key_content (members s d src - {x}) (db_expires (sv_db s d) src)
         else if d' = d \<and> k' = dst then (Some (Inr (insert x (members s d dst))), db_expires (sv_db s d) dst)
         else content s d' k')) \<Longrightarrow>
      out s' c = out s c @ (if can_write s c then str '':1'' @ crlf else []) \<Longrightarrow> Q s'"
  shows "wp (smove_removed c d src dst ele so' dstset (db_put d src (SetObj so') s)) Q"
proof -
  note inv = set_at_ok [OF good_ok [OF g] at]
  define s1 where "s1 = (if setTypeSize so' = 0 then snd (dbDelete d src s) else db_put d src (SetObj so') s)"
  define s2 where "s2 = (let t = notifyKeyspaceEvent REDIS_NOTIFY_SET ''srem'' src d (db_put d src (SetObj so') s)
    in if setTypeSize so' = 0 then notifyKeyspaceEvent REDIS_NOTIFY_GENERIC ''del'' src d (snd (dbDelete d src t)) else t)"
  have z: "setTypeSize so' = 0 \<longleftrightarrow> set_elems so' = {}" by (rule sets.count_zero [OF so'(1)])
  have del: "view (snd (dbDelete d k (notifyKeyspaceEvent ty e k' d' t))) = view (snd (dbDelete d k t))" for ty e k k' d' t
    by (simp add: view_def) (simp add: dbDelete_upd upd_db_def)
  have v2: "view s2 = view s1" by (simp add: s2_def s1_def Let_def del delete_put)
  let ?X = "{(d, src), (d, dst)}"
  have "good ?X True s0 s1"
  proof (cases "set_elems so' = {}")
    case True
    then show ?thesis
      using good_delete [OF good_False [OF g, of ?X True], of d src] by (simp add: s1_def z)
  next
    case False
    then show ?thesis
      using good_put [OF good_False [OF g, of ?X True], of "SetObj so'" d src] so'(1) by (simp add: s1_def z set_inv_def)
  qed
  then have g2: "good ?X True s0 s2" using good_view [OF v2] by blast
  define s3 where "s3 = signalModifiedKey d dst (signalModifiedKey d src s2)"
  have g2a: "good {(d, dst)} True s0 (signalModifiedKey d src s2)"
    using good_signal [of d src "{(d, dst)}" True s0 s2] g2 by simp
  then have g3: "good {} True s0 s3" unfolding s3_def by (rule good_signal)
  have t3: "touched s3 d dst" unfolding s3_def by (rule touched_signal [OF good_ok [OF g2a]])
  define s4 where "s4 = add_dirty 1 s3"
  have g4: "good {} False s0 s4" unfolding s4_def by (rule good_dirty [OF g3]) simp_all
  have log4: "logged s0 s4" unfolding s4_def by (rule logged_dirty [OF g3]) simp
  have t4: "touched s4 d dst" using t3 by (simp add: s4_def touched_def add_dirty_def)
  have db4: "sv_db s4 = sv_db s1" using v2 by (simp add: s4_def s3_def sv_signal add_dirty_def view_def)
  have content4: "content s4 d' k' =
      (if d' = d \<and> k' = src then key_content (members s d src - {x}) (db_expires (sv_db s d) src) else content s d' k')" for d' k'
    unfolding content_view [OF db4]
    by (simp add: s1_def z content_delete content_put contents_def key_content_def so'(2) inv(2))
  have f4: "fixed s4 = fixed s" using good_fixed [OF g4] good_fixed [OF g] by simp
  have o4: "out s4 c = out s c" "can_write s4 c = can_write s c"
    by (simp_all add: s4_def s3_def s2_def Let_def)
  have dict1: "db_dict (sv_db s4 d) dst = db_dict (sv_db s d) dst" "db_expires (sv_db s4 d) dst = db_expires (sv_db s d) dst"
    using ne by (simp_all add: db4 s1_def sv_put dbDelete_upd upd_db_def)
  define dso0 where "dso0 = (case dstset of None \<Rightarrow> setTypeCreate ele | Some dso \<Rightarrow> dso)"
  have dso0: "set_inv s4 dso0" "set_elems dso0 = members s d dst"
    using dso set_inv_create [OF ok_limit [OF good_ok [OF g4]], of ele] set_at_ok(1,2) [OF good_ok [OF g], of d dst]
      set_inv_fixed [OF f4]
    by (auto simp: dso0_def members_def split: option.splits)
  define s5 where "s5 = (case dstset of None \<Rightarrow> db_put d dst (SetObj dso0) s4 | Some _ \<Rightarrow> s4)"
  have step: "(case dstset of
       Some dso \<Rightarrow> Some (dso, s4)
     | None \<Rightarrow> (let dso = setTypeCreate ele in do { s \<leftarrow> dbAdd d dst (SetObj dso) s4; Some (dso, s) })) = Some (dso0, s5)"
    using dso dict1 by (simp add: dso0_def s5_def dbAdd_def Let_def split: option.splits)
  have inv5: "set_inv s5 dso0" using dso0(1) set_inv_fixed [of s5 s4] by (simp add: s5_def split: option.splits)
  have put5: "db_put d dst v s5 = db_put d dst v s4" for v by (simp add: s5_def put_twice split: option.split)
  have "wp (setTypeAdd s5 dso0 ele) (\<lambda>(dso, ok). Q (addReply c shared_cone
      (if ok then notifyKeyspaceEvent REDIS_NOTIFY_SET ''sadd'' dst d (add_dirty 1 (db_put d dst (SetObj dso) s5))
       else db_put d dst (SetObj dso) s5)))"
  proof (rule wp_mono [OF setTypeAdd_ok [OF inv5]], unfold split_paired_all prod.case, elim conjE)
    fix dso' ok
    assume a: "set_inv s5 dso'" "set_elems dso' = insert (getDecodedObject ele) (set_elems dso0)"
    have "set_inv s4 dso'" using a(1) set_inv_fixed [of s5 s4] by (simp add: s5_def split: option.splits)
    then have g6: "good {} False s0 (db_put d dst (SetObj dso') s4)"
      using a(2) t4 log4 by (intro good_put [OF g4]) (simp_all add: set_inv_def)
    define s6 where "s6 = (if ok then notifyKeyspaceEvent REDIS_NOTIFY_SET ''sadd'' dst d (add_dirty 1 (db_put d dst (SetObj dso') s4))
       else db_put d dst (SetObj dso') s4)"
    have "good {} False s0 (add_dirty 1 (db_put d dst (SetObj dso') s4))" by (rule good_dirty [OF g6]) simp_all
    then have "good {} False s0 s6" using g6 by (simp add: s6_def)
    moreover have "sv_db s6 = sv_db (db_put d dst (SetObj dso') s4)" by (simp add: s6_def add_dirty_def)
    then have "content s6 d' k' = content (db_put d dst (SetObj dso') s4) d' k'" for d' k' by (rule content_view)
    then have "content s6 d' k' =
        (if d' = d \<and> k' = src then key_content (members s d src - {x}) (db_expires (sv_db s d) src)
         else if d' = d \<and> k' = dst then (Some (Inr (insert x (members s d dst))), db_expires (sv_db s d) dst)
         else content s d' k')" for d' k'
      using ne by (simp add: content_put contents_def a(2) x dso0(2) dict1(2) content4)
    moreover have "out s6 c = out s c" "can_write s6 c = can_write s c" by (simp_all add: s6_def o4)
    ultimately have "Q (addReply c shared_cone s6)"
      by (intro Q) (simp_all add: content_def shared_cone_def)
    then show "Q (addReply c shared_cone (if ok then notifyKeyspaceEvent REDIS_NOTIFY_SET ''sadd'' dst d
       (add_dirty 1 (db_put d dst (SetObj dso') s5)) else db_put d dst (SetObj dso') s5))"
      unfolding s6_def put5 .
  qed
  moreover have "smove_removed c d src dst ele so' dstset (db_put d src (SetObj so') s) =
      (setTypeAdd s5 dso0 ele \<bind> (\<lambda>(dso, ok). Some (addReply c shared_cone
        (if ok then notifyKeyspaceEvent REDIS_NOTIFY_SET ''sadd'' dst d (add_dirty 1 (db_put d dst (SetObj dso) s5))
         else db_put d dst (SetObj dso) s5))))"
    using step unfolding smove_removed_def s4_def s3_def s2_def Let_def by (simp only: Option.bind.simps prod.case)
  ultimately show ?thesis by (simp add: case_prod_unfold)
qed

definition smove_content :: "server \<Rightarrow> nat \<Rightarrow> bytes \<Rightarrow> bytes \<Rightarrow> bytes \<Rightarrow> bool \<Rightarrow> nat \<Rightarrow> bytes \<Rightarrow> (robj + bytes set) option \<times> int option" where
  "smove_content s d src dst x moved d' k =
     (if moved \<and> d' = d \<and> k = src then key_content (members s d src - {x}) (db_expires (sv_db s d) src)
      else if moved \<and> d' = d \<and> k = dst then (Some (Inr (insert x (members s d dst))), db_expires (sv_db s d) dst)
      else content s d' k)"

lemma smove_take:
  assumes g: "good {} False s0 s" and at: "set_at s d src = Some so" and ne: "src \<noteq> dst" and x: "getDecodedObject ele = x"
    and dso: "(case dstset of None \<Rightarrow> db_dict (sv_db s d) dst = None | Some dso \<Rightarrow> set_at s d dst = Some dso)"
    and Q: "\<And>s' moved. good {} False s0 s' \<Longrightarrow> moved \<longleftrightarrow> x \<in> members s d src \<Longrightarrow>
      (\<And>d' k. content s' d' k = smove_content s d src dst x moved d' k) \<Longrightarrow>
      out s' c = out s c @ (if can_write s c then (if moved then str '':1'' @ crlf else str '':0'' @ crlf) else []) \<Longrightarrow> Q s'"
  shows "wp (case setTypeRemove s so ele of
       (so, False) \<Rightarrow> Some (addReply c shared_czero (db_put d src (SetObj so) s))
     | (so, True) \<Rightarrow> smove_removed c d src dst ele so dstset (db_put d src (SetObj so) s)) Q"
proof -
  obtain so' ok where r: "setTypeRemove s so ele = (so', ok)" by fastforce
  note inv = set_at_ok [OF good_ok [OF g] at]
  note p = setTypeRemove_ok [OF inv(1) r]
  show ?thesis
  proof (cases ok)
    case True
    have "wp (smove_removed c d src dst ele so' dstset (db_put d src (SetObj so') s)) Q"
    proof (rule smove_removed_ok [OF g at ne _ _ _ x dso])
      fix s'
      assume a: "good {} False s0 s'" "\<And>d' k'. content s' d' k' =
        (if d' = d \<and> k' = src then key_content (members s d src - {x}) (db_expires (sv_db s d) src)
         else if d' = d \<and> k' = dst then (Some (Inr (insert x (members s d dst))), db_expires (sv_db s d) dst)
         else content s d' k')" "out s' c = out s c @ (if can_write s c then str '':1'' @ crlf else [])"
      show "Q s'"
        by (rule Q [of s' True]) (use a p x True inv(2) in \<open>simp_all add: smove_content_def\<close>)
    qed (use p x True in simp_all)
    then show ?thesis by (simp add: r True)
  next
    case False
    have t: "tidy s (db_put d src (SetObj so') s)" by (rule tidy_put [OF good_ok [OF g] at]) (use p x False in auto)
    have "Q (addReply c shared_czero (db_put d src (SetObj so') s))"
    proof (rule Q [of _ False])
      show "good {} False s0 (addReply c shared_czero (db_put d src (SetObj so') s))" using good_tidy [OF g t] by simp
      show "content (addReply c shared_czero (db_put d src (SetObj so') s)) d' k = smove_content s d src dst x False d' k" for d' k
        using t by (simp add: smove_content_def tidy_def content_def)
    qed (use p x False inv(2) in \<open>simp_all add: shared_czero_def\<close>)
    then show ?thesis by (simp add: r False)
  qed
qed

text \<open>
  The two keys are looked up one after the other: with the same key for both, it must not expire in
  between.
\<close>

lemma wp_smove:
  assumes g: "good {} False s0 s"
    and ne: "arg s c 1 \<noteq> arg s c 2 \<or> db_expires (sv_db s (client_db s c)) (arg s c 1) = None"
    and wrong: "\<And>s1 t. good {} False s0 t \<Longrightarrow> lapses (client_db s c) {arg s c 1, arg s c 2} s s1 \<Longrightarrow>
      view t = view s1 \<Longrightarrow> out t c = out s c \<Longrightarrow> can_write t c = can_write s c \<Longrightarrow>
      wrong_type s (client_db s c) (arg s c 1) \<or> wrong_type s (client_db s c) (arg s c 2) \<Longrightarrow>
      Q (addReply c shared_wrongtypeerr t)"
    and Q: "\<And>s1 s' moved. good {} False s0 s' \<Longrightarrow> lapses (client_db s c) {arg s c 1, arg s c 2} s s1 \<Longrightarrow>
      moved \<longleftrightarrow> arg s c 3 \<in> members s1 (client_db s c) (arg s c 1) \<and> arg s c 1 \<noteq> arg s c 2 \<Longrightarrow>
      (\<And>d k. content s' d k = smove_content s1 (client_db s c) (arg s c 1) (arg s c 2) (arg s c 3) moved d k) \<Longrightarrow>
      out s' c = out s c @ (if can_write s c
        then (if moved \<or> set_at s1 (client_db s c) (arg s c 1) \<noteq> None \<and> arg s c 1 = arg s c 2
              then str '':1'' @ crlf else str '':0'' @ crlf) else []) \<Longrightarrow> Q s'"
  shows "wp (smoveCommand c s) Q"
proof -
  define d src dst x where "d = client_db s c" and "src = arg s c 1" and "dst = arg s c 2" and "x = arg s c 3"
  note defs = d_def [symmetric] src_def [symmetric] dst_def [symmetric] x_def [symmetric]
  note wrong = wrong [unfolded defs] and Q = Q [unfolded defs] and ne = ne [unfolded defs]
  show ?thesis
  unfolding smoveCommand_def Let_def wp_bind defs
  proof (rule wp_lookupWrite [OF g], unfold prod.case wp_bind, rule wp_lookupWrite, assumption, unfold prod.case)
    fix s1 s2
    assume l1: "lapse d src s s1" and g2: "good {} False s0 s2" and l2: "lapse d dst s1 s2"
    define t where "t = encode_arg c 3 s2"
    have vt: "view t = view s2" by (simp add: t_def)
    have gt: "good {} False s0 t" using good_view [OF vt] g2 by blast
    have dbt: "sv_db t = sv_db s2" using vt by (simp add: view_def)
    have l: "lapses d {src, dst} s s2" by (rule lapses_trans [OF lapses_one [OF l1, of "{}"] lapses_one [OF l2, of "{}"]]) simp_all
    have argst: "arg t c 1 = src" "arg t c 2 = dst" "arg t c 3 = x"
      using lapseD [OF l1] lapseD [OF l2] vt by (simp_all add: t_def src_def dst_def x_def)
    have o: "out t c = out s c" "can_write t c = can_write s c"
      using out_same [OF lapseD(2) [OF l1]] out_same [OF lapseD(2) [OF l2]] by (simp_all add: t_def)
    have ele: "getDecodedObject (argv t c 3) = x" using argst by (simp add: arg_def)
    have sm: "smove_content t d src dst x m d' k = smove_content s2 d src dst x m d' k" for m d' k
      by (simp add: smove_content_def members_def content_def dbt)
    have take: "wp (case setTypeRemove t so (argv t c 3) of
         (so, False) \<Rightarrow> Some (addReply c shared_czero (db_put d src (SetObj so) t))
       | (so, True) \<Rightarrow> smove_removed c d src dst (argv t c 3) so dstset (db_put d src (SetObj so) t)) Q"
      if "set_at t d src = Some so" "src \<noteq> dst"
        "case dstset of None \<Rightarrow> db_dict (sv_db t d) dst = None | Some dso \<Rightarrow> set_at t d dst = Some dso" for so dstset
    proof (rule smove_take [OF gt that(1,2) ele that(3)])
      fix s' moved
      assume "good {} False s0 s'" "moved \<longleftrightarrow> x \<in> members t d src"
        "\<And>d' k'. content s' d' k' = smove_content t d src dst x moved d' k'"
        "out s' c = out t c @ (if can_write t c then (if moved then str '':1'' @ crlf else str '':0'' @ crlf) else [])"
      then show "Q s'" using that(2) l by (intro Q [of s' s2 moved]) (simp_all add: sm o members_def dbt)
    qed
    have stay: "Q (addReply c (if one then shared_cone else shared_czero) t)"
      if "members s2 d src = {} \<or> src = dst" "one \<longleftrightarrow> set_at s2 d src \<noteq> None \<and> src = dst" for one
    proof (rule Q [of _ s2 False])
      show "content (addReply c (if one then shared_cone else shared_czero) t) d' k = smove_content s2 d src dst x False d' k" for d' k
        by (simp add: smove_content_def content_def dbt)
    qed (use gt l that o in \<open>auto simp: shared_cone_def shared_czero_def\<close>)
    have bad: "wp (Some (addReply c shared_wrongtypeerr t)) Q" if "wrong_type s d src \<or> wrong_type s d dst"
      using wrong [OF gt l vt o that] by simp
    show "wp (if db_dict (sv_db s1 d) src = None then Some (addReply c shared_czero t)
       else db_dict (sv_db t d) src \<bind> (\<lambda>srcv. case srcv of
         SetObj so \<Rightarrow> (case db_dict (sv_db s2 d) dst of
            None \<Rightarrow> (case setTypeRemove t so (argv t c 3) of
                 (so, False) \<Rightarrow> Some (addReply c shared_czero (db_put d src (SetObj so) t))
               | (so, True) \<Rightarrow> smove_removed c d src dst (argv t c 3) so None (db_put d src (SetObj so) t))
          | Some (SetObj dso) \<Rightarrow>
              if src = dst then Some (addReply c shared_cone t)
              else (case setTypeRemove t so (argv t c 3) of
                 (so, False) \<Rightarrow> Some (addReply c shared_czero (db_put d src (SetObj so) t))
               | (so, True) \<Rightarrow> smove_removed c d src dst (argv t c 3) so (Some dso) (db_put d src (SetObj so) t))
          | Some _ \<Rightarrow> Some (addReply c shared_wrongtypeerr t))
       | _ \<Rightarrow> Some (addReply c shared_wrongtypeerr t))) Q"
    proof (cases "db_dict (sv_db s1 d) src")
      case None
      then have "db_dict (sv_db s2 d) src = None" using lapses_gone [OF lapses_one [OF l2, of "{}"]] by blast
      then show ?thesis using None stay [of False] by (simp add: members_def set_at_def)
    next
      case (Some v)
      have "src \<notin> {dst} \<or> db_expires (sv_db s1 d) src = None"
        using ne lapse_found [OF l1, of src] Some by (auto simp: entry_def)
      then have "entry s2 d src = entry s1 d src" by (rule lapses_entry [OF lapses_one [OF l2, of "{}"]])
      then have v2: "db_dict (sv_db s2 d) src = Some v" using Some by (simp add: entry_def)
      show ?thesis
      proof (cases "otype v = REDIS_SET")
        case True
        then obtain so where v: "v = SetObj so" by (cases v) simp_all
        have at: "set_at t d src = Some so" using v2 v by (simp add: set_at_Some dbt)
        show ?thesis
        proof (cases "db_dict (sv_db s2 d) dst")
          case None
          then have "src \<noteq> dst" using v2 by auto
          then show ?thesis using take [OF at, of None] Some v2 v None by (simp add: dbt)
        next
          case (Some dv)
          show ?thesis
          proof (cases "otype dv = REDIS_SET")
            case True
            then obtain dso where dv: "dv = SetObj dso" by (cases dv) simp_all
            show ?thesis
            proof (cases "src = dst")
              case True
              have "set_at s2 d src \<noteq> None" using at by (simp add: set_at_def dbt)
              then show ?thesis using stay [of True] True \<open>db_dict (sv_db s1 d) src = Some v\<close> v2 v dv Some by (simp add: dbt)
            next
              case False
              have "set_at t d dst = Some dso" using Some dv by (simp add: set_at_Some dbt)
              then show ?thesis using take [OF at False, of "Some dso"] False \<open>db_dict (sv_db s1 d) src = Some v\<close> v2 v dv Some
                by (simp add: dbt)
            qed
          next
            case False
            have "wrong_type s d dst"
              by (rule wrong_type_lapse [OF l1 wrong_type_lapse [OF l2 wrong_typeI [OF Some False]]])
            then have "wp (Some (addReply c shared_wrongtypeerr t)) Q" using bad by blast
            then show ?thesis using False \<open>db_dict (sv_db s1 d) src = Some v\<close> v2 v Some by (cases dv) (simp_all add: dbt)
          qed
        qed
      next
        case False
        have "wrong_type s d src" by (rule wrong_type_lapse [OF l1 wrong_typeI [OF Some False]])
        then have "wp (Some (addReply c shared_wrongtypeerr t)) Q" using bad by blast
        then show ?thesis using False Some v2 by (cases v) (simp_all add: dbt)
      qed
    qed
  qed
qed

end
