(* ===== verification/Process.thy ===== *)
theory Process
  imports Multi Set_Commands
begin

text \<open>
  From a request to its execution (\<^verbatim>\<open>redis.c\<close>): the small commands of the server itself,
  the table of command functions, and \<^verbatim>\<open>processCommand\<close> with its checks.  A command outside
  the model, like one whose execution fails an assertion, gives \<open>None\<close>; so does
  \<^verbatim>\<open>processCommand\<close> when a memory limit is configured (\<^verbatim>\<open>freeMemoryIfNeeded\<close> is not
  modelled).  Clients blocked on lists are not modelled.
\<close>

section \<open>AUTH, PING, ECHO, TIME\<close>

definition REDIS_AUTHPASS_MAX_LEN :: nat where "REDIS_AUTHPASS_MAX_LEN = 512"

text \<open>The bytes are of type \<^verbatim>\<open>char\<close>, extended with their sign to \<^verbatim>\<open>int\<close>.\<close>

definition time_independent_strcmp :: "bytes \<Rightarrow> bytes \<Rightarrow> u32" where
  "time_independent_strcmp a b =
     (let alen = (of_nat (length a) :: u32);
          blen = (of_nat (length b) :: u32)
      in if of_nat REDIS_AUTHPASS_MAX_LEN < alen \<or> of_nat REDIS_AUTHPASS_MAX_LEN < blen then 1
         else
           let bufa = replicate REDIS_AUTHPASS_MAX_LEN 0;
               bufb = replicate REDIS_AUTHPASS_MAX_LEN 0;
               bufa = write_at 0 (take (unat alen) a) bufa;
               bufb = write_at 0 (take (unat blen) b) bufb;
               diff = fold (\<lambda>j diff. diff OR (scast (bufa ! j) XOR scast (bufb ! j))) [0..<REDIS_AUTHPASS_MAX_LEN] 0
           in diff OR (alen XOR blen))"

definition authCommand :: "nat \<Rightarrow> server \<Rightarrow> server option" where
  "authCommand c s =
     (case requirepass s of
        None \<Rightarrow> Some (addReplyError c ''Client sent AUTH, but no password is set'' s)
      | Some password \<Rightarrow>
          if time_independent_strcmp (c_str (arg s c 1)) password = 0
          then Some (addReply c shared_ok (upd_client c (c_authenticated_update (\<lambda>_. True)) s))
          else Some (addReplyError c ''invalid password'' (upd_client c (c_authenticated_update (\<lambda>_. False)) s)))"

definition wrong_arguments :: "nat \<Rightarrow> server \<Rightarrow> bytes" where
  "wrong_arguments c s =
     str ''wrong number of arguments for '' @ [39] @ str (cmd_name (c_cmd (sv_client s c))) @ [39] @ str '' command''"

definition pingCommand :: "nat \<Rightarrow> server \<Rightarrow> server option" where
  "pingCommand c s =
     (if 2 < argc s c then Some (addReplyErrorFormat c (wrong_arguments c s) s)
      else if REDIS_PUBSUB \<in> c_flags (sv_client s c) then
        let s = addReply c (shared_mbulkhdr 2) s;
            s = addReplyBulkCBuffer c (str ''pong'') s
        in Some (if argc s c = 1 then addReplyBulkCBuffer c [] s else addReplyBulk c (argv s c 1) s)
      else Some (if argc s c = 1 then addReply c shared_pong s else addReplyBulk c (argv s c 1) s))"

definition echoCommand :: "nat \<Rightarrow> server \<Rightarrow> server option" where
  "echoCommand c s = Some (addReplyBulk c (argv s c 1) s)"

definition timeCommand :: "nat \<Rightarrow> server \<Rightarrow> server option" where
  "timeCommand c s =
     (let (now, s) = ustime s;
          s = addReplyMultiBulkLen c 2 s;
          s = addReplyBulkLongLong c (now div 1000000) s
      in Some (addReplyBulkLongLong c (now mod 1000000) s))"

section \<open>Command functions\<close>

text \<open>The commands on data, by the name of their function.\<close>

definition data_procs :: "(string \<times> (nat \<Rightarrow> server \<Rightarrow> server option)) list" where
  "data_procs =
    [(''getCommand'', getCommand), (''setCommand'', setCommand), (''setnxCommand'', setnxCommand),
     (''setexCommand'', setexCommand), (''psetexCommand'', psetexCommand), (''appendCommand'', appendCommand),
     (''strlenCommand'', strlenCommand), (''delCommand'', delCommand), (''existsCommand'', existsCommand),
     (''getrangeCommand'', getrangeCommand), (''incrCommand'', incrCommand), (''decrCommand'', decrCommand),
     (''mgetCommand'', mgetCommand), (''incrbyCommand'', incrbyCommand), (''decrbyCommand'', decrbyCommand),
     (''getsetCommand'', getsetCommand), (''msetCommand'', msetCommand), (''msetnxCommand'', msetnxCommand),
     (''selectCommand'', selectCommand), (''renameCommand'', renameCommand), (''renamenxCommand'', renamenxCommand),
     (''expireCommand'', expireCommand), (''expireatCommand'', expireatCommand),
     (''pexpireCommand'', pexpireCommand), (''pexpireatCommand'', pexpireatCommand),
     (''dbsizeCommand'', dbsizeCommand), (''authCommand'', authCommand), (''pingCommand'', pingCommand),
     (''echoCommand'', echoCommand), (''typeCommand'', typeCommand), (''flushdbCommand'', flushdbCommand),
     (''ttlCommand'', ttlCommand), (''pttlCommand'', pttlCommand),
     (''persistCommand'', persistCommand), (''timeCommand'', timeCommand)]"

text \<open>The commands on sets; SMEMBERS is SINTER of one key.\<close>

definition set_procs :: "(string \<times> (nat \<Rightarrow> server \<Rightarrow> server option)) list" where
  "set_procs =
    [(''saddCommand'', saddCommand), (''sremCommand'', sremCommand), (''smoveCommand'', smoveCommand),
     (''sismemberCommand'', sismemberCommand), (''scardCommand'', scardCommand),
     (''sinterCommand'', sinterCommand), (''sinterstoreCommand'', sinterstoreCommand),
     (''sunionCommand'', sunionCommand), (''sunionstoreCommand'', sunionstoreCommand),
     (''sdiffCommand'', sdiffCommand), (''sdiffstoreCommand'', sdiffstoreCommand)]"

text \<open>Every modelled command but EXEC.\<close>

definition queued_procs :: "(string \<times> (nat \<Rightarrow> server \<Rightarrow> server option)) list" where
  "queued_procs = data_procs @ set_procs @
    [(''flushallCommand'', flushallCommand), (''setrangeCommand'', setrangeCommand), (''moveCommand'', moveCommand), (''multiCommand'', multiCommand),
     (''discardCommand'', discardCommand), (''watchCommand'', watchCommand), (''unwatchCommand'', unwatchCommand)]"

definition run_queued :: "string \<Rightarrow> nat \<Rightarrow> server \<Rightarrow> server option" where
  "run_queued name c s = (case map_of queued_procs name of None \<Rightarrow> None | Some proc \<Rightarrow> proc c s)"

definition run_command :: "string \<Rightarrow> nat \<Rightarrow> server \<Rightarrow> server option" where
  "run_command name c s =
     (if name = ''execCommand'' then execCommand run_queued c s else run_queued name c s)"

definition call :: "nat \<Rightarrow> server \<Rightarrow> server option" where
  "call c = call_with run_command c"

section \<open>Processing a request\<close>

text \<open>Execution, or queueing inside a transaction.\<close>

definition process_exec :: "nat \<Rightarrow> server \<Rightarrow> server option" where
  "process_exec c s =
     (let cmd = c_cmd (sv_client s c)
      in if REDIS_MULTI \<in> c_flags (sv_client s c) \<and> cmd_proc cmd \<noteq> ''execCommand'' \<and>
            cmd_proc cmd \<noteq> ''discardCommand'' \<and> cmd_proc cmd \<noteq> ''multiCommand'' \<and> cmd_proc cmd \<noteq> ''watchCommand''
         then Some (addReply c shared_queued (queueMultiCommand c s))
         else call c s)"

text \<open>The checks between the lookup of the command and its execution.\<close>

definition process_checks :: "nat \<Rightarrow> server \<Rightarrow> server option" where
  "process_checks c s =
     (let cl = sv_client s c; cmd = c_cmd cl
      in if requirepass s \<noteq> None \<and> \<not> c_authenticated cl \<and> cmd_proc cmd \<noteq> ''authCommand''
         then Some (addReply c shared_noautherr (flagTransaction c s))
         else if maxmemory s \<noteq> 0 then None
         else if (stop_writes_on_bgsave_err s \<and> 0 < saveparamslen s \<and> \<not> lastbgsave_ok s \<or> \<not> aof_last_write_ok s) \<and>
                 \<not> masterhost s \<and> (REDIS_CMD_WRITE \<in> cmd_flags cmd \<or> cmd_proc cmd = ''pingCommand'')
         then Some ((if aof_last_write_ok s then addReply c shared_bgsaveerr
                     else addReplySds c (str ''-MISCONF Errors writing to the AOF file: '' @
                       c_str (aof_last_write_strerror s) @ crlf)) (flagTransaction c s))
         else if \<not> masterhost s \<and> repl_min_slaves_to_write s \<noteq> 0 \<and> repl_min_slaves_max_lag s \<noteq> 0 \<and>
                 REDIS_CMD_WRITE \<in> cmd_flags cmd \<and> repl_good_slaves_count s < repl_min_slaves_to_write s
         then Some (addReply c shared_noreplicaserr (flagTransaction c s))
         else if masterhost s \<and> repl_slave_ro s \<and> REDIS_MASTER \<notin> c_flags cl \<and> REDIS_CMD_WRITE \<in> cmd_flags cmd
         then Some (addReply c shared_roslaveerr s)
         else if REDIS_PUBSUB \<in> c_flags cl \<and> cmd_proc cmd \<noteq> ''pingCommand'' \<and> cmd_proc cmd \<noteq> ''subscribeCommand'' \<and>
                 cmd_proc cmd \<noteq> ''unsubscribeCommand'' \<and> cmd_proc cmd \<noteq> ''psubscribeCommand'' \<and>
                 cmd_proc cmd \<noteq> ''punsubscribeCommand''
         then Some (addReplyError c ''only (P)SUBSCRIBE / (P)UNSUBSCRIBE / QUIT allowed in this context'' s)
         else if masterhost s \<and> \<not> repl_connected s \<and> \<not> repl_serve_stale_data s \<and> REDIS_CMD_STALE \<notin> cmd_flags cmd
         then Some (addReply c shared_masterdownerr (flagTransaction c s))
         else if loading s \<and> REDIS_CMD_LOADING \<notin> cmd_flags cmd
         then Some (addReply c shared_loadingerr s)
         else if lua_timedout s \<and> cmd_proc cmd \<noteq> ''authCommand'' \<and> cmd_proc cmd \<noteq> ''replconfCommand'' \<and>
                 \<not> (cmd_proc cmd = ''shutdownCommand'' \<and> argc s c = 2 \<and> lower ((arg s c 1 @ [0]) ! 0) = 110) \<and>
                 \<not> (cmd_proc cmd = ''scriptCommand'' \<and> argc s c = 2 \<and> lower ((arg s c 1 @ [0]) ! 0) = 107)
         then Some (addReply c shared_slowscripterr (flagTransaction c s))
         else process_exec c s)"

text \<open>The result is false for \<^verbatim>\<open>REDIS_ERR\<close> (after QUIT).\<close>

definition processCommand :: "nat \<Rightarrow> server \<Rightarrow> (bool \<times> server) option" where
  "processCommand c s =
     (let name = arg s c 0
      in if map lower (c_str name) = str ''quit'' then
           let s = addReply c shared_ok s
           in Some (False, upd_client c (c_flags_update (insert REDIS_CLOSE_AFTER_REPLY)) s)
         else
           case lookupCommand s name of
             None \<Rightarrow>
               let s = flagTransaction c s
               in Some (True, addReplyErrorFormat c (str ''unknown command '' @ [39] @ c_str name @ [39]) s)
           | Some cmd \<Rightarrow>
               let s = upd_client c (\<lambda>cl. cl\<lparr>c_cmd := cmd\<rparr>) s
               in if 0 < cmd_arity cmd \<and> cmd_arity cmd \<noteq> int (argc s c) \<or> int (argc s c) < - cmd_arity cmd then
                    let s = flagTransaction c s
                    in Some (True, addReplyErrorFormat c (wrong_arguments c s) s)
                  else do {
                    s \<leftarrow> process_checks c s;
                    Some (True, s)
                  })"

end
