(* ===== verification/Serving.thy ===== *)
theory Serving
  imports Process
begin

text \<open>
  What serving a request does to the server: every modelled command finishes without failing an
  assertion and keeps the invariant; a client's transaction is aborted if a key it watches changed;
  every change of the data is counted and so reaches the append-only file and the slaves.
\<close>

section \<open>Effects seen by other clients\<close>

text \<open>
  From \<open>s\<close> to \<open>s'\<close> the client \<open>w\<close> kept its watched keys and its mark, and got marked if one of
  them (without time to live) changed.
\<close>

definition watching :: "nat \<Rightarrow> server \<Rightarrow> server \<Rightarrow> bool" where
  "watching w s s' \<longleftrightarrow>
     set (c_watched (sv_client s w)) \<subseteq> set (c_watched (sv_client s' w)) \<and>
     (REDIS_DIRTY_CAS \<in> c_flags (sv_client s w) \<longrightarrow> REDIS_DIRTY_CAS \<in> c_flags (sv_client s' w)) \<and>
     (\<forall>d k. (k, d) \<in> set (c_watched (sv_client s w)) \<longrightarrow> content s' d k \<noteq> content s d k \<longrightarrow>
        db_expires (sv_db s d) k = None \<longrightarrow> REDIS_DIRTY_CAS \<in> c_flags (sv_client s' w))"

text \<open>
  Serving \<open>c\<close> took \<open>s\<close> to \<open>s'\<close>.  Other clients at most got marked; the clients in
  \<open>W\<close> are watching.
\<close>

definition serves :: "nat set \<Rightarrow> nat \<Rightarrow> server \<Rightarrow> server \<Rightarrow> bool" where
  "serves W c s s' \<longleftrightarrow>
     server_ok s' \<and> fixed s' = fixed s \<and> (\<forall>w. w \<noteq> c \<longrightarrow> client_le (sv_client s w) (sv_client s' w)) \<and>
     (\<forall>w \<in> W. watching w s s')"

lemma viewD:
  assumes "view s2 = view s1"
  shows "c_watched (sv_client s2 w) = c_watched (sv_client s1 w)" "c_mstate (sv_client s2 w) = c_mstate (sv_client s1 w)"
    "c_flags (sv_client s2 w) = c_flags (sv_client s1 w)" "c_db (sv_client s2 w) = c_db (sv_client s1 w)"
    "sv_db s2 = sv_db s1" "dirty s2 = dirty s1" "repl_log s2 = repl_log s1" "fixed s2 = fixed s1"
  using assms by (auto simp: view_def dest: fun_cong [of _ _ w])

lemma besidesD:
  assumes "besides_watch s2 = besides_watch s1"
  shows "c_mstate (sv_client s2 w) = c_mstate (sv_client s1 w)" "c_flags (sv_client s2 w) = c_flags (sv_client s1 w)"
    "content s2 d k = content s1 d k" "fixed s2 = fixed s1"
  using assms by (auto simp: besides_watch_def content_def dest: fun_cong [of _ _ w] fun_cong [of _ _ d])

lemma watching_refl: "watching w s s"
  by (simp add: watching_def)

lemma watching_trans:
  assumes a: "watching w s s1" and b: "watching w s1 s2"
  shows "watching w s s2"
  unfolding watching_def
proof (intro conjI allI impI)
  show "set (c_watched (sv_client s w)) \<subseteq> set (c_watched (sv_client s2 w))" using a b by (auto simp: watching_def)
  show "REDIS_DIRTY_CAS \<in> c_flags (sv_client s2 w)" if "REDIS_DIRTY_CAS \<in> c_flags (sv_client s w)"
    using a b that by (simp add: watching_def)
  show "REDIS_DIRTY_CAS \<in> c_flags (sv_client s2 w)"
    if "(k, d) \<in> set (c_watched (sv_client s w))" and "content s2 d k \<noteq> content s d k"
      and "db_expires (sv_db s d) k = None" for d k
  proof (cases "content s1 d k = content s d k")
    case True
    then have "db_expires (sv_db s1 d) k = None" using that by (simp add: content_def)
    moreover have "(k, d) \<in> set (c_watched (sv_client s1 w))" using a that by (auto simp: watching_def)
    ultimately show ?thesis using b that True by (simp add: watching_def)
  next
    case False
    then have "REDIS_DIRTY_CAS \<in> c_flags (sv_client s1 w)" using a that by (simp add: watching_def)
    then show ?thesis using b by (simp add: watching_def)
  qed
qed

lemma serves_refl: "server_ok s \<Longrightarrow> serves W c s s"
  by (simp add: serves_def watching_refl)

lemma serves_ok: "serves W c s s' \<Longrightarrow> server_ok s'"
  by (simp add: serves_def)

lemma serves_fixed: "serves W c s s' \<Longrightarrow> fixed s' = fixed s"
  by (simp add: serves_def)

lemma serves_trans: "serves W c s s1 \<Longrightarrow> serves W c s1 s2 \<Longrightarrow> serves W c s s2"
  unfolding serves_def by (metis client_le_trans watching_trans)

lemma good_watching: "good {} p s s' \<Longrightarrow> watching w s s'"
proof -
  assume "good {} p s s'"
  then have a: "advance {} p s s'" by (simp add: good_def)
  note sa = advance_same [OF a]
  have "c_watched (sv_client s' w) = c_watched (sv_client s w)" "c_flags (sv_client s w) \<subseteq> c_flags (sv_client s' w)"
    using sa(2) by (simp_all add: client_le_def)
  then show ?thesis unfolding watching_def using advance_touch [OF a] by (auto simp: touched_def)
qed

lemma serves_good:
  assumes "good X p s s'" "X = {} \<or> W = {}"
  shows "serves W c s s'"
proof -
  have "watching w s s'" if "w \<in> W" for w using assms that by (auto intro: good_watching)
  then show ?thesis using assms(1) by (simp add: serves_def good_def advance_def)
qed

text \<open>The counter of changes is not observed.\<close>

lemma serves_uncounted:
  assumes "serves W c s (s'\<lparr>dirty := n\<rparr>)"
  shows "serves W c s s'"
proof -
  have eq: "fixed (s'\<lparr>dirty := n\<rparr>) = fixed s'" "sv_db (s'\<lparr>dirty := n\<rparr>) = sv_db s'"
    "sv_client (s'\<lparr>dirty := n\<rparr>) = sv_client s'"
    by (simp_all add: fixed_def)
  have ok: "server_ok (s'\<lparr>dirty := n\<rparr>) = server_ok s'"
    using eq by (simp add: server_ok_def fixed_def)
  show ?thesis
    using assms unfolding serves_def watching_def content_def eq ok .
qed

text \<open>A step that leaves the data and the other clients alone.\<close>

lemma serves_own:
  assumes "server_ok s'" "fixed s' = fixed s" "\<And>d k. content s' d k = content s d k"
    and "\<And>w. w \<noteq> c \<Longrightarrow> client_le (sv_client s w) (sv_client s' w)"
    and "c \<in> W \<Longrightarrow> set (c_watched (sv_client s c)) \<subseteq> set (c_watched (sv_client s' c))"
    and "c \<in> W \<Longrightarrow> REDIS_DIRTY_CAS \<in> c_flags (sv_client s c) \<Longrightarrow> REDIS_DIRTY_CAS \<in> c_flags (sv_client s' c)"
  shows "serves W c s s'"
proof -
  have "watching w s s'" if "w \<in> W" for w
  proof (cases "w = c")
    case True
    then show ?thesis using assms(3,5,6) that by (simp add: watching_def)
  next
    case False
    then have "client_le (sv_client s w) (sv_client s' w)" by (rule assms(4))
    then show ?thesis using assms(3) by (auto simp: watching_def client_le_def)
  qed
  then show ?thesis using assms(1,2,4) by (simp add: serves_def)
qed

lemma serves_view:
  assumes "view s' = view s" "server_ok s"
  shows "serves W c s s'"
  using good_view [OF assms(1), of "{}" False s] good_refl [OF assms(2)] serves_good by blast

text \<open>A change of the client itself.\<close>

lemma serves_client:
  assumes ok: "server_ok s" and f: "\<And>cl. c_watched (f cl) = c_watched cl \<and> c_db (f cl) = c_db cl"
    and cas: "c \<in> W \<Longrightarrow> REDIS_DIRTY_CAS \<in> c_flags (sv_client s c) \<Longrightarrow> REDIS_DIRTY_CAS \<in> c_flags (f (sv_client s c))"
  shows "serves W c s (upd_client c f s)"
proof (rule serves_own)
  have cl: "c_watched (sv_client (upd_client c f s) w) = c_watched (sv_client s w)"
    "c_db (sv_client (upd_client c f s) w) = c_db (sv_client s w)" for w
    using f by (simp_all add: upd_client_def)
  have "besides_watch (upd_client c f s) = besides_watch (upd_client c f s)" ..
  have eq: "hash_seed (upd_client c f s) = hash_seed s" "sv_clients (upd_client c f s) = sv_clients s"
    "sv_dbnum (upd_client c f s) = sv_dbnum s" "orig_commands (upd_client c f s) = orig_commands s"
    "set_max_intset_entries (upd_client c f s) = set_max_intset_entries s"
    by (simp_all add: upd_client_def)
  show "server_ok (upd_client c f s)"
    using ok by (simp add: server_ok_def watch_ok_def eq cl)
  show "set (c_watched (sv_client s c)) \<subseteq> set (c_watched (sv_client (upd_client c f s) c))" by (simp add: cl)
qed (use cas in \<open>simp_all add: content_def\<close>, simp_all add: upd_client_def)

lemma serves_wp:
  assumes "serves W c s s1" "wp x (\<lambda>s2. serves W c s1 s2 \<and> P s2)"
  shows "wp x (\<lambda>s2. serves W c s s2 \<and> P s2)"
  using assms(2) by (rule wp_mono) (use assms(1) serves_trans in blast)

lemma serves_besides:
  assumes "server_ok s'" "besides_watch s' = besides_watch s"
    and "\<And>w. w \<noteq> c \<Longrightarrow> c_watched (sv_client s' w) = c_watched (sv_client s w)"
    and "c \<in> W \<Longrightarrow> set (c_watched (sv_client s c)) \<subseteq> set (c_watched (sv_client s' c))"
  shows "serves W c s s'"
proof (rule serves_own)
  show "fixed s' = fixed s" using assms(2) by (simp add: besides_watch_def)
  show "content s' d k = content s d k" for d k
    using besidesD(3) [OF assms(2)] .
  show "client_le (sv_client s w) (sv_client s' w)" if "w \<noteq> c" for w
    using assms(3) [OF that] besidesD(1,2) [OF assms(2)] by (auto simp: client_le_def)
  show "REDIS_DIRTY_CAS \<in> c_flags (sv_client s' c)" if "REDIS_DIRTY_CAS \<in> c_flags (sv_client s c)"
    using that besidesD(2) [OF assms(2)] by simp
qed (use assms in auto)

lemma unwatch_serves:
  "server_ok s \<Longrightarrow> c \<notin> W \<Longrightarrow> wp (unwatchAllKeys c s) (\<lambda>s'. serves W c s s' \<and> besides_watch s' = besides_watch s \<and>
     c_watched (sv_client s' c) = [])"
  by (rule wp_mono [OF unwatchAllKeys_ok]) (auto intro: serves_besides)

section \<open>The commands\<close>

lemma authCommand_good: "server_ok s \<Longrightarrow> wp (authCommand c s) (good {} False s)"
proof -
  assume ok: "server_ok s"
  have "view (upd_client c (c_authenticated_update (\<lambda>_. b)) s) = view s" for b by (rule view_client) simp
  then have "good {} False s (upd_client c (c_authenticated_update (\<lambda>_. b)) s)" for b
    using good_view good_refl [OF ok] by blast
  then show ?thesis using good_refl [OF ok, of "{}" False] by (simp add: authCommand_def split: option.split)
qed

lemma server_commands_good:
  assumes "server_ok s"
  shows "wp (pingCommand c s) (good {} False s)" "wp (echoCommand c s) (good {} False s)"
    "wp (timeCommand c s) (good {} False s)"
  using good_refl [OF assms, of "{}" False]
  by (simp_all add: pingCommand_def echoCommand_def timeCommand_def Let_def split_beta)

lemmas command_good =
  getCommand_good set_commands_good appendCommand_good strlenCommand_good delCommand_good existsCommand_good
  getrangeCommand_good incr_commands_good mgetCommand_good getsetCommand_good msetGenericCommand_good
  selectCommand_good renameGenericCommand_good expire_commands_good dbsizeCommand_good authCommand_good
  server_commands_good typeCommand_good flushdbCommand_good ttlGenericCommand_good
  persistCommand_good

lemma data_procs_good: "(name, proc) \<in> set data_procs \<Longrightarrow> server_ok s \<Longrightarrow> wp (proc c s) (good {} False s)"
  unfolding data_procs_def
  by (auto simp: msetCommand_def msetnxCommand_def renameCommand_def renamenxCommand_def ttlCommand_def pttlCommand_def
      command_good)


section \<open>Tame requests\<close>

text \<open>
  A SETRANGE whose end fits 63 bits; a command \<open>c\<close> may queue while the clients in \<open>W\<close> are
  observed (not MOVE, which does not mark watchers); a command it may send.  An observed client
  does not stop watching by UNWATCH, DISCARD or EXEC.
\<close>

definition setrange_fits :: "strobj list \<Rightarrow> bool" where
  "setrange_fits av =
     (case getLongLongFromObject (Some (av ! 2)) of
        None \<Rightarrow> True
      | Some offset \<Rightarrow> offset + int (length (getDecodedObject (av ! 3))) < 2 ^ 63)"

text \<open>
  The set commands are followed where the model says what they do: the arguments their arity asks
  for, fewer than \<open>2 ^ 63\<close> of them, and no key looked up twice by one command (it may expire
  in between, and the first result is then used after it was freed).
\<close>

definition set_fits :: "string \<Rightarrow> strobj list \<Rightarrow> bool" where
  "set_fits name av \<longleftrightarrow>
     (let ts = map getDecodedObject av
      in length ts < 2 ^ 63 \<and>
         (if name \<in> {''saddCommand'', ''sinterstoreCommand''} then 3 \<le> length ts
          else if name = ''sinterCommand'' then 2 \<le> length ts
          else if name \<in> {''sunionCommand'', ''sdiffCommand''} then 2 \<le> length ts \<and> distinct (drop 1 ts)
          else if name \<in> {''sunionstoreCommand'', ''sdiffstoreCommand''} then 3 \<le> length ts \<and> distinct (drop 2 ts)
          else if name = ''smoveCommand'' then length ts = 4 \<and> ts ! 1 \<noteq> ts ! 2
          else True))"

definition tame :: "nat set \<Rightarrow> nat \<Rightarrow> strobj list \<times> redisCommand \<Rightarrow> bool" where
  "tame W c q =
     (case q of (av, cmd) \<Rightarrow>
        cmd_proc cmd \<in> fst ` set data_procs \<or> cmd_proc cmd = ''unwatchCommand'' \<and> c \<notin> W \<or>
        cmd_proc cmd = ''flushallCommand'' \<or> cmd_proc cmd = ''setrangeCommand'' \<and> setrange_fits av \<or>
        cmd_proc cmd \<in> fst ` set set_procs \<and> set_fits (cmd_proc cmd) av \<or>
        cmd_proc cmd = ''moveCommand'' \<and> W = {})"

definition allowed :: "nat set \<Rightarrow> nat \<Rightarrow> strobj list \<times> redisCommand \<Rightarrow> bool" where
  "allowed W c q \<longleftrightarrow> tame W c q \<or> cmd_proc (snd q) \<in> {''multiCommand'', ''watchCommand''} \<or>
     c \<notin> W \<and> cmd_proc (snd q) \<in> {''execCommand'', ''discardCommand''}"

lemma run_data:
  assumes "name \<in> fst ` set data_procs"
  shows "\<exists>proc. (name, proc) \<in> set data_procs \<and> run_queued name = proc"
proof -
  have "map_of data_procs name \<noteq> None" using assms by (simp add: map_of_eq_None_iff)
  then obtain proc where "map_of data_procs name = Some proc" by blast
  then show ?thesis
    by (intro exI [of _ proc]) (auto simp: run_queued_def queued_procs_def map_add_def fun_eq_iff dest: map_of_SomeD)
qed

lemma run_others:
  "run_queued ''flushallCommand'' = flushallCommand" "run_queued ''setrangeCommand'' = setrangeCommand" "run_queued ''moveCommand'' = moveCommand"
  "run_queued ''multiCommand'' = multiCommand" "run_queued ''discardCommand'' = discardCommand"
  "run_queued ''watchCommand'' = watchCommand" "run_queued ''unwatchCommand'' = unwatchCommand"
  "run_queued ''execCommand'' c s = None"
  by (simp_all add: run_queued_def queued_procs_def data_procs_def set_procs_def fun_eq_iff)

lemma run_sets:
  "run_queued ''saddCommand'' = saddCommand" "run_queued ''sremCommand'' = sremCommand"
  "run_queued ''smoveCommand'' = smoveCommand" "run_queued ''sismemberCommand'' = sismemberCommand"
  "run_queued ''scardCommand'' = scardCommand" "run_queued ''sinterCommand'' = sinterCommand"
  "run_queued ''sinterstoreCommand'' = sinterstoreCommand" "run_queued ''sunionCommand'' = sunionCommand"
  "run_queued ''sunionstoreCommand'' = sunionstoreCommand" "run_queued ''sdiffCommand'' = sdiffCommand"
  "run_queued ''sdiffstoreCommand'' = sdiffstoreCommand"
  by (simp_all add: run_queued_def queued_procs_def data_procs_def set_procs_def fun_eq_iff)

lemma args_from: "map (arg s c) [i..<argc s c] = drop i (map getDecodedObject (c_argv (sv_client s c)))"
  by (rule nth_equalityI) (simp_all add: arg_def argv_def argc_def)

text \<open>Every set command is a handler.\<close>

lemma set_procs_good:
  assumes ok: "server_ok s" and name: "name \<in> fst ` set set_procs" and fits: "set_fits name (c_argv (sv_client s c))"
  shows "wp (run_queued name c s) (good {} False s)"
proof -
  note g = good_refl [OF ok, of "{}" False]
  have n: "argc s c < 2 ^ 63" using fits by (simp add: set_fits_def argc_def Let_def)
  have ne: "map (arg s c) [i..<argc s c] \<noteq> []" if "i < length (c_argv (sv_client s c))" for i
    using that by (auto simp: argc_def)
  have inter: "wp (sinterGenericCommand c keys dst s) (good {} False s)" if "keys \<noteq> []" for keys dst
    by (rule wp_sinter [OF g that])
  have comb: "wp (sunionDiffGenericCommand c keys dst op s) (good {} False s)" if "keys \<noteq> []" "distinct keys" for keys dst op
    by (rule wp_sunionDiff [OF g _ that(1)]) (simp_all add: that(2))
  have arg: "arg s c i = map getDecodedObject (c_argv (sv_client s c)) ! i" if "i < length (c_argv (sv_client s c))" for i
    using that by (simp add: arg_def argv_def)
  have "name \<in> {''saddCommand'', ''sremCommand'', ''smoveCommand'', ''sismemberCommand'', ''scardCommand'', ''sinterCommand'',
      ''sinterstoreCommand'', ''sunionCommand'', ''sunionstoreCommand'', ''sdiffCommand'', ''sdiffstoreCommand''}"
    using name by (simp add: set_procs_def)
  then show ?thesis
    apply (elim insertE emptyE)
    subgoal using fits by (simp add: run_sets) (intro wp_sadd [OF g _ n], auto simp: set_fits_def argc_def)
    subgoal by (simp add: run_sets) (rule wp_srem [OF g n], simp_all)
    subgoal using fits by (simp add: run_sets) (rule wp_smove [OF g], auto simp: set_fits_def arg Let_def)
    subgoal by (simp add: run_sets) (rule wp_sismember [OF g], simp_all)
    subgoal by (simp add: run_sets) (rule wp_scard [OF g], simp_all)
    subgoal using fits by (simp add: run_sets sinterCommand_def) (intro inter ne, simp add: set_fits_def)
    subgoal using fits by (simp add: run_sets sinterstoreCommand_def) (intro inter ne, simp add: set_fits_def)
    subgoal using fits by (simp add: run_sets sunionCommand_def) (intro comb ne, simp_all add: set_fits_def args_from Let_def)
    subgoal using fits by (simp add: run_sets sunionstoreCommand_def) (intro comb ne, simp_all add: set_fits_def args_from Let_def)
    subgoal using fits by (simp add: run_sets sdiffCommand_def) (intro comb ne, simp_all add: set_fits_def args_from Let_def)
    subgoal using fits by (simp add: run_sets sdiffstoreCommand_def) (intro comb ne, simp_all add: set_fits_def args_from Let_def)
    done
qed

lemma good_mstate: "good X p s s' \<Longrightarrow> c_mstate (sv_client s' c) = c_mstate (sv_client s c)"
  by (simp add: good_def advance_def client_le_def)

lemma unwatchCommand_serves:
  assumes "server_ok s" "c \<notin> W"
  shows "wp (unwatchCommand c s) (\<lambda>s'. serves W c s s' \<and> c_mstate (sv_client s' c) = c_mstate (sv_client s c))"
  unfolding unwatchCommand_def wp_bind
proof (rule wp_mono [OF unwatch_serves [OF assms]], elim conjE)
  fix s1
  assume s1: "serves W c s s1" "besides_watch s1 = besides_watch s"
  define s2 where "s2 = upd_client c (c_flags_update (\<lambda>f. f - {REDIS_DIRTY_CAS})) s1"
  have s2: "serves W c s1 s2"
    unfolding s2_def by (rule serves_client [OF serves_ok [OF s1(1)]]) (use assms(2) in simp_all)
  have "serves W c s2 (addReply c shared_ok s2)" by (rule serves_view [OF _ serves_ok [OF s2]]) simp
  then have "serves W c s (addReply c shared_ok s2)" using s1(1) s2 by (blast intro: serves_trans)
  moreover have "c_mstate (sv_client (addReply c shared_ok s2) c) = c_mstate (sv_client s2 c)"
    using view_reply(2) [of c shared_ok s2] by (auto simp: view_def dest: fun_cong)
  moreover have "c_mstate (sv_client s2 c) = c_mstate (sv_client s c)"
    using s1(2) by (simp add: s2_def upd_client_def) (auto simp: besides_watch_def dest: fun_cong)
  ultimately show "wp (let s = s2 in Some (addReply c shared_ok s))
      (\<lambda>s'. serves W c s s' \<and> c_mstate (sv_client s' c) = c_mstate (sv_client s c))"
    by simp
qed

lemma run_queued_serves:
  assumes ok: "server_ok s" and t: "tame W c (c_argv (sv_client s c), cmd)"
  shows "wp (run_queued (cmd_proc cmd) c s) (\<lambda>s'. serves W c s s' \<and> c_mstate (sv_client s' c) = c_mstate (sv_client s c))"
proof -
  have good: "wp x (\<lambda>s'. serves W c s s' \<and> c_mstate (sv_client s' c) = c_mstate (sv_client s c))"
    if "wp x (good {} False s)" for x
    using that by (rule wp_mono) (auto intro: serves_good good_mstate)
  consider (data) "cmd_proc cmd \<in> fst ` set data_procs" | (unwatch) "cmd_proc cmd = ''unwatchCommand''" "c \<notin> W"
    | (flushall) "cmd_proc cmd = ''flushallCommand''"
    | (setrange) "cmd_proc cmd = ''setrangeCommand''" "setrange_fits (c_argv (sv_client s c))"
    | (sets) "cmd_proc cmd \<in> fst ` set set_procs" "set_fits (cmd_proc cmd) (c_argv (sv_client s c))"
    | (move) "cmd_proc cmd = ''moveCommand''" "W = {}"
    using t by (auto simp: tame_def)
  then show ?thesis
  proof cases
    case data
    from run_data [OF this] show ?thesis using good data_procs_good [OF _ ok] by metis
  next
    case unwatch
    then show ?thesis using unwatchCommand_serves [OF ok unwatch(2)] unwatch(1) by (simp add: run_others)
  next
    case flushall
    have "serves W c s s' \<and> c_mstate (sv_client s' c) = c_mstate (sv_client s c)"
      if "\<exists>n. good {} False s (s'\<lparr>dirty := n\<rparr>)" for s'
      using that by (elim exE, intro conjI)
        (rule serves_uncounted [OF serves_good], assumption, simp, drule good_mstate, simp)
    then show ?thesis using flushall wp_mono [OF flushallCommand_good [OF ok]] by (simp add: run_others)
  next
    case setrange
    then have "wp (setrangeCommand c s) (good {} False s)"
      by (intro setrangeCommand_good [OF ok]) (simp add: setrange_fits_def argv_def arg_def)
    then show ?thesis using good setrange(1) by (simp add: run_others)
  next
    case sets
    then show ?thesis using good set_procs_good [OF ok] by blast
  next
    case move
    have "wp (moveCommand c s) (\<lambda>s'. serves W c s s' \<and> c_mstate (sv_client s' c) = c_mstate (sv_client s c))"
      using moveCommand_good [OF ok] by (rule wp_mono) (use move(2) in \<open>auto intro: serves_good good_mstate\<close>)
    then show ?thesis using move(1) by (simp add: run_others)
  qed
qed

section \<open>Execution\<close>

lemma serves_logs:
  assumes "server_ok s" "fixed s' = fixed s" "sv_db s' = sv_db s" "sv_client s' = sv_client s"
  shows "serves W c s s'"
  using assms by (intro serves_own) (simp_all add: server_ok_def content_def fixed_def)

lemma propagate_same:
  "fixed (propagate d av a r s) = fixed s" "sv_db (propagate d av a r s) = sv_db s"
  "sv_client (propagate d av a r s) = sv_client s"
  by (simp_all add: propagate_def feedAppendOnlyFile_def replicationFeedSlaves_def fixed_def Let_def)

lemma monitors_same:
  "fixed (replicationFeedMonitors d av s) = fixed s" "sv_db (replicationFeedMonitors d av s) = sv_db s"
  "sv_client (replicationFeedMonitors d av s) = sv_client s"
  by (simp_all add: replicationFeedMonitors_def fixed_def)

lemma fixed_stat: "fixed (s\<lparr>stat_numcommands := n\<rparr>) = fixed s"
  by (simp add: fixed_def)

lemma clock_same:
  "fixed (snd (ustime s)) = fixed s" "sv_db (snd (ustime s)) = sv_db s" "sv_client (snd (ustime s)) = sv_client s"
  by (simp_all add: ustime_def fixed_def)

text \<open>The server before the command function runs and after it ran.\<close>

definition call_before :: "nat \<Rightarrow> server \<Rightarrow> server" where
  "call_before c s =
     (let s = (if monitors s \<and> \<not> loading s \<and>
                  cmd_flags (c_cmd (sv_client s c)) \<inter> {REDIS_CMD_SKIP_MONITOR, REDIS_CMD_ADMIN} = {}
               then replicationFeedMonitors (client_db s c) (argv_texts c s) s else s)
      in snd (ustime (upd_client c (c_flags_update (\<lambda>f. f - force_flags)) s)))"

definition call_after :: "nat \<Rightarrow> clientflag set \<Rightarrow> int \<Rightarrow> server \<Rightarrow> server" where
  "call_after c old_flags dirty0 s =
     (let s = snd (ustime s);
          changes = (if dirty s - dirty0 < 0 then 0 else dirty s - dirty0);
          to_repl = (REDIS_FORCE_REPL \<in> c_flags (sv_client s c) \<or> changes \<noteq> 0);
          to_aof = (REDIS_FORCE_AOF \<in> c_flags (sv_client s c) \<or> changes \<noteq> 0);
          s = (if to_repl \<or> to_aof then propagate (client_db s c) (argv_texts c s) to_aof to_repl s else s);
          s = upd_client c (c_flags_update (\<lambda>f. f - force_flags \<union> old_flags \<inter> force_flags)) s
      in s\<lparr>stat_numcommands := Suc (stat_numcommands s)\<rparr>)"

lemma call_parts:
  "call_with proc c s = do {
     s1 \<leftarrow> proc (cmd_proc (c_cmd (sv_client s c))) c (call_before c s);
     Some (call_after c (c_flags (sv_client s c)) (dirty s) s1)
   }"
proof -
  have "cmd_proc (c_cmd (sv_client (call_before c s) c)) = cmd_proc (c_cmd (sv_client s c))"
    by (simp add: call_before_def clock_same monitors_same upd_client_def Let_def)
  moreover have "dirty (upd_client c f (replicationFeedMonitors d av s)) = dirty s" for f d av
    by (simp add: replicationFeedMonitors_def)
  ultimately show ?thesis
    by (simp add: call_with_def call_before_def call_after_def Let_def cong: if_cong)
qed

lemma call_before_client:
  "sv_client (call_before c s) = (sv_client s)(c := c_flags_update (\<lambda>f. f - force_flags) (sv_client s c))"
  "sv_db (call_before c s) = sv_db s" "dirty (call_before c s) = dirty s" "repl_log (call_before c s) = repl_log s"
  "aof_log (call_before c s) = aof_log s" "fixed (call_before c s) = fixed s"
  by (simp_all add: call_before_def clock_same monitors_same Let_def)
    (simp_all add: upd_client_def monitors_same, simp_all add: ustime_def replicationFeedMonitors_def)

lemma call_before_serves: "server_ok s \<Longrightarrow> serves W c s (call_before c s)"
proof -
  assume ok: "server_ok s"
  define s1 where "s1 = (if monitors s \<and> \<not> loading s \<and>
      cmd_flags (c_cmd (sv_client s c)) \<inter> {REDIS_CMD_SKIP_MONITOR, REDIS_CMD_ADMIN} = {}
    then replicationFeedMonitors (client_db s c) (argv_texts c s) s else s)"
  define s2 where "s2 = upd_client c (c_flags_update (\<lambda>f. f - force_flags)) s1"
  have s1: "serves W c s s1" using serves_logs [OF ok] serves_refl [OF ok] by (simp add: s1_def monitors_same)
  have "serves W c s1 s2" unfolding s2_def by (rule serves_client [OF serves_ok [OF s1]]) (simp_all add: force_flags_def)
  with s1 have s2: "serves W c s s2" by (rule serves_trans)
  have "serves W c s2 (snd (ustime s2))" by (rule serves_logs [OF serves_ok [OF s2]]) (simp_all add: clock_same)
  with s2 show ?thesis unfolding call_before_def s1_def [symmetric] Let_def s2_def [symmetric] by (rule serves_trans)
qed

lemma call_after_client:
  "sv_client (call_after c fl n s) =
     (sv_client s)(c := c_flags_update (\<lambda>f. f - force_flags \<union> fl \<inter> force_flags) (sv_client s c))"
  "sv_db (call_after c fl n s) = sv_db s" "fixed (call_after c fl n s) = fixed s"
  by (simp_all add: call_after_def Let_def propagate_same clock_same fixed_stat)
    (simp add: upd_client_def propagate_same clock_same)

lemma call_after_serves:
  assumes ok: "server_ok s"
  shows "serves W c s (call_after c fl n s)"
proof -
  define s1 where "s1 = upd_client c (c_flags_update (\<lambda>f. f - force_flags \<union> fl \<inter> force_flags)) s"
  have s1: "serves W c s s1" unfolding s1_def by (rule serves_client [OF ok]) (simp_all add: force_flags_def)
  have "serves W c s1 (call_after c fl n s)"
    by (rule serves_logs [OF serves_ok [OF s1]]) (simp_all add: call_after_client s1_def, simp_all add: upd_client_def)
  with s1 show ?thesis by (rule serves_trans)
qed

lemma call_with_serves:
  assumes ok: "server_ok s"
    and step: "\<And>s1. server_ok s1 \<Longrightarrow> fixed s1 = fixed s \<Longrightarrow> c_argv (sv_client s1 c) = c_argv (sv_client s c) \<Longrightarrow>
      c_mstate (sv_client s1 c) = c_mstate (sv_client s c) \<Longrightarrow>
      wp (proc (cmd_proc (c_cmd (sv_client s c))) c s1) (\<lambda>s2. serves W c s1 s2 \<and> Q (c_mstate (sv_client s2 c)))"
  shows "wp (call_with proc c s) (\<lambda>s'. serves W c s s' \<and> Q (c_mstate (sv_client s' c)))"
proof -
  have b: "serves W c s (call_before c s)" by (rule call_before_serves [OF ok])
  show ?thesis
    unfolding call_parts wp_bind
  proof (rule wp_mono [OF step])
    show "server_ok (call_before c s)" using b by (rule serves_ok)
    fix s2
    assume s2: "serves W c (call_before c s) s2 \<and> Q (c_mstate (sv_client s2 c))"
    then have "serves W c s2 (call_after c fl n s2)" for fl n using call_after_serves serves_ok by blast
    then have "serves W c s (call_after c (c_flags (sv_client s c)) (dirty s) s2)"
      using s2 b serves_trans by blast
    then show "wp (Some (call_after c (c_flags (sv_client s c)) (dirty s) s2))
        (\<lambda>s'. serves W c s s' \<and> Q (c_mstate (sv_client s' c)))"
      using s2 by (simp add: call_after_client)
  qed (simp_all add: call_before_client)
qed

lemma exec_loop_serves:
  "server_ok s \<Longrightarrow> distinct js \<Longrightarrow>
   (\<And>j. j \<in> set js \<Longrightarrow> j < length (c_mstate (sv_client s c)) \<and> tame W c (c_mstate (sv_client s c) ! j)) \<Longrightarrow>
   wp (exec_loop run_queued c js mp s) (\<lambda>(mp', s'). serves W c s s')"
proof (induction js arbitrary: mp s)
  case Nil
  then show ?case by (simp add: serves_refl)
next
  case (Cons j js)
  define ms where "ms = c_mstate (sv_client s c)"
  obtain av cmd where q: "ms ! j = (av, cmd)" by fastforce
  have j: "j < length ms" "tame W c (av, cmd)" using Cons.prems(3) [of j] q by (simp_all add: ms_def)
  define s1 where "s1 = upd_client c (\<lambda>cl. cl\<lparr>c_argv := av, c_cmd := cmd\<rparr>) s"
  define start where "start = (\<not> mp \<and> REDIS_CMD_READONLY \<notin> cmd_flags cmd)"
  define s2 where "s2 = (if start then execCommandPropagateMulti c s1 else s1)"
  have s1: "serves W c s s1" unfolding s1_def by (rule serves_client [OF Cons.prems(1)]) simp_all
  have c1: "c_argv (sv_client s1 c) = av" "c_cmd (sv_client s1 c) = cmd" "c_mstate (sv_client s1 c) = ms"
    by (simp_all add: s1_def upd_client_def ms_def)
  have cl2: "sv_client s2 = sv_client s1" by (simp add: s2_def execCommandPropagateMulti_def propagate_same)
  have "serves W c s1 s2"
    by (rule serves_logs [OF serves_ok [OF s1]]) (simp_all add: s2_def execCommandPropagateMulti_def propagate_same)
  with s1 have s2: "serves W c s s2" by (rule serves_trans)
  have "wp (call_with run_queued c s2) (\<lambda>s3. serves W c s2 s3 \<and> c_mstate (sv_client s3 c) = ms)"
  proof (rule call_with_serves [OF serves_ok [OF s2]])
    fix s3
    assume "server_ok s3" "c_argv (sv_client s3 c) = c_argv (sv_client s2 c)"
      "c_mstate (sv_client s3 c) = c_mstate (sv_client s2 c)"
    then show "wp (run_queued (cmd_proc (c_cmd (sv_client s2 c))) c s3)
        (\<lambda>s4. serves W c s3 s4 \<and> c_mstate (sv_client s4 c) = ms)"
      using run_queued_serves [of s3 W c cmd] j(2) by (simp add: cl2 c1)
  qed
  then have rest: "wp (call_with run_queued c s2) (\<lambda>s3. wp (exec_loop run_queued c js (mp \<or> start)
      (upd_client c (\<lambda>cl. cl\<lparr>c_mstate := (c_mstate cl)[j := (c_argv cl, c_cmd cl)]\<rparr>) s3)) (\<lambda>(mp', s'). serves W c s s'))"
  proof (rule wp_mono, elim conjE)
    fix s3
    assume s3: "serves W c s2 s3" "c_mstate (sv_client s3 c) = ms"
    define s4 where "s4 = upd_client c (\<lambda>cl. cl\<lparr>c_mstate := (c_mstate cl)[j := (c_argv cl, c_cmd cl)]\<rparr>) s3"
    have "serves W c s3 s4" unfolding s4_def by (rule serves_client [OF serves_ok [OF s3(1)]]) simp_all
    then have s4: "serves W c s s4" using s2 s3(1) by (blast intro: serves_trans)
    have ms4: "c_mstate (sv_client s4 c) = ms[j := (c_argv (sv_client s3 c), c_cmd (sv_client s3 c))]"
      by (simp add: s4_def upd_client_def s3(2))
    have "wp (exec_loop run_queued c js (mp \<or> start) s4) (\<lambda>(mp', s'). serves W c s4 s')"
    proof (rule Cons.IH [OF serves_ok [OF s4]])
      show "distinct js" using Cons.prems(2) by simp
      show "i < length (c_mstate (sv_client s4 c)) \<and> tame W c (c_mstate (sv_client s4 c) ! i)" if "i \<in> set js" for i
        using Cons.prems(2,3) that by (auto simp: ms4 ms_def nth_list_update)
    qed
    then show "wp (exec_loop run_queued c js (mp \<or> start) s4) (\<lambda>(mp', s'). serves W c s s')"
      by (rule wp_mono) (use s4 serves_trans in blast)
  qed
  show ?case
    unfolding exec_loop.simps Let_def q [unfolded ms_def] prod.case s1_def [symmetric] start_def [symmetric]
      s2_def [symmetric] wp_bind
    by (rule rest)
qed

lemma discardTransaction_serves:
  assumes ok: "server_ok s" and out: "c \<notin> W"
  shows "wp (discardTransaction c s) (\<lambda>s'. serves W c s s' \<and> c_mstate (sv_client s' c) = [])"
proof -
  define s1 where "s1 = upd_client c (\<lambda>cl. cl\<lparr>c_mstate := []\<rparr>) s"
  define s2 where "s2 = upd_client c (c_flags_update (\<lambda>f. f - {REDIS_MULTI, REDIS_DIRTY_CAS, REDIS_DIRTY_EXEC})) s1"
  have s1: "serves W c s s1" unfolding s1_def by (rule serves_client [OF ok]) simp_all
  have "serves W c s1 s2" unfolding s2_def by (rule serves_client [OF serves_ok [OF s1]]) (use out in simp_all)
  with s1 have s2: "serves W c s s2" by (rule serves_trans)
  have "c_mstate (sv_client s2 c) = []" by (simp add: s2_def s1_def upd_client_def)
  then have "besides_watch s' = besides_watch s2 \<Longrightarrow> c_mstate (sv_client s' c) = []" for s'
    using besidesD(1) by metis
  then show ?thesis
    unfolding discardTransaction_def s1_def [symmetric] s2_def [symmetric] Let_def
    by (intro wp_mono [OF unwatch_serves [OF serves_ok [OF s2] out]]) (use s2 serves_trans in blast)
qed

lemma exec_monitor_serves: "server_ok s \<Longrightarrow> serves W c s (exec_handle_monitor c s)"
  by (rule serves_logs) (simp_all add: exec_handle_monitor_def monitors_same)

lemma exec_monitor_client: "sv_client (exec_handle_monitor c s) = sv_client s"
  by (simp add: exec_handle_monitor_def monitors_same)

lemma execCommand_serves:
  assumes ok: "server_ok s" and out: "c \<notin> W" and q: "\<And>x. x \<in> set (c_mstate (sv_client s c)) \<Longrightarrow> tame W c x"
  shows "wp (execCommand run_queued c s) (\<lambda>s'. serves W c s s' \<and>
    (\<forall>x \<in> set (c_mstate (sv_client s' c)). tame W c x))"
proof -
  have reply: "serves W c s (addReplyError c e s)" "serves W c s (addReply c r s)" for e r
    by (rule serves_view [OF _ ok], simp)+
  have end1: "wp (discardTransaction c s1) (\<lambda>s2. wp (Some (exec_handle_monitor c (if b then add_dirty 1 s2 else s2)))
      (\<lambda>s'. serves W c s s' \<and> (\<forall>x \<in> set (c_mstate (sv_client s' c)). tame W c x)))"
    if s1: "serves W c s s1" for s1 b
  proof (rule wp_mono [OF discardTransaction_serves [OF serves_ok [OF s1] out]], elim conjE)
    fix s2
    assume s2: "serves W c s1 s2" "c_mstate (sv_client s2 c) = []"
    define s3 where "s3 = (if b then add_dirty 1 s2 else s2)"
    have "serves W c s2 s3"
      by (rule serves_logs [OF serves_ok [OF s2(1)]]) (simp_all add: s3_def add_dirty_def fixed_def)
    moreover note exec_monitor_serves [OF serves_ok [OF this]]
    ultimately have "serves W c s (exec_handle_monitor c s3)" using s1 s2(1) by (blast intro: serves_trans)
    then show "wp (Some (exec_handle_monitor c s3))
        (\<lambda>s'. serves W c s s' \<and> (\<forall>x \<in> set (c_mstate (sv_client s' c)). tame W c x))"
      using s2(2) by (simp add: exec_monitor_client s3_def add_dirty_def)
  qed
  have main: "wp (unwatchAllKeys c s) (\<lambda>s1. wp (do {
      (must_propagate, s) \<leftarrow> exec_loop run_queued c [0..<length (c_mstate (sv_client s1 c))] False
        (addReplyMultiBulkLen c (int (length (c_mstate (sv_client s1 c)))) s1);
      let s = upd_client c (\<lambda>cl. cl\<lparr>c_argv := c_argv (sv_client s1 c), c_cmd := c_cmd (sv_client s1 c)\<rparr>) s;
      s \<leftarrow> discardTransaction c s;
      Some (exec_handle_monitor c (if must_propagate then add_dirty 1 s else s))
    }) (\<lambda>s'. serves W c s s' \<and> (\<forall>x \<in> set (c_mstate (sv_client s' c)). tame W c x)))"
  proof (rule wp_mono [OF unwatch_serves [OF ok out]], elim conjE)
    fix s1
    assume s1: "serves W c s s1" "besides_watch s1 = besides_watch s"
    have ms: "c_mstate (sv_client s1 c) = c_mstate (sv_client s c)"
      by (rule besidesD(1) [OF s1(2)])
    define s2 where "s2 = addReplyMultiBulkLen c (int (length (c_mstate (sv_client s1 c)))) s1"
    have v2: "view s2 = view s1" by (simp add: s2_def)
    have "serves W c s1 s2" by (rule serves_view [OF v2 serves_ok [OF s1(1)]])
    with s1(1) have s2: "serves W c s s2" by (rule serves_trans)
    have ms2: "c_mstate (sv_client s2 c) = c_mstate (sv_client s c)"
      using viewD(2) [OF v2] ms by simp
    have "wp (exec_loop run_queued c [0..<length (c_mstate (sv_client s1 c))] False s2) (\<lambda>(mp, s3). serves W c s2 s3)"
      using q by (intro exec_loop_serves [OF serves_ok [OF s2]]) (simp_all add: ms ms2)
    then have "wp (exec_loop run_queued c [0..<length (c_mstate (sv_client s1 c))] False s2)
        (\<lambda>(mp, s3). serves W c s (upd_client c (\<lambda>cl. cl\<lparr>c_argv := av, c_cmd := cm\<rparr>) s3))" for cm av
    proof (rule wp_mono, clarify)
      fix mp s3
      assume s3: "serves W c s2 s3"
      have "serves W c s3 (upd_client c (\<lambda>cl. cl\<lparr>c_argv := av, c_cmd := cm\<rparr>) s3)"
        by (rule serves_client [OF serves_ok [OF s3]]) simp_all
      then show "serves W c s (upd_client c (\<lambda>cl. cl\<lparr>c_argv := av, c_cmd := cm\<rparr>) s3)"
        using s2 s3 by (blast intro: serves_trans)
    qed
    note loop = this [where av = "c_argv (sv_client s1 c)" and cm = "c_cmd (sv_client s1 c)"]
    show "wp (do {
        (must_propagate, s) \<leftarrow> exec_loop run_queued c [0..<length (c_mstate (sv_client s1 c))] False s2;
        let s = upd_client c (\<lambda>cl. cl\<lparr>c_argv := c_argv (sv_client s1 c), c_cmd := c_cmd (sv_client s1 c)\<rparr>) s;
        s \<leftarrow> discardTransaction c s;
        Some (exec_handle_monitor c (if must_propagate then add_dirty 1 s else s))
      }) (\<lambda>s'. serves W c s s' \<and> (\<forall>x \<in> set (c_mstate (sv_client s' c)). tame W c x))"
      unfolding wp_bind
    proof (rule wp_mono [OF loop], unfold split_paired_all prod.case Let_def wp_bind)
    qed (rule end1)
  qed
  show ?thesis
    using reply(1) q end1 [OF reply(2), where b = False] main viewD(2) [OF view_replies(1)]
    by (simp add: execCommand_def Let_def)
qed


section \<open>The transaction commands\<close>

lemma multiCommand_serves:
  assumes ok: "server_ok s"
  shows "wp (multiCommand c s) (\<lambda>s'. serves W c s s' \<and> c_mstate (sv_client s' c) = c_mstate (sv_client s c))"
proof -
  define s1 where "s1 = upd_client c (c_flags_update (insert REDIS_MULTI)) s"
  have s1: "serves W c s s1" unfolding s1_def by (rule serves_client [OF ok]) simp_all
  have "serves W c s1 (addReply c shared_ok s1)" by (rule serves_view [OF _ serves_ok [OF s1]]) simp
  with s1 have "serves W c s (addReply c shared_ok s1)" by (rule serves_trans)
  moreover have "serves W c s (addReplyError c e s)" for e by (rule serves_view [OF _ ok]) simp
  ultimately show ?thesis
    using viewD(2) [OF view_replies(1)] viewD(2) [OF view_reply(2) [of c shared_ok s1]]
    by (simp add: multiCommand_def s1_def Let_def) (simp add: upd_client_def)
qed

lemma discardCommand_serves:
  assumes ok: "server_ok s" and out: "c \<notin> W" and q: "\<And>x. x \<in> set (c_mstate (sv_client s c)) \<Longrightarrow> tame W c x"
  shows "wp (discardCommand c s) (\<lambda>s'. serves W c s s' \<and> (\<forall>x \<in> set (c_mstate (sv_client s' c)). tame W c x))"
proof -
  have "wp (discardTransaction c s) (\<lambda>s1. serves W c s (addReply c shared_ok s1) \<and>
      (\<forall>x \<in> set (c_mstate (sv_client (addReply c shared_ok s1) c)). tame W c x))"
  proof (rule wp_mono [OF discardTransaction_serves [OF ok out]], elim conjE)
    fix s1
    assume s1: "serves W c s s1" "c_mstate (sv_client s1 c) = []"
    have "serves W c s1 (addReply c shared_ok s1)" by (rule serves_view [OF _ serves_ok [OF s1(1)]]) simp
    then show "serves W c s (addReply c shared_ok s1) \<and>
        (\<forall>x \<in> set (c_mstate (sv_client (addReply c shared_ok s1) c)). tame W c x)"
      using s1 viewD(2) [OF view_reply(2)] by (auto intro: serves_trans)
  qed
  moreover have "serves W c s (addReplyError c e s)" for e by (rule serves_view [OF _ ok]) simp
  ultimately show ?thesis
    using q viewD(2) [OF view_replies(1)] by (simp add: discardCommand_def)
qed

lemma watch_fold_ok:
  assumes "server_ok s" "c \<in> set (sv_clients s)"
  shows "server_ok (fold (watchForKey c) ks s) \<and> besides_watch (fold (watchForKey c) ks s) = besides_watch s \<and>
    (\<forall>w. w \<noteq> c \<longrightarrow> sv_client (fold (watchForKey c) ks s) w = sv_client s w) \<and>
    set (c_watched (sv_client s c)) \<union> (\<lambda>k. (k, client_db s c)) ` set ks
      \<subseteq> set (c_watched (sv_client (fold (watchForKey c) ks s) c))"
  using assms
proof (induction ks arbitrary: s)
  case (Cons k ks)
  define s1 where "s1 = watchForKey c k s"
  note w = watchForKey_ok [OF Cons.prems, of k, folded s1_def]
  have other: "\<forall>w. w \<noteq> c \<longrightarrow> sv_client s1 w = sv_client s w"
    by (simp add: s1_def watchForKey_def Let_def) (simp add: upd_client_def upd_db_def)
  have "client_db s1 c = client_db s c" "sv_clients s1 = sv_clients s"
    using w besidesD(4) [of s1 s] by (simp_all add: besides_watch_def client_db_def fixed_def) (auto dest: fun_cong [of _ _ c])
  then have rest: "server_ok (fold (watchForKey c) ks s1)" "besides_watch (fold (watchForKey c) ks s1) = besides_watch s1"
    "\<forall>w. w \<noteq> c \<longrightarrow> sv_client (fold (watchForKey c) ks s1) w = sv_client s1 w"
    "set (c_watched (sv_client s1 c)) \<union> (\<lambda>k. (k, client_db s c)) ` set ks
      \<subseteq> set (c_watched (sv_client (fold (watchForKey c) ks s1) c))"
    using Cons.IH [of s1] w Cons.prems(2) by simp_all
  have "set (c_watched (sv_client s c)) \<union> (\<lambda>k. (k, client_db s c)) ` set (k # ks)
      \<subseteq> set (c_watched (sv_client (fold (watchForKey c) ks s1) c))"
    using w rest(4) by (simp del: Un_subset_iff) blast
  then show ?case using rest(1-3) w other unfolding fold.simps comp_apply s1_def [symmetric] by simp
qed simp

lemma watchCommand_serves:
  assumes ok: "server_ok s" and live: "c \<in> set (sv_clients s)"
  shows "wp (watchCommand c s) (\<lambda>s'. serves W c s s' \<and> c_mstate (sv_client s' c) = c_mstate (sv_client s c))"
proof -
  define s1 where "s1 = fold (watchForKey c) (map (arg s c) [1..<argc s c]) s"
  note w = watch_fold_ok [OF ok live, of "map (arg s c) [1..<argc s c]", folded s1_def]
  have s1: "serves W c s s1" by (rule serves_besides) (use w in auto)
  have "serves W c s1 (addReply c shared_ok s1)" by (rule serves_view [OF _ serves_ok [OF s1]]) simp
  with s1 have "serves W c s (addReply c shared_ok s1)" by (rule serves_trans)
  moreover have "serves W c s (addReplyError c e s)" for e by (rule serves_view [OF _ ok]) simp
  moreover have "c_mstate (sv_client s1 c) = c_mstate (sv_client s c)" using w besidesD(1) by blast
  ultimately show ?thesis
    using viewD(2) [OF view_replies(1)] viewD(2) [OF view_reply(2) [of c shared_ok s1]]
    by (simp add: watchCommand_def s1_def [symmetric])
qed

lemma run_command_serves:
  assumes ok: "server_ok s" and live: "c \<in> set (sv_clients s)"
    and q: "\<And>x. x \<in> set (c_mstate (sv_client s c)) \<Longrightarrow> tame W c x"
    and a: "allowed W c (c_argv (sv_client s c), cmd)"
  shows "wp (run_command (cmd_proc cmd) c s) (\<lambda>s'. serves W c s s' \<and> (\<forall>x \<in> set (c_mstate (sv_client s' c)). tame W c x))"
proof -
  have keep: "wp x (\<lambda>s'. serves W c s s' \<and> (\<forall>x \<in> set (c_mstate (sv_client s' c)). tame W c x))"
    if "wp x (\<lambda>s'. serves W c s s' \<and> c_mstate (sv_client s' c) = c_mstate (sv_client s c))" for x
    using that by (rule wp_mono) (simp add: q)
  consider (tame) "tame W c (c_argv (sv_client s c), cmd)" | (exec) "cmd_proc cmd = ''execCommand''" "c \<notin> W"
    | (multi) "cmd_proc cmd = ''multiCommand''" | (discard) "cmd_proc cmd = ''discardCommand''" "c \<notin> W"
    | (watch) "cmd_proc cmd = ''watchCommand''"
    using a by (auto simp: allowed_def)
  then show ?thesis
  proof cases
    case tame
    then have "cmd_proc cmd \<noteq> ''execCommand''" by (auto simp: tame_def data_procs_def set_procs_def)
    then have "run_command (cmd_proc cmd) c s = run_queued (cmd_proc cmd) c s" by (simp add: run_command_def)
    then show ?thesis using keep [OF run_queued_serves [OF ok tame]] by simp
  next
    case exec
    then show ?thesis using execCommand_serves [OF ok exec(2) q] by (simp add: run_command_def)
  next
    case multi
    then show ?thesis using keep [OF multiCommand_serves [OF ok]] by (simp add: run_command_def run_others)
  next
    case discard
    then show ?thesis using discardCommand_serves [OF ok discard(2) q] by (simp add: run_command_def run_others)
  next
    case watch
    then show ?thesis using keep [OF watchCommand_serves [OF ok live]] by (simp add: run_command_def run_others)
  qed
qed

section \<open>Requests\<close>

text \<open>What holds after every refusal and after the execution holds after the checks.\<close>

lemma checks_wp:
  assumes "\<And>r. P (addReply c r s)" "\<And>e. P (addReplyError c e s)" "\<And>r. P (addReply c r (flagTransaction c s))"
    "\<And>t. P (addReplySds c t (flagTransaction c s))" "wp (process_exec c s) P" "maxmemory s = 0"
  shows "wp (process_checks c s) P"
proof -
  have "P ((if b then addReply c r else addReplySds c t) (flagTransaction c s))" for b r t
    using assms(3,4) by simp
  then show ?thesis
    unfolding process_checks_def Let_def
    by (simp only: wp_if wp_Some assms simp_thms if_cancel if_False)
qed

lemma process_wp:
  assumes "P (upd_client c (c_flags_update (insert REDIS_CLOSE_AFTER_REPLY)) (addReply c shared_ok s))"
    and "\<And>t. lookupCommand s (arg s c 0) = None \<Longrightarrow> P (addReplyErrorFormat c t (flagTransaction c s))"
    and "\<And>cmd t. lookupCommand s (arg s c 0) = Some cmd \<Longrightarrow>
      P (addReplyErrorFormat c t (flagTransaction c (upd_client c (\<lambda>cl. cl\<lparr>c_cmd := cmd\<rparr>) s)))"
    and "\<And>cmd. lookupCommand s (arg s c 0) = Some cmd \<Longrightarrow> wp (process_checks c (upd_client c (\<lambda>cl. cl\<lparr>c_cmd := cmd\<rparr>) s)) P"
  shows "wp (processCommand c s) (\<lambda>(b, s'). P s')"
  using assms by (cases "lookupCommand s (arg s c 0)") (simp_all add: processCommand_def Let_def)

text \<open>The result of serving: the effects above, and a queue of tame commands.\<close>

definition served :: "nat set \<Rightarrow> nat \<Rightarrow> server \<Rightarrow> server \<Rightarrow> bool" where
  "served W c s s' \<longleftrightarrow> serves W c s s' \<and> (\<forall>x \<in> set (c_mstate (sv_client s' c)). tame W c x)"

definition waiting :: "nat set \<Rightarrow> nat \<Rightarrow> server \<Rightarrow> bool" where
  "waiting W c s \<longleftrightarrow> server_ok s \<and> c \<in> set (sv_clients s) \<and> (\<forall>x \<in> set (c_mstate (sv_client s c)). tame W c x)"

lemma served_view: "served W c s s1 \<Longrightarrow> view s2 = view s1 \<Longrightarrow> served W c s s2"
  unfolding served_def using serves_view [of s2 s1 W c] viewD(2) [of s2 s1 c] serves_trans serves_ok by metis

lemma served_trans: "serves W c s s1 \<Longrightarrow> served W c s1 s2 \<Longrightarrow> served W c s s2"
  unfolding served_def using serves_trans by blast

lemma served_client:
  assumes "waiting W c s" "\<And>cl. c_watched (f cl) = c_watched cl \<and> c_db (f cl) = c_db cl \<and> c_flags cl \<subseteq> c_flags (f cl)"
    "\<forall>x \<in> set (c_mstate (f (sv_client s c))). tame W c x"
  shows "served W c s (upd_client c f s)"
proof -
  have "serves W c s (upd_client c f s)"
    using assms(1,2) by (intro serves_client) (auto simp: waiting_def)
  then show ?thesis using assms(3) by (simp add: served_def) (simp add: upd_client_def)
qed

lemma served_flag: "waiting W c s \<Longrightarrow> served W c s (flagTransaction c s)"
  using served_client [of W c s "c_flags_update (insert REDIS_DIRTY_EXEC)"] serves_refl [of s W c]
  by (auto simp: flagTransaction_def waiting_def served_def)

lemma served_refl: "waiting W c s \<Longrightarrow> served W c s s"
  by (simp add: waiting_def served_def serves_refl)

lemma process_exec_served:
  assumes w: "waiting W c s" and a: "allowed W c (c_argv (sv_client s c), c_cmd (sv_client s c))"
  shows "wp (process_exec c s) (served W c s)"
proof (cases "REDIS_MULTI \<in> c_flags (sv_client s c) \<and> cmd_proc (c_cmd (sv_client s c)) \<notin>
    {''execCommand'', ''discardCommand'', ''multiCommand'', ''watchCommand''}")
  case True
  then have "tame W c (c_argv (sv_client s c), c_cmd (sv_client s c))" using a by (auto simp: allowed_def)
  then have "served W c s (queueMultiCommand c s)"
    unfolding queueMultiCommand_def using w by (intro served_client) (auto simp: waiting_def)
  then have "served W c s (addReply c shared_queued (queueMultiCommand c s))" by (rule served_view) simp
  then show ?thesis using True by (simp add: process_exec_def)
next
  case False
  have "wp (call c s) (\<lambda>s'. serves W c s s' \<and> (\<forall>x \<in> set (c_mstate (sv_client s' c)). tame W c x))"
    unfolding call_def
  proof (rule call_with_serves)
    fix s1
    assume "server_ok s1" "fixed s1 = fixed s" "c_argv (sv_client s1 c) = c_argv (sv_client s c)"
      "c_mstate (sv_client s1 c) = c_mstate (sv_client s c)"
    then show "wp (run_command (cmd_proc (c_cmd (sv_client s c))) c s1)
        (\<lambda>s2. serves W c s1 s2 \<and> (\<forall>x \<in> set (c_mstate (sv_client s2 c)). tame W c x))"
      using w a by (intro run_command_serves) (auto simp: waiting_def fixed_def)
  qed (use w in \<open>simp add: waiting_def\<close>)
  then have "wp (call c s) (served W c s)" by (rule wp_mono) (simp add: served_def)
  then show ?thesis using False by (auto simp: process_exec_def Let_def)
qed

lemma process_checks_served:
  assumes w: "waiting W c s" and a: "allowed W c (c_argv (sv_client s c), c_cmd (sv_client s c))"
    and mem: "maxmemory s = 0"
  shows "wp (process_checks c s) (served W c s)"
proof -
  have "served W c s (addReply c r s)" "served W c s (addReplyError c e s)" for r e
    by (rule served_view [OF served_refl [OF w]], simp)+
  moreover have "served W c s (addReply c r (flagTransaction c s))" "served W c s (addReplySds c t (flagTransaction c s))" for r t
    by (rule served_view [OF served_flag [OF w]], simp)+
  ultimately show ?thesis using process_exec_served [OF w a] mem by (intro checks_wp)
qed

text \<open>What the model covers: no memory limit, and a modelled command (not MOVE while a client is observed).\<close>

definition acceptable :: "nat set \<Rightarrow> server \<Rightarrow> nat \<Rightarrow> bool" where
  "acceptable W s c \<longleftrightarrow> maxmemory s = 0 \<and>
     (case lookupCommand s (arg s c 0) of None \<Rightarrow> True | Some cmd \<Rightarrow> allowed W c (c_argv (sv_client s c), cmd))"

lemma processCommand_served:
  assumes w: "waiting W c s" and a: "acceptable W s c"
  shows "wp (processCommand c s) (\<lambda>(r, s'). served W c s s')"
proof -
  have quit: "served W c s (upd_client c (c_flags_update (insert REDIS_CLOSE_AFTER_REPLY)) (addReply c r s))" for r
  proof -
    have v: "served W c s (addReply c r s)" by (rule served_view [OF served_refl [OF w]]) simp
    have "waiting W c (addReply c r s)"
      using v w viewD(2) [OF view_reply(2)] viewD(8) [OF view_reply(2) [of c r s]] unfolding served_def waiting_def serves_def
      by (simp add: fixed_def)
    then have "served W c (addReply c r s) (upd_client c (c_flags_update (insert REDIS_CLOSE_AFTER_REPLY)) (addReply c r s))"
      by (rule served_client) (use v in \<open>auto simp: served_def\<close>)
    then show ?thesis using v by (auto simp: served_def intro: serves_trans)
  qed
  show ?thesis
  proof (rule process_wp)
    show "served W c s (addReplyErrorFormat c t (flagTransaction c s))" for t
      by (rule served_view [OF served_flag [OF w]]) simp
    fix cmd
    assume Some: "lookupCommand s (arg s c 0) = Some cmd"
    define s1 where "s1 = upd_client c (\<lambda>cl. cl\<lparr>c_cmd := cmd\<rparr>) s"
    have s1: "served W c s s1" unfolding s1_def using w by (intro served_client) (auto simp: waiting_def)
    then have w1: "waiting W c s1"
      using w by (simp add: served_def waiting_def serves_def) (simp add: fixed_def)
    have a1: "allowed W c (c_argv (sv_client s1 c), c_cmd (sv_client s1 c))" "maxmemory s1 = 0"
      using a Some by (simp_all add: acceptable_def s1_def upd_client_def)
    have "served W c s1 (addReplyErrorFormat c t (flagTransaction c s1))" for t
      by (rule served_view [OF served_flag [OF w1]]) simp
    then show "served W c s (addReplyErrorFormat c t (flagTransaction c (upd_client c (\<lambda>cl. cl\<lparr>c_cmd := cmd\<rparr>) s)))" for t
      unfolding s1_def [symmetric] using s1 served_trans served_def by metis
    show "wp (process_checks c (upd_client c (\<lambda>cl. cl\<lparr>c_cmd := cmd\<rparr>) s)) (served W c s)"
      unfolding s1_def [symmetric]
      using process_checks_served [OF w1 a1] by (rule wp_mono) (use s1 served_trans served_def in metis)
  qed (rule quit)
qed

end
