(* ===== verification/Sessions.thy ===== *)
theory Sessions
  imports Serving Command_Table
begin

text \<open>
  Sequences of requests from any number of clients, and the end-to-end properties: the server
  never aborts, an observed client's transaction does not go through once a key it watches
  changed, every change is propagated, and refused requests change nothing.
\<close>

section \<open>Sequences of requests\<close>

text \<open>A request is a client and its argument vector.\<close>

definition receive :: "nat \<Rightarrow> strobj list \<Rightarrow> server \<Rightarrow> server" where
  "receive c av = upd_client c (\<lambda>cl. cl\<lparr>c_argv := av\<rparr>)"

fun serve :: "(nat \<times> strobj list) list \<Rightarrow> server \<Rightarrow> server option" where
  "serve [] s = Some s"
| "serve ((c, av) # rs) s = do {
     (_, s) \<leftarrow> processCommand c (receive c av s);
     serve rs s
   }"

text \<open>
  The queues hold modelled commands; the request is from a connected client and within the
  model.  The clients in \<open>W\<close> are observed: they may not stop watching, and no one may MOVE.
\<close>

definition ready :: "nat set \<Rightarrow> server \<Rightarrow> bool" where
  "ready W s \<longleftrightarrow> server_ok s \<and> (\<forall>w. \<forall>x \<in> set (c_mstate (sv_client s w)). tame W w x)"

definition request_ok :: "nat set \<Rightarrow> server \<Rightarrow> nat \<times> strobj list \<Rightarrow> bool" where
  "request_ok W s r \<longleftrightarrow> fst r \<in> set (sv_clients s) \<and> acceptable W (receive (fst r) (snd r) s) (fst r)"

lemma request_ok_fixed: "fixed s' = fixed s \<Longrightarrow> request_ok W s' r = request_ok W s r"
  by (simp add: request_ok_def acceptable_def receive_def upd_client_def arg_def argv_def lookupCommand_def fixed_def
      cong: option.case_cong)

lemma request_served:
  assumes ready: "ready W s" and r: "request_ok W s (c, av)"
  shows "wp (processCommand c (receive c av s)) (\<lambda>(b, s'). serves W c s s' \<and> ready W s')"
proof -
  define s1 where "s1 = receive c av s"
  have s1: "serves W c s s1"
    unfolding s1_def receive_def by (rule serves_client) (use ready in \<open>simp_all add: ready_def\<close>)
  have ms: "c_mstate (sv_client s1 w) = c_mstate (sv_client s w)" for w
    by (simp add: s1_def receive_def upd_client_def)
  have live: "c \<in> set (sv_clients s1)" using r s1 by (simp add: request_ok_def serves_def fixed_def)
  have "waiting W c s1" using ready ms live serves_ok [OF s1] by (simp add: waiting_def ready_def)
  moreover have "acceptable W s1 c" using r by (simp add: request_ok_def s1_def)
  ultimately have "wp (processCommand c s1) (\<lambda>(b, s'). served W c s1 s')" by (rule processCommand_served)
  then show ?thesis
    unfolding s1_def [symmetric]
  proof (rule wp_mono, clarify)
    fix b s'
    assume s': "served W c s1 s'"
    then have serves: "serves W c s s'" using s1 serves_trans by (auto simp: served_def)
    have "tame W w x" if "x \<in> set (c_mstate (sv_client s' w))" for w x
    proof (cases "w = c")
      case True
      then show ?thesis using s' that by (simp add: served_def)
    next
      case False
      then have "c_mstate (sv_client s' w) = c_mstate (sv_client s w)"
        using serves by (simp add: serves_def client_le_def)
      then show ?thesis using ready that by (simp add: ready_def)
    qed
    then show "serves W c s s' \<and> ready W s'" using serves by (auto simp: ready_def intro: serves_ok)
  qed
qed

lemma serve_ok:
  "ready W s \<Longrightarrow> (\<And>r. r \<in> set rs \<Longrightarrow> request_ok W s r) \<Longrightarrow>
   wp (serve rs s) (\<lambda>s'. ready W s' \<and> fixed s' = fixed s \<and> (\<forall>w \<in> W. watching w s s'))"
proof (induction rs arbitrary: s)
  case Nil
  then show ?case by (simp add: watching_refl)
next
  case (Cons r rs)
  obtain c av where r: "r = (c, av)" by fastforce
  have rest: "wp (serve rs s1) (\<lambda>s'. ready W s' \<and> fixed s' = fixed s \<and> (\<forall>w \<in> W. watching w s s'))"
    if s1: "serves W c s s1 \<and> ready W s1" for s1
  proof -
    have "request_ok W s1 q" if "q \<in> set rs" for q
      using Cons.prems(2) [of q] that request_ok_fixed [OF serves_fixed [OF conjunct1 [OF s1]], of W q] by simp
    then have "wp (serve rs s1) (\<lambda>s'. ready W s' \<and> fixed s' = fixed s1 \<and> (\<forall>w \<in> W. watching w s1 s'))"
      using s1 by (intro Cons.IH) simp_all
    then show ?thesis
      by (rule wp_mono) (use s1 in \<open>auto simp: serves_def intro: watching_trans\<close>)
  qed
  show ?case
    unfolding r serve.simps wp_bind
  proof (rule wp_mono [OF request_served [OF Cons.prems(1)]], unfold split_paired_all prod.case)
    show "request_ok W s (c, av)" using Cons.prems(2) [of r] r by simp
  qed (rule rest)
qed

section \<open>A failed EXEC\<close>

lemma discard_keeps:
  assumes ok: "server_ok s"
  shows "wp (discardTransaction c s) (\<lambda>s'. (\<forall>d k. content s' d k = content s d k) \<and> repl_log s' = repl_log s \<and>
    REDIS_MULTI \<notin> c_flags (sv_client s' c))"
proof -
  define s1 where "s1 = upd_client c (c_flags_update (\<lambda>f. f - {REDIS_MULTI, REDIS_DIRTY_CAS, REDIS_DIRTY_EXEC}))
    (upd_client c (\<lambda>cl. cl\<lparr>c_mstate := []\<rparr>) s)"
  have own: "server_ok s \<Longrightarrow> (\<And>cl. c_watched (f cl) = c_watched cl \<and> c_db (f cl) = c_db cl) \<Longrightarrow>
      server_ok (upd_client c f s)" for f s
    using serves_ok [OF serves_client [where W = "{}"]] by simp
  have ok1: "server_ok s1" unfolding s1_def by (rule own [OF own [OF ok]]) simp_all
  have e1: "content s1 d k = content s d k" for d k by (simp add: s1_def content_def)
  have f1: "REDIS_MULTI \<notin> c_flags (sv_client s1 c)" by (simp add: s1_def upd_client_def)
  show ?thesis
    unfolding discardTransaction_def Let_def s1_def [symmetric]
  proof (rule wp_mono [OF unwatchAllKeys_ok [OF ok1]], elim conjE)
    fix s'
    assume "besides_watch s' = besides_watch s1"
    note b = besidesD [OF this]
    have "repl_log s' = repl_log s" using \<open>besides_watch s' = besides_watch s1\<close> by (simp add: besides_watch_def s1_def)
    then show "(\<forall>d k. content s' d k = content s d k) \<and> repl_log s' = repl_log s \<and> REDIS_MULTI \<notin> c_flags (sv_client s' c)"
      using e1 f1 by (simp add: b)
  qed
qed

lemma exec_refused:
  assumes ok: "server_ok s" and cas: "REDIS_DIRTY_CAS \<in> c_flags (sv_client s c)"
  shows "wp (execCommand run_queued c s) (\<lambda>s'. \<forall>d k. content s' d k = content s d k)"
proof -
  have v: "content (addReply c r s) d k = content s d k" for r d k
    using viewD(5) [OF view_reply(2) [of c r s]] by (simp add: content_def)
  have v': "content (addReplyError c r s) d k = content s d k" for r d k
    using viewD(5) [OF view_replies(1) [of c r s]] by (simp add: content_def)
  have mon: "content (exec_handle_monitor c s) d k = content s d k" for s d k
    by (simp add: exec_handle_monitor_def monitors_same content_def)
  have "server_ok (addReply c r s)" for r
    using serves_view [OF view_reply(2) ok] serves_ok by blast
  then have "wp (discardTransaction c (addReply c r s)) (\<lambda>s'. \<forall>d k. content (exec_handle_monitor c s') d k = content s d k)" for r
    by (intro wp_mono [OF discard_keeps]) (auto simp: mon v)
  then show ?thesis using cas v' by (simp add: execCommand_def Let_def)
qed

section \<open>Propagation of changes\<close>

definition same_data :: "server \<Rightarrow> server \<Rightarrow> bool" where
  "same_data s s' \<longleftrightarrow> (\<forall>d k. content s' d k = content s d k)"

text \<open>If the data changed, something was sent to the slaves.\<close>

definition grows :: "server \<Rightarrow> server \<Rightarrow> bool" where
  "grows s s' \<longleftrightarrow> length (repl_log s) \<le> length (repl_log s') \<and>
     (\<not> same_data s s' \<longrightarrow> length (repl_log s) < length (repl_log s'))"

lemma grows_trans: "grows s s1 \<Longrightarrow> grows s1 s2 \<Longrightarrow> grows s s2"
  by (auto simp: grows_def same_data_def)

lemma grows_quiet: "sv_db s' = sv_db s \<Longrightarrow> length (repl_log s) \<le> length (repl_log s') \<Longrightarrow> grows s s'"
  by (simp add: grows_def same_data_def content_def)

lemma grows_view: "view s' = view s \<Longrightarrow> grows s s'"
  using viewD(5,7) [of s' s] by (simp add: grows_quiet)

lemma grows_client: "grows s (upd_client c f s)"
  by (rule grows_quiet) simp_all

lemma grows_besides: "besides_watch s' = besides_watch s \<Longrightarrow> grows s s'"
proof -
  assume b: "besides_watch s' = besides_watch s"
  then have "repl_log s' = repl_log s" by (simp add: besides_watch_def)
  then show "grows s s'" using besidesD(3) [OF b] by (simp add: grows_def same_data_def)
qed

text \<open>FLUSHALL aside, whose count of changes may get lost.\<close>

definition counted :: "nat \<Rightarrow> strobj list \<times> redisCommand \<Rightarrow> bool" where
  "counted c q \<longleftrightarrow> tame {} c q \<and> cmd_proc (snd q) \<noteq> ''flushallCommand''"

lemma counted_tame: "counted c q \<Longrightarrow> tame {} c q"
  by (simp add: counted_def)

lemma run_logged:
  assumes ok: "server_ok s" and t: "counted c (c_argv (sv_client s c), cmd)"
  shows "wp (run_queued (cmd_proc cmd) c s) (\<lambda>s'. dirty s \<le> dirty s' \<and> length (repl_log s) \<le> length (repl_log s') \<and>
    (\<forall>d k. content s' d k \<noteq> content s d k \<longrightarrow> logged s s'))"
proof -
  have good: "good X False s s' \<Longrightarrow> dirty s \<le> dirty s' \<and> length (repl_log s) \<le> length (repl_log s') \<and>
    (\<forall>d k. content s' d k \<noteq> content s d k \<longrightarrow> logged s s')" for X s'
    unfolding good_def advance_def by blast
  consider (data) "cmd_proc cmd \<in> fst ` set data_procs" | (unwatch) "cmd_proc cmd = ''unwatchCommand''"
    | (setrange) "cmd_proc cmd = ''setrangeCommand''" "setrange_fits (c_argv (sv_client s c))"
    | (sets) "cmd_proc cmd \<in> fst ` set set_procs" "set_fits (cmd_proc cmd) (c_argv (sv_client s c))"
    | (move) "cmd_proc cmd = ''moveCommand''"
    using t by (auto simp: counted_def tame_def)
  then show ?thesis
  proof cases
    case data
    then obtain proc where "(cmd_proc cmd, proc) \<in> set data_procs" "run_queued (cmd_proc cmd) = proc"
      using run_data by blast
    then show ?thesis using wp_mono [OF data_procs_good [OF _ ok] good] by simp
  next
    case unwatch
    have "wp (unwatchCommand c s) (\<lambda>s'. dirty s' = dirty s \<and> repl_log s' = repl_log s \<and> (\<forall>d k. content s' d k = content s d k))"
      unfolding unwatchCommand_def wp_bind
    proof (rule wp_mono [OF unwatchAllKeys_ok [OF ok]], elim conjE)
      fix s1
      assume b: "besides_watch s1 = besides_watch s"
      define s2 where "s2 = upd_client c (c_flags_update (\<lambda>f. f - {REDIS_DIRTY_CAS})) s1"
      have "dirty s2 = dirty s" "repl_log s2 = repl_log s" "content s2 d k = content s d k" for d k
        using b besidesD(3) [OF b] by (simp_all add: s2_def besides_watch_def content_def)
      moreover note v = viewD [OF view_reply(2) [of c shared_ok s2]]
      ultimately have "dirty (addReply c shared_ok s2) = dirty s \<and> repl_log (addReply c shared_ok s2) = repl_log s \<and>
          (\<forall>d k. content (addReply c shared_ok s2) d k = content s d k)"
        by (simp add: content_def)
      then show "wp (let s = s2 in Some (addReply c shared_ok s))
          (\<lambda>s'. dirty s' = dirty s \<and> repl_log s' = repl_log s \<and> (\<forall>d k. content s' d k = content s d k))"
        by simp
    qed
    then have "wp (unwatchCommand c s) (\<lambda>s'. dirty s \<le> dirty s' \<and> length (repl_log s) \<le> length (repl_log s') \<and>
        (\<forall>d k. content s' d k \<noteq> content s d k \<longrightarrow> logged s s'))"
      by (rule wp_mono) simp
    then show ?thesis using unwatch by (simp add: run_others)
  next
    case setrange
    then have "wp (setrangeCommand c s) (good {} False s)"
      by (intro setrangeCommand_good [OF ok]) (simp add: setrange_fits_def argv_def arg_def)
    then show ?thesis using setrange(1) wp_mono [OF _ good] by (simp add: run_others)
  next
    case sets
    show ?thesis by (rule wp_mono [OF set_procs_good [OF ok sets] good])
  next
    case move
    have "wp (moveCommand c s) (\<lambda>s'. dirty s \<le> dirty s' \<and> length (repl_log s) \<le> length (repl_log s') \<and>
        (\<forall>d k. content s' d k \<noteq> content s d k \<longrightarrow> logged s s'))"
      by (rule wp_mono [OF moveCommand_good [OF ok]]) (elim exE, erule good)
    then show ?thesis using move by (simp add: run_others)
  qed
qed

lemma call_after_log:
  "length (repl_log s) \<le> length (repl_log (call_after c fl n s))"
  "n < dirty s \<Longrightarrow> length (repl_log s) < length (repl_log (call_after c fl n s))"
  by (auto simp: call_after_def Let_def propagate_def replicationFeedSlaves_def feedAppendOnlyFile_def ustime_def upd_client_def)

lemma grows_before: "grows s (call_before c s)"
  by (rule grows_quiet) (simp_all add: call_before_client)

lemma grows_after: "grows s (call_after c fl n s)"
  by (rule grows_quiet) (simp_all add: call_after_client call_after_log)

lemma call_grows:
  assumes "wp (proc (cmd_proc (c_cmd (sv_client s c))) c (call_before c s)) (grows (call_before c s))"
  shows "wp (call_with proc c s) (grows s)"
  unfolding call_parts wp_bind
  by (rule wp_mono [OF assms]) (simp, blast intro: grows_before grows_after grows_trans)

lemma call_logged:
  assumes ok: "server_ok s" and t: "counted c (c_argv (sv_client s c), c_cmd (sv_client s c))"
  shows "wp (call_with run_queued c s) (grows s)"
proof -
  define s1 where "s1 = call_before c s"
  have s1: "server_ok s1" using call_before_serves [OF ok] serves_ok unfolding s1_def by blast
  have e1: "content s1 d k = content s d k" "dirty s1 = dirty s" "repl_log s1 = repl_log s"
    "c_argv (sv_client s1 c) = c_argv (sv_client s c)" for d k
    by (simp_all add: s1_def content_def call_before_client)
  have "wp (run_queued (cmd_proc (c_cmd (sv_client s c))) c s1) (\<lambda>s2. dirty s1 \<le> dirty s2 \<and>
      length (repl_log s1) \<le> length (repl_log s2) \<and> (\<forall>d k. content s2 d k \<noteq> content s1 d k \<longrightarrow> logged s1 s2))"
    using t by (intro run_logged [OF s1]) (simp add: e1)
  then show ?thesis
    unfolding call_parts wp_bind s1_def [symmetric]
  proof (rule wp_mono, elim conjE)
    fix s2
    assume le: "length (repl_log s1) \<le> length (repl_log s2)"
      and log: "\<forall>d k. content s2 d k \<noteq> content s1 d k \<longrightarrow> logged s1 s2"
    define s3 where "s3 = call_after c (c_flags (sv_client s c)) (dirty s) s2"
    note l3 = call_after_log(1) [where s = s2 and c = c and fl = "c_flags (sv_client s c)" and n = "dirty s"]
      call_after_log(2) [where s = s2 and c = c and fl = "c_flags (sv_client s c)" and n = "dirty s"]
    have "length (repl_log s) < length (repl_log s3)" if "content s3 d k \<noteq> content s d k" for d k
    proof -
      have "content s2 d k \<noteq> content s1 d k" using that by (simp add: s3_def content_def call_after_client e1 [unfolded content_def])
      then have "dirty s < dirty s2 \<or> length (repl_log s1) < length (repl_log s2)"
        using log by (auto simp: logged_def e1)
      then show ?thesis using l3 le unfolding s3_def e1(3) by linarith
    qed
    then show "wp (Some s3) (grows s)"
      using le l3(1) unfolding e1(3) s3_def [symmetric] by (auto simp: grows_def same_data_def)
  qed
qed

section \<open>Requests that leave the data alone\<close>

lemma same_data_db: "sv_db s' = sv_db s \<Longrightarrow> same_data s s'"
  by (simp add: same_data_def content_def)

lemma same_replies:
  "same_data s (addReply c r s)" "same_data s (addReplyError c e s)" "same_data s (addReplyErrorFormat c t s)"
  "same_data s (addReplySds c t s)"
  by (rule same_data_db, rule viewD(5), simp)+

lemma same_flag: "same_data s (flagTransaction c s)"
  by (rule same_data_db) (simp add: flagTransaction_def)

lemma same_trans: "same_data s s1 \<Longrightarrow> same_data s1 s2 \<Longrightarrow> same_data s s2"
  by (simp add: same_data_def)

lemma same_call:
  "wp (run_command (cmd_proc (c_cmd (sv_client s c))) c (call_before c s)) (same_data s) \<Longrightarrow> wp (call c s) (same_data s)"
  unfolding call_def call_parts wp_bind by (erule wp_mono) (simp add: same_data_def content_def call_after_client)

lemma process_same:
  assumes cmd: "lookupCommand s (arg s c 0) = Some cmd" and mem: "maxmemory s = 0"
    and run: "wp (process_exec c (upd_client c (\<lambda>cl. cl\<lparr>c_cmd := cmd\<rparr>) s)) (same_data s)"
  shows "wp (processCommand c s) (\<lambda>(b, s'). same_data s s')"
proof (rule process_wp)
  show "same_data s (upd_client c (c_flags_update (insert REDIS_CLOSE_AFTER_REPLY)) (addReply c shared_ok s))"
    using same_replies(1) same_data_db client_neutral(1) same_trans by blast
  fix cmd' t
  assume "lookupCommand s (arg s c 0) = Some cmd'"
  then have [simp]: "cmd' = cmd" using cmd by simp
  define s1 where "s1 = upd_client c (\<lambda>cl. cl\<lparr>c_cmd := cmd\<rparr>) s"
  have s1: "same_data s s1" "maxmemory s1 = 0" using mem by (simp_all add: s1_def same_data_db) (simp add: upd_client_def)
  have eq: "same_data s1 = same_data s" using s1(1) by (auto simp: same_data_def fun_eq_iff)
  have flagged: "same_data s (addReply c r (flagTransaction c s1))" "same_data s (addReplySds c t (flagTransaction c s1))"
    "same_data s (addReplyErrorFormat c t (flagTransaction c s1))" for r t
    using same_trans [OF same_trans [OF s1(1) same_flag]] same_replies by blast+
  show "same_data s (addReplyErrorFormat c t (flagTransaction c (upd_client c (\<lambda>cl. cl\<lparr>c_cmd := cmd'\<rparr>) s)))"
    using flagged(3) by (simp add: s1_def)
  have "wp (process_checks c s1) (same_data s)"
    using run flagged s1(2) same_replies [where s = s1] unfolding s1_def [symmetric] eq by (intro checks_wp)
  then show "wp (process_checks c (upd_client c (\<lambda>cl. cl\<lparr>c_cmd := cmd'\<rparr>) s)) (same_data s)" by (simp add: s1_def)
qed (simp add: cmd)

lemma exec_request_same:
  assumes ok: "server_ok s" and cas: "REDIS_DIRTY_CAS \<in> c_flags (sv_client s c)"
    and cmd: "lookupCommand s (arg s c 0) = Some cmd" "cmd_proc cmd = ''execCommand''" and mem: "maxmemory s = 0"
  shows "wp (processCommand c s) (\<lambda>(b, s'). same_data s s')"
proof (rule process_same [OF cmd(1) mem])
  define s1 where "s1 = upd_client c (\<lambda>cl. cl\<lparr>c_cmd := cmd\<rparr>) s"
  have s1: "serves {c} c s s1" unfolding s1_def by (rule serves_client [OF ok]) simp_all
  define s2 where "s2 = call_before c s1"
  have "serves {c} c s1 s2" unfolding s2_def by (rule call_before_serves [OF serves_ok [OF s1]])
  with s1 have s2: "serves {c} c s s2" by (rule serves_trans)
  have "sv_db s2 = sv_db s1" "sv_db s1 = sv_db s" by (simp_all add: s2_def call_before_client s1_def)
  then have same: "same_data s2 = same_data s1" "same_data s1 = same_data s"
    by (simp_all add: same_data_def content_def fun_eq_iff)
  have "REDIS_DIRTY_CAS \<in> c_flags (sv_client s2 c)" using s2 cas by (simp add: serves_def watching_def)
  then have "wp (execCommand run_queued c s2) (same_data s2)"
    using exec_refused [OF serves_ok [OF s2]] by (simp add: same_data_def [abs_def])
  moreover have proc: "cmd_proc (c_cmd (sv_client s1 c)) = ''execCommand''" using cmd(2) by (simp add: s1_def upd_client_def)
  ultimately have "wp (call c s1) (same_data s1)"
    by (intro same_call) (simp add: run_command_def s2_def [symmetric] same)
  then have "wp (process_exec c s1) (same_data s)" using proc by (simp add: process_exec_def Let_def same)
  then show "wp (process_exec c (upd_client c (\<lambda>cl. cl\<lparr>c_cmd := cmd\<rparr>) s)) (same_data s)" by (simp only: s1_def)
qed

section \<open>Every changing request is propagated\<close>

lemma exec_loop_grows:
  "server_ok s \<Longrightarrow> distinct js \<Longrightarrow>
   (\<And>j. j \<in> set js \<Longrightarrow> j < length (c_mstate (sv_client s c)) \<and> counted c (c_mstate (sv_client s c) ! j)) \<Longrightarrow>
   wp (exec_loop run_queued c js mp s) (\<lambda>(mp', s'). grows s s')"
proof (induction js arbitrary: mp s)
  case Nil
  then show ?case by (simp add: grows_def same_data_def)
next
  case (Cons j js)
  define ms where "ms = c_mstate (sv_client s c)"
  obtain av cmd where q: "ms ! j = (av, cmd)" by fastforce
  have j: "j < length ms" "counted c (av, cmd)" using Cons.prems(3) [of j] q by (simp_all add: ms_def)
  define s1 where "s1 = upd_client c (\<lambda>cl. cl\<lparr>c_argv := av, c_cmd := cmd\<rparr>) s"
  define start where "start = (\<not> mp \<and> REDIS_CMD_READONLY \<notin> cmd_flags cmd)"
  define s2 where "s2 = (if start then execCommandPropagateMulti c s1 else s1)"
  have s1: "serves {} c s s1" unfolding s1_def by (rule serves_client [OF Cons.prems(1)]) simp_all
  have c1: "c_argv (sv_client s1 c) = av" "c_cmd (sv_client s1 c) = cmd" "c_mstate (sv_client s1 c) = ms"
    by (simp_all add: s1_def upd_client_def ms_def)
  have cl2: "sv_client s2 = sv_client s1" by (simp add: s2_def execCommandPropagateMulti_def propagate_same)
  have "serves {} c s1 s2"
    by (rule serves_logs [OF serves_ok [OF s1]]) (simp_all add: s2_def execCommandPropagateMulti_def propagate_same)
  then have ok2: "server_ok s2" by (rule serves_ok)
  have "grows s1 s2"
    by (rule grows_quiet) (auto simp: s2_def execCommandPropagateMulti_def propagate_def feedAppendOnlyFile_def
        replicationFeedSlaves_def Let_def)
  then have g2: "grows s s2" using grows_client grows_trans unfolding s1_def by blast
  have t2: "counted c (c_argv (sv_client s2 c), c_cmd (sv_client s2 c))" using j(2) by (simp add: cl2 c1)
  have "wp (call_with run_queued c s2) (\<lambda>s3. serves {} c s2 s3 \<and> c_mstate (sv_client s3 c) = ms)"
  proof (rule call_with_serves [OF ok2])
    fix s3
    assume "server_ok s3" "c_argv (sv_client s3 c) = c_argv (sv_client s2 c)"
      "c_mstate (sv_client s3 c) = c_mstate (sv_client s2 c)"
    then show "wp (run_queued (cmd_proc (c_cmd (sv_client s2 c))) c s3)
        (\<lambda>s4. serves {} c s3 s4 \<and> c_mstate (sv_client s4 c) = ms)"
      using run_queued_serves [of s3 "{}" c cmd] counted_tame [OF j(2)] by (simp add: cl2 c1)
  qed
  from wp_conj [OF this call_logged [OF ok2 t2]]
  have rest: "wp (call_with run_queued c s2) (\<lambda>s3. wp (exec_loop run_queued c js (mp \<or> start)
      (upd_client c (\<lambda>cl. cl\<lparr>c_mstate := (c_mstate cl)[j := (c_argv cl, c_cmd cl)]\<rparr>) s3)) (\<lambda>(mp', s'). grows s s'))"
  proof (rule wp_mono, elim conjE)
    fix s3
    assume s3: "serves {} c s2 s3" "c_mstate (sv_client s3 c) = ms" "grows s2 s3"
    define s4 where "s4 = upd_client c (\<lambda>cl. cl\<lparr>c_mstate := (c_mstate cl)[j := (c_argv cl, c_cmd cl)]\<rparr>) s3"
    have "serves {} c s3 s4" unfolding s4_def by (rule serves_client [OF serves_ok [OF s3(1)]]) simp_all
    then have ok4: "server_ok s4" by (rule serves_ok)
    have g4: "grows s s4" using g2 s3(3) grows_client grows_trans unfolding s4_def by blast
    have ms4: "c_mstate (sv_client s4 c) = ms[j := (c_argv (sv_client s3 c), c_cmd (sv_client s3 c))]"
      by (simp add: s4_def upd_client_def s3(2))
    have "wp (exec_loop run_queued c js (mp \<or> start) s4) (\<lambda>(mp', s'). grows s4 s')"
    proof (rule Cons.IH [OF ok4])
      show "distinct js" using Cons.prems(2) by simp
      show "i < length (c_mstate (sv_client s4 c)) \<and> counted c (c_mstate (sv_client s4 c) ! i)" if "i \<in> set js" for i
        using Cons.prems(2,3) that by (auto simp: ms4 ms_def nth_list_update)
    qed
    then show "wp (exec_loop run_queued c js (mp \<or> start) s4) (\<lambda>(mp', s'). grows s s')"
      by (rule wp_mono) (use g4 grows_trans in blast)
  qed
  show ?case
    unfolding exec_loop.simps Let_def q [unfolded ms_def] prod.case s1_def [symmetric] start_def [symmetric]
      s2_def [symmetric] wp_bind
    by (rule rest)
qed

lemma discard_grows: "server_ok s \<Longrightarrow> wp (discardTransaction c s) (grows s)"
  by (rule wp_mono [OF discard_keeps]) (auto simp: grows_def same_data_def)

lemma monitor_grows: "grows s (exec_handle_monitor c s)"
  by (rule grows_quiet) (simp_all add: exec_handle_monitor_def monitors_same, simp add: replicationFeedMonitors_def)

lemma dirty_grows: "grows s (add_dirty n s)"
  by (rule grows_quiet) (simp_all add: add_dirty_def)

lemma exec_end_grows:
  assumes "server_ok s1" "grows s s1"
  shows "wp (discardTransaction c s1) (\<lambda>s2. grows s (exec_handle_monitor c (if b then add_dirty 1 s2 else s2)))"
proof (rule wp_mono [OF discard_grows [OF assms(1)]])
  fix s2
  assume "grows s1 s2"
  moreover have "grows s2 (if b then add_dirty 1 s2 else s2)" using dirty_grows by (simp add: grows_quiet)
  ultimately show "grows s (exec_handle_monitor c (if b then add_dirty 1 s2 else s2))"
    using assms(2) monitor_grows by (blast intro: grows_trans)
qed

lemma execCommand_grows:
  assumes ok: "server_ok s" and q: "\<And>x. x \<in> set (c_mstate (sv_client s c)) \<Longrightarrow> counted c x"
  shows "wp (execCommand run_queued c s) (grows s)"
proof -
  have reply: "server_ok (addReply c r s)" "grows s (addReply c r s)" "grows s (addReplyError c e s)" for r e
    using serves_ok [OF serves_view [OF view_reply(2) ok]] by (simp_all add: grows_view)
  have main: "wp (unwatchAllKeys c s) (\<lambda>s1. wp (exec_loop run_queued c [0..<length (c_mstate (sv_client s1 c))] False
      (addReplyMultiBulkLen c (int (length (c_mstate (sv_client s1 c)))) s1)) (\<lambda>(mp, s2). wp (discardTransaction c
        (upd_client c (\<lambda>cl. cl\<lparr>c_argv := c_argv (sv_client s1 c), c_cmd := c_cmd (sv_client s1 c)\<rparr>) s2))
        (\<lambda>s3. grows s (exec_handle_monitor c (if mp then add_dirty 1 s3 else s3)))))"
  proof (rule wp_mono [OF unwatch_serves [OF ok, where W = "{}"]], simp, elim conjE)
    fix s1
    assume s1: "serves {} c s s1" "besides_watch s1 = besides_watch s"
    have ms: "c_mstate (sv_client s1 c) = c_mstate (sv_client s c)" by (rule besidesD(1) [OF s1(2)])
    define s2 where "s2 = addReplyMultiBulkLen c (int (length (c_mstate (sv_client s1 c)))) s1"
    have v2: "view s2 = view s1" by (simp add: s2_def)
    have s2: "serves {} c s1 s2" by (rule serves_view [OF v2 serves_ok [OF s1(1)]])
    have ms2: "c_mstate (sv_client s2 c) = c_mstate (sv_client s c)" using viewD(2) [OF v2] ms by simp
    have g2: "grows s s2" using grows_besides [OF s1(2)] grows_view [OF v2] by (rule grows_trans)
    have js: "i < length (c_mstate (sv_client s2 c)) \<and> counted c (c_mstate (sv_client s2 c) ! i)"
      if "i \<in> set [0..<length (c_mstate (sv_client s1 c))]" for i
      using that q by (simp add: ms ms2)
    have "wp (exec_loop run_queued c [0..<length (c_mstate (sv_client s1 c))] False s2) (\<lambda>(mp, s3). serves {} c s2 s3)"
      "wp (exec_loop run_queued c [0..<length (c_mstate (sv_client s1 c))] False s2) (\<lambda>(mp, s3). grows s2 s3)"
      using js by (intro exec_loop_serves exec_loop_grows serves_ok [OF s2] distinct_upt; simp add: counted_tame)+
    note loop = wp_conj [OF this]
    show "wp (exec_loop run_queued c [0..<length (c_mstate (sv_client s1 c))] False s2) (\<lambda>(mp, s3). wp (discardTransaction c
        (upd_client c (\<lambda>cl. cl\<lparr>c_argv := c_argv (sv_client s1 c), c_cmd := c_cmd (sv_client s1 c)\<rparr>) s3))
        (\<lambda>s4. grows s (exec_handle_monitor c (if mp then add_dirty 1 s4 else s4))))"
    proof (rule wp_mono [OF loop], unfold split_paired_all prod.case, elim conjE)
      fix mp s3
      assume s3: "serves {} c s2 s3" "grows s2 s3"
      define s4 where "s4 = upd_client c (\<lambda>cl. cl\<lparr>c_argv := c_argv (sv_client s1 c), c_cmd := c_cmd (sv_client s1 c)\<rparr>) s3"
      have "serves {} c s3 s4" unfolding s4_def by (rule serves_client [OF serves_ok [OF s3(1)]]) simp_all
      moreover have "grows s s4" using g2 s3(2) grows_client grows_trans unfolding s4_def by blast
      ultimately show "wp (discardTransaction c s4)
          (\<lambda>s5. grows s (exec_handle_monitor c (if mp then add_dirty 1 s5 else s5)))"
        by (intro exec_end_grows) (rule serves_ok)
    qed
  qed
  then show ?thesis
    using reply exec_end_grows [OF reply(1,2), where b = False]
    by (simp add: execCommand_def Let_def)
qed

lemma run_command_grows:
  assumes ok: "server_ok s" and live: "c \<in> set (sv_clients s)"
    and q: "\<And>x. x \<in> set (c_mstate (sv_client s c)) \<Longrightarrow> counted c x"
    and name: "name \<in> {''execCommand'', ''multiCommand'', ''discardCommand'', ''watchCommand''}"
  shows "wp (run_command name c s) (grows s)"
proof -
  have reply: "grows s (addReply c r s1)" if "grows s s1" for r s1
    using that grows_view [OF view_reply(2)] by (rule grows_trans)
  have err: "grows s (addReplyError c e s)" for e by (simp add: grows_view)
  have "wp (multiCommand c s) (grows s)" using err reply [OF grows_client] by (simp add: multiCommand_def Let_def)
  moreover have "wp (discardCommand c s) (grows s)"
    using err wp_mono [OF discard_grows [OF ok] reply] by (simp add: discardCommand_def)
  moreover have "wp (watchCommand c s) (grows s)"
    using err watch_fold_ok [OF ok live] reply [OF grows_besides] by (simp add: watchCommand_def)
  ultimately show ?thesis
    using name execCommand_grows [OF ok q] by (auto simp: run_command_def run_others)
qed

lemma process_exec_grows:
  assumes w: "waiting {} c s" and a: "allowed {} c (c_argv (sv_client s c), c_cmd (sv_client s c))"
    and n: "cmd_proc (c_cmd (sv_client s c)) \<noteq> ''flushallCommand''"
    and queued: "\<And>x. x \<in> set (c_mstate (sv_client s c)) \<Longrightarrow> cmd_proc (snd x) \<noteq> ''flushallCommand''"
  shows "wp (process_exec c s) (grows s)"
proof -
  have ok: "server_ok s" and live: "c \<in> set (sv_clients s)"
    and q: "\<And>x. x \<in> set (c_mstate (sv_client s c)) \<Longrightarrow> counted c x"
    using w queued by (auto simp: waiting_def counted_def)
  have queue: "grows s (addReply c shared_queued (queueMultiCommand c s))"
    using grows_client grows_view [OF view_reply(2)] grows_trans unfolding queueMultiCommand_def by blast
  have "wp (call c s) (grows s)"
  proof (cases "counted c (c_argv (sv_client s c), c_cmd (sv_client s c))")
    case True
    then have "cmd_proc (c_cmd (sv_client s c)) \<noteq> ''execCommand''" by (auto simp: counted_def tame_def data_procs_def set_procs_def)
    then have "call c s = call_with run_queued c s"
      unfolding call_def call_parts by (simp add: run_command_def)
    then show ?thesis using call_logged [OF ok True] by simp
  next
    case False
    have b: "serves {} c s (call_before c s)" by (rule call_before_serves [OF ok])
    show ?thesis
      unfolding call_def
    proof (rule call_grows, rule run_command_grows)
      show "server_ok (call_before c s)" using b by (rule serves_ok)
      show "c \<in> set (sv_clients (call_before c s))" using live serves_fixed [OF b] by (simp add: fixed_def)
      show "counted c x" if "x \<in> set (c_mstate (sv_client (call_before c s) c))" for x
        using q that by (simp add: call_before_client)
      show "cmd_proc (c_cmd (sv_client s c)) \<in> {''execCommand'', ''multiCommand'', ''discardCommand'', ''watchCommand''}"
        using a False n by (auto simp: allowed_def counted_def)
    qed
  qed
  then show ?thesis using queue by (simp add: process_exec_def Let_def)
qed

lemma processCommand_grows:
  assumes w: "waiting {} c s" and a: "acceptable {} s c"
    and n: "\<And>cmd. lookupCommand s (arg s c 0) = Some cmd \<Longrightarrow> cmd_proc cmd \<noteq> ''flushallCommand''"
    and queued: "\<And>x. x \<in> set (c_mstate (sv_client s c)) \<Longrightarrow> cmd_proc (snd x) \<noteq> ''flushallCommand''"
  shows "wp (processCommand c s) (\<lambda>(b, s'). grows s s')"
proof (rule process_wp)
  have flag: "grows s1 (flagTransaction c s1)" for s1
    by (rule grows_quiet) (simp_all add: flagTransaction_def)
  have ref: "grows s1 (addReplyErrorFormat c t s1)" "grows s1 (addReply c r s1)" "grows s1 (addReplyError c e s1)"
    "grows s1 (addReplySds c t s1)" for s1 t r e
    by (simp_all add: grows_view)
  show "grows s (upd_client c (c_flags_update (insert REDIS_CLOSE_AFTER_REPLY)) (addReply c shared_ok s))"
    using ref(2) grows_client by (rule grows_trans)
  show "grows s (addReplyErrorFormat c t (flagTransaction c s))" for t
    using flag ref(1) by (rule grows_trans)
  fix cmd
  assume cmd: "lookupCommand s (arg s c 0) = Some cmd"
  define s1 where "s1 = upd_client c (\<lambda>cl. cl\<lparr>c_cmd := cmd\<rparr>) s"
  have g1: "grows s s1" unfolding s1_def by (rule grows_client)
  show "grows s (addReplyErrorFormat c t (flagTransaction c (upd_client c (\<lambda>cl. cl\<lparr>c_cmd := cmd\<rparr>) s)))" for t
    using g1 flag ref(1) grows_trans unfolding s1_def by blast
  have "served {} c s s1" unfolding s1_def using w by (intro served_client) (auto simp: waiting_def)
  then have w1: "waiting {} c s1" using w by (simp add: served_def waiting_def serves_def) (simp add: fixed_def)
  have a1: "allowed {} c (c_argv (sv_client s1 c), c_cmd (sv_client s1 c))" "maxmemory s1 = 0"
    using a cmd by (simp_all add: acceptable_def s1_def upd_client_def)
  have "wp (process_exec c s1) (grows s1)"
  proof (rule process_exec_grows [OF w1 a1(1)])
    show "cmd_proc (c_cmd (sv_client s1 c)) \<noteq> ''flushallCommand''"
      using n [OF cmd] by (simp add: s1_def upd_client_def)
    show "cmd_proc (snd x) \<noteq> ''flushallCommand''" if "x \<in> set (c_mstate (sv_client s1 c))" for x
      using queued that by (simp add: s1_def upd_client_def)
  qed
  then have "wp (process_checks c s1) (grows s1)"
    using ref flag a1(2) by (intro checks_wp) (blast intro: grows_trans)+
  then show "wp (process_checks c (upd_client c (\<lambda>cl. cl\<lparr>c_cmd := cmd\<rparr>) s)) (grows s)"
    unfolding s1_def [symmetric] by (rule wp_mono) (use g1 grows_trans in blast)
qed

end
