(* ===== verification/Example_Server.thy ===== *)
theory Example_Server
  imports Sessions
begin

text \<open>
  A concrete server on which the properties are exercised, and evaluation rules that let the
  simplifier run requests on it.
\<close>

section \<open>A concrete server\<close>

lemma setrange_write_code [code]:
  "setrange_write c d key offset val t s =
     (let total = (word_of_int offset + of_nat (length val) :: u64)
      in if 2 ^ 63 \<le> uint total then None
         else
           let t = t @ replicate (unat total - length t) 0;
               t = write_at (nat offset) val t;
               s = db_put d key (StringObj (ObjRaw t)) s;
               s = signalModifiedKey d key s;
               s = notifyKeyspaceEvent REDIS_NOTIFY_STRING ''setrange'' key d s;
               s = add_dirty 1 s
           in Some (addReplyLongLong c (int (length t)) s))"
proof -
  have "(2 ^ 63 \<le> unat w) = (2 ^ 63 \<le> uint w)" for w :: u64
    using of_nat_le_iff [of "2 ^ 63" "unat w", where 'a = int] by simp
  then show ?thesis unfolding setrange_write_def Let_def by simp
qed

text \<open>Evaluation reads numerals and compares lengths with the size of the buffer as integers.\<close>

fun dec_eval :: "int \<Rightarrow> bytes \<Rightarrow> int" where
  "dec_eval v [] = v"
| "dec_eval v (c # cs) = dec_eval (v * 10 + uint (c - 48)) cs"

lemma dec_eval_val: "int (dec_val a p) = dec_eval (int a) p"
  by (induction p arbitrary: a) simp_all

lemma dec_eval_zero: "int (dec_val 0 p) = dec_eval 0 p"
  by (simp add: dec_eval_val)

lemma strtoll10_code [code]:
  "strtoll10 s =
     (let ws = length (takeWhile is_space s);
          r = drop ws s;
          neg = (r \<noteq> [] \<and> hd r = 45);
          sg = (if r \<noteq> [] \<and> (hd r = 45 \<or> hd r = 43) then 1 else 0);
          ds = takeWhile is_digit (drop sg r);
          v = (if neg then - dec_eval 0 ds else dec_eval 0 ds)
      in if ds = [] then (0, 0, False)
         else if v < - (2 ^ 63) then (- (2 ^ 63), ws + sg + length ds, True)
         else if 2 ^ 63 - 1 < v then (2 ^ 63 - 1, ws + sg + length ds, True)
         else (v, ws + sg + length ds, False))"
  unfolding strtoll10_def dec_eval_zero by (rule refl)


lemma addReplyToBuffer_code [code]:
  "addReplyToBuffer t c =
     (if REDIS_CLOSE_AFTER_REPLY \<in> c_flags c then Some c
      else if c_reply c \<noteq> [] then None
      else if t \<noteq> [] \<and> 16384 < int (length (c_buf c)) + int (length t) then None
      else Some (c\<lparr>c_buf := c_buf c @ t\<rparr>))"
  by (cases t) (auto simp: addReplyToBuffer_def REDIS_REPLY_CHUNK_BYTES_def Let_def)

lemma chunk_room [code_unfold]: "32 \<le> REDIS_REPLY_CHUNK_BYTES - n \<longleftrightarrow> int n \<le> 16352"
  by (auto simp: REDIS_REPLY_CHUNK_BYTES_def)

definition example_command :: "string \<Rightarrow> string \<Rightarrow> int \<Rightarrow> cmdflag set \<Rightarrow> bytes \<times> redisCommand" where
  "example_command name proc arity flags =
     (str name, (table_entry name proc arity [] None 1 1 1)\<lparr>cmd_flags := flags\<rparr>)"

definition example_commands :: "(bytes \<times> redisCommand) list" where
  "example_commands =
     [example_command ''set'' ''setCommand'' (- 3) {REDIS_CMD_WRITE, REDIS_CMD_DENYOOM},
      example_command ''get'' ''getCommand'' 2 {REDIS_CMD_READONLY, REDIS_CMD_FAST},
      example_command ''del'' ''delCommand'' (- 2) {REDIS_CMD_WRITE},
      example_command ''srem'' ''sremCommand'' (- 3) {REDIS_CMD_WRITE, REDIS_CMD_FAST},
      example_command ''move'' ''moveCommand'' 3 {REDIS_CMD_WRITE, REDIS_CMD_FAST},
      example_command ''expire'' ''expireCommand'' 3 {REDIS_CMD_WRITE, REDIS_CMD_FAST},
      example_command ''flushall'' ''flushallCommand'' 1 {REDIS_CMD_WRITE},
      example_command ''decrby'' ''decrbyCommand'' 3 {REDIS_CMD_WRITE, REDIS_CMD_DENYOOM, REDIS_CMD_FAST},
      example_command ''select'' ''selectCommand'' 2 {REDIS_CMD_READONLY, REDIS_CMD_LOADING, REDIS_CMD_FAST},
      example_command ''setrange'' ''setrangeCommand'' 4 {REDIS_CMD_WRITE, REDIS_CMD_DENYOOM},
      example_command ''multi'' ''multiCommand'' 1 {REDIS_CMD_READONLY, REDIS_CMD_NOSCRIPT, REDIS_CMD_FAST},
      example_command ''exec'' ''execCommand'' 1 {REDIS_CMD_NOSCRIPT, REDIS_CMD_SKIP_MONITOR},
      example_command ''watch'' ''watchCommand'' (- 2) {REDIS_CMD_READONLY, REDIS_CMD_NOSCRIPT, REDIS_CMD_FAST}]"

definition example_client :: client where
  "example_client =
     \<lparr>c_db = 0, c_argv = [], c_cmd = table_entry [] [] 0 [] None 0 0 0, c_flags = {}, c_authenticated = False,
      c_mstate = [], c_watched = [], c_fd = 5, c_repl_online = True, c_event_ok = True, c_buf = [], c_reply = []\<rparr>"

text \<open>
  Two clients, no data; the clock advances a second per reading.  The functions are constants that
  unfold only when applied.
\<close>

definition example_table :: "bytes \<Rightarrow> redisCommand option" where
  "example_table name = map_of example_commands name"

definition example_clients :: "nat \<Rightarrow> client" where
  "example_clients c = example_client"

definition example_clock :: "nat \<Rightarrow> int" where
  "example_clock i = 1000000 * int i"

definition example_db :: "nat \<Rightarrow> redisDb" where
  "example_db d = \<lparr>db_dict = Map.empty, db_expires = Map.empty, db_watched = Map.empty\<rparr>"

lemmas example_defs = example_table_def example_clients_def example_clock_def example_db_def example_client_def

definition example_server :: server where
  "example_server =
     \<lparr>sv_db = example_db, sv_dbnum = 16, sv_client = example_clients, sv_clients = [1, 2],
      commands = example_table, orig_commands = example_table, dirty = 0, clock = example_clock, ticks = 0, loading = False,
      masterhost = False, lua_start = None, aof_on = True, monitors = False, requirepass = None, maxmemory = 0,
      set_max_intset_entries = 512, hash_seed = 0, can_resize = True, notify_flags = {}, aof_log = [], repl_log = [],
      monitor_log = [], published = [], stat_expiredkeys = 0, stat_keyspace_hits = 0, stat_keyspace_misses = 0,
      stat_numcommands = 0, stop_writes_on_bgsave_err = True, saveparamslen = 3, lastbgsave_ok = True,
      aof_last_write_ok = True, aof_last_write_strerror = [], repl_min_slaves_to_write = 0,
      repl_min_slaves_max_lag = 10, repl_good_slaves_count = 0, repl_slave_ro = True, repl_connected = False,
      repl_serve_stale_data = True, lua_timedout = False\<rparr>"

definition req :: "string list \<Rightarrow> strobj list" where
  "req ws = map (\<lambda>w. ObjRaw (str w)) ws"

text \<open>The same server with a key \<open>k\<close> holding \<open>v\<close>.\<close>

definition stocked_db :: "nat \<Rightarrow> redisDb" where
  "stocked_db d =
     (example_db d)\<lparr>db_dict := (if d = 0 then [str ''k'' \<mapsto> StringObj (ObjRaw (str ''v''))] else Map.empty)\<rparr>"

definition stocked_server :: server where
  "stocked_server = example_server\<lparr>sv_db := stocked_db\<rparr>"

text \<open>Evaluation continues only once the result of a step is known.\<close>

fun resume_serve :: "(nat \<times> strobj list) list \<Rightarrow> (bool \<times> server) option \<Rightarrow> server option" where
  "resume_serve rs None = None"
| "resume_serve rs (Some (_, s)) = serve rs s"

lemma serve_code [code]:
  "serve [] s = Some s"
  "serve ((c, av) # rs) s = resume_serve rs (processCommand c (receive c av s))"
  by simp (cases "processCommand c (receive c av s)", auto)

fun resume_call :: "nat \<Rightarrow> clientflag set \<Rightarrow> int \<Rightarrow> server option \<Rightarrow> server option" where
  "resume_call c fl n None = None"
| "resume_call c fl n (Some s) = Some (call_after c fl n s)"

lemma call_with_code [code]:
  "call_with proc c s =
     resume_call c (c_flags (sv_client s c)) (dirty s) (proc (cmd_proc (c_cmd (sv_client s c))) c (call_before c s))"
  unfolding call_parts by (cases "proc (cmd_proc (c_cmd (sv_client s c))) c (call_before c s)") simp_all

text \<open>What client \<open>c\<close> read after the requests.\<close>

definition answers :: "nat \<Rightarrow> (nat \<times> strobj list) list \<Rightarrow> server \<Rightarrow> bytes option" where
  "answers c rs s = (case serve rs s of None \<Rightarrow> None | Some s' \<Rightarrow> Some (client_out (sv_client s' c)))"

lemma example_ready: "ready W example_server"
proof -
  have "orig_commands example_server (str n) \<noteq> None" if "n \<in> {''del'', ''srem'', ''set''}" for n
    using that by (auto simp: example_server_def example_defs example_commands_def example_command_def)
  then show ?thesis
    by (simp add: ready_def server_ok_def db_ok_def watch_ok_def) (simp add: example_server_def example_defs intset_cap_def)
qed

end
