(* ===== verification/Command_Properties.thy ===== *)
theory Command_Properties
  imports Example_Server
begin

text \<open>
  What single commands do: authentication and refused requests, expiration, the results of the
  string and key space commands on every branch that matters, the counting of FLUSHALL.
\<close>

unbundle bit_operations_syntax

section \<open>Authentication\<close>

lemma fold_or_zero:
  "fold (\<lambda>j diff. diff OR f j) js (d :: u32) = 0 \<longleftrightarrow> d = 0 \<and> (\<forall>j \<in> set js. f j = 0)"
  by (induction js arbitrary: d) (auto simp: or_eq_0_iff)

lemma xor_zero: "(x :: 'a::len word) XOR y = 0 \<longleftrightarrow> x = y"
  by (metis xor.assoc xor_self_eq xor.left_neutral xor.right_neutral)

lemma sint_of_int_32: "- (2 ^ 31) \<le> i \<Longrightarrow> i < 2 ^ 31 \<Longrightarrow> sint (word_of_int i :: u32) = i"
  by (simp add: signed_of_int signed_take_bit_int_eq_self)

lemma sint_widened: "sint (scast (x :: u8) :: u32) = sint x"
proof -
  have "- (2 ^ 7) \<le> sint x" "sint x < 2 ^ 7" using sint_greater_eq [of x] sint_less [of x] by simp_all
  then have "- (2 ^ 31) \<le> sint x" "sint x < 2 ^ 31" by simp_all
  then show ?thesis unfolding scast_eq by (rule sint_of_int_32)
qed

lemma scast_inj: "(scast (x :: u8) :: u32) = scast y \<longleftrightarrow> x = y"
  by (metis sint_widened signed_word_eqI)

lemma pad_eq:
  assumes "length a \<le> n" "length a = length b"
  shows "(\<forall>j < n. (a @ replicate (n - length a) z) ! j = (b @ replicate (n - length b) z) ! j) \<longleftrightarrow> a = b"
proof
  assume all: "\<forall>j < n. (a @ replicate (n - length a) z) ! j = (b @ replicate (n - length b) z) ! j"
  have "a ! j = b ! j" if "j < length a" for j
    using all [rule_format, of j] that assms by (simp add: nth_append)
  then show "a = b" using assms(2) by (intro nth_equalityI) simp_all
qed simp

text \<open>C21.  The password comparison returns 0 exactly on equal texts of at most 512 bytes; texts
  are shorter than \<open>2 ^ 32\<close>, the range of its length variables.\<close>

theorem time_independent_strcmp_correct:
  assumes "length a < 2 ^ 32" and "length b < 2 ^ 32"
  shows "time_independent_strcmp a b = 0 \<longleftrightarrow> a = b \<and> length a \<le> REDIS_AUTHPASS_MAX_LEN"
proof -
  define la lb where "la = (of_nat (length a) :: u32)" and "lb = (of_nat (length b) :: u32)"
  have len: "unat la = length a" "unat lb = length b"
    using assms by (simp_all add: la_def lb_def unat_of_nat take_bit_nat_eq_self)
  define m where "m = REDIS_AUTHPASS_MAX_LEN"
  have max: "unat (of_nat m :: u32) = m" by (simp add: m_def REDIS_AUTHPASS_MAX_LEN_def)
  have eq: "la = lb \<longleftrightarrow> length a = length b" using len by (metis la_def lb_def)
  show ?thesis
  proof (cases "length a \<le> m \<and> length b \<le> m")
    case True
    have pad: "write_at 0 t (replicate m 0) = t @ replicate (m - length t) 0" if "length t \<le> m" for t :: bytes
      using that by (simp add: write_at_def)
    have "time_independent_strcmp a b = 0 \<longleftrightarrow>
        (\<forall>j < m. (a @ replicate (m - length a) 0) ! j = (b @ replicate (m - length b) 0) ! j) \<and> la = lb"
      using True
      by (simp add: time_independent_strcmp_def la_def [symmetric] lb_def [symmetric] m_def [symmetric] Let_def
          word_less_nat_alt len max pad or_eq_0_iff fold_or_zero xor_zero scast_inj Ball_def)
    also have "\<dots> \<longleftrightarrow> a = b" using pad_eq [of a m b 0] True eq by auto
    finally show ?thesis using True by (simp add: m_def)
  next
    case False
    then have "time_independent_strcmp a b = 1"
      by (auto simp: time_independent_strcmp_def la_def [symmetric] lb_def [symmetric] m_def [symmetric] Let_def
          word_less_nat_alt len max)
    then show ?thesis using False by (auto simp: m_def)
  qed
qed

theorem time_independent_strcmp_correct_witness:
  "time_independent_strcmp (str ''secret'') (str ''secret'') = 0 \<and> time_independent_strcmp (str ''secret'') (str ''secrex'') \<noteq> 0"
  using time_independent_strcmp_correct [of "str ''secret''" "str ''secret''"]
    time_independent_strcmp_correct [of "str ''secret''" "str ''secrex''"]
  by (simp add: REDIS_AUTHPASS_MAX_LEN_def)

section \<open>Refused requests\<close>

text \<open>Nothing but output, the current command and flags of the client changed.\<close>

definition untouched :: "nat \<Rightarrow> server \<Rightarrow> server \<Rightarrow> bool" where
  "untouched c s s' \<longleftrightarrow>
     sv_db s' = sv_db s \<and> repl_log s' = repl_log s \<and> aof_log s' = aof_log s \<and> dirty s' = dirty s \<and>
     (\<forall>w. w \<noteq> c \<longrightarrow> sv_client s' w = sv_client s w) \<and>
     c_mstate (sv_client s' c) = c_mstate (sv_client s c) \<and>
     c_watched (sv_client s' c) = c_watched (sv_client s c) \<and>
     c_authenticated (sv_client s' c) = c_authenticated (sv_client s c) \<and> c_db (sv_client s' c) = c_db (sv_client s c)"

lemma untouched_refl: "untouched c s s"
  by (simp add: untouched_def)

lemma untouched_trans: "untouched c s s1 \<Longrightarrow> untouched c s1 s2 \<Longrightarrow> untouched c s s2"
  by (simp add: untouched_def)

lemma untouched_client:
  assumes "\<And>cl. c_mstate (f cl) = c_mstate cl \<and> c_watched (f cl) = c_watched cl \<and>
    c_authenticated (f cl) = c_authenticated cl \<and> c_db (f cl) = c_db cl"
  shows "untouched c s (upd_client c f s)"
  using assms by (simp add: untouched_def upd_client_def)

lemma untouched_says: "says c t s s' \<Longrightarrow> untouched c s s'"
  unfolding says_def by (auto intro: untouched_client)

lemma says_error: "\<exists>t. says c t s (addReplyError c e s)" "\<exists>t. says c t s (addReplyErrorFormat c f s)"
  unfolding addReplyError_def addReplyErrorFormat_def addReplyErrorLength_def Let_def
  by (blast intro: says_string says_trans)+

lemma untouched_replies:
  "untouched c s (addReply c r s)" "untouched c s (addReplyError c e s)" "untouched c s (addReplyErrorFormat c t s)"
  "untouched c s (addReplySds c t s)"
  using says_error untouched_says says_object says_sds by blast+

lemma untouched_flag: "untouched c s (flagTransaction c s)"
  using untouched_client [of "c_flags_update (insert REDIS_DIRTY_EXEC)"] untouched_refl by (simp add: flagTransaction_def)

lemma untouched_cmd: "untouched c s (upd_client c (\<lambda>cl. cl\<lparr>c_cmd := cmd\<rparr>) s)"
  by (rule untouched_client) simp

text \<open>C20.  When a password is set, a client that has not authenticated can by no request but AUTH
  change data, queue a command, watch a key, select a database or have anything propagated, and
  no such request aborts the server.\<close>

theorem unauthenticated_refused:
  assumes "requirepass s \<noteq> None" and "\<not> c_authenticated (sv_client s c)"
    and "\<And>cmd. lookupCommand s (arg s c 0) = Some cmd \<Longrightarrow> cmd_proc cmd \<noteq> ''authCommand''"
  shows "\<exists>b s'. processCommand c s = Some (b, s') \<and> untouched c s s'"
proof -
  have "wp (processCommand c s) (\<lambda>(b, s'). untouched c s s')"
  proof (rule process_wp)
    show "untouched c s (upd_client c (c_flags_update (insert REDIS_CLOSE_AFTER_REPLY)) (addReply c shared_ok s))"
      by (rule untouched_trans [OF untouched_replies(1) untouched_client]) simp
    show "untouched c s (addReplyErrorFormat c t (flagTransaction c s))" for t
      by (rule untouched_trans [OF untouched_flag untouched_replies(3)])
    fix cmd
    assume cmd: "lookupCommand s (arg s c 0) = Some cmd"
    show "untouched c s (addReplyErrorFormat c t (flagTransaction c (upd_client c (\<lambda>cl. cl\<lparr>c_cmd := cmd\<rparr>) s)))" for t
      by (rule untouched_trans [OF untouched_trans [OF untouched_cmd untouched_flag] untouched_replies(3)])
    define s1 where "s1 = upd_client c (\<lambda>cl. cl\<lparr>c_cmd := cmd\<rparr>) s"
    have "requirepass s1 \<noteq> None" "\<not> c_authenticated (sv_client s1 c)" "c_cmd (sv_client s1 c) = cmd"
      using assms(1,2) by (simp_all add: s1_def upd_client_def)
    then have "process_checks c s1 = Some (addReply c shared_noautherr (flagTransaction c s1))"
      using assms(3) [OF cmd] by (simp add: process_checks_def Let_def)
    moreover have "untouched c s (addReply c shared_noautherr (flagTransaction c s1))"
      unfolding s1_def by (rule untouched_trans [OF untouched_trans [OF untouched_cmd untouched_flag] untouched_replies(1)])
    ultimately show "wp (process_checks c (upd_client c (\<lambda>cl. cl\<lparr>c_cmd := cmd\<rparr>) s)) (untouched c s)"
      by (simp add: s1_def)
  qed
  then show ?thesis by (cases "processCommand c s") auto
qed

definition locked_server :: server where
  "locked_server = receive 1 (req [''set'', ''k'', ''v'']) (example_server\<lparr>requirepass := Some (str ''secret'')\<rparr>)"

theorem unauthenticated_refused_witness:
  "\<exists>b s'. processCommand 1 locked_server = Some (b, s') \<and> untouched 1 locked_server s'"
  by (rule unauthenticated_refused)
    (auto simp: locked_server_def receive_def upd_client_def example_server_def example_defs req_def lookupCommand_def
      arg_def argv_def example_commands_def example_command_def table_entry_def lower_def split: if_splits)


definition slave_server :: server where
  "slave_server = receive 1 (req [''move'', ''k'', ''3'']) (example_server\<lparr>masterhost := True\<rparr>)"


section \<open>FLUSHALL\<close>

definition total_keys :: "server \<Rightarrow> nat" where
  "total_keys s = (\<Sum>d < sv_dbnum s. card (dom (db_dict (sv_db s d))))"

lemma emptyDb_step:
  "distinct js \<Longrightarrow> fold (\<lambda>j (removed, s). (removed + int (db_size (sv_db s j)), upd_db j empty_db s)) js (n, s) =
     (n + int (\<Sum>i \<leftarrow> js. card (dom (db_dict (sv_db s i)))),
      s\<lparr>sv_db := (\<lambda>d. if d \<in> set js then empty_db (sv_db s d) else sv_db s d)\<rparr>)"
proof (induction js arbitrary: n s)
  case (Cons j js)
  define s1 where "s1 = upd_db j empty_db s"
  have s1: "sv_db s1 i = (if i = j then empty_db (sv_db s j) else sv_db s i)" "s1\<lparr>sv_db := g\<rparr> = s\<lparr>sv_db := g\<rparr>" for i g
    by (simp_all add: s1_def upd_db_def)
  have "(\<Sum>i \<leftarrow> js. card (dom (db_dict (sv_db s1 i)))) = (\<Sum>i \<leftarrow> js. card (dom (db_dict (sv_db s i))))"
    using Cons.prems by (intro arg_cong [where f = sum_list] map_cong) (auto simp: s1)
  moreover have "(\<lambda>d. if d \<in> set js then empty_db (sv_db s1 d) else sv_db s1 d) =
      (\<lambda>d. if d \<in> set (j # js) then empty_db (sv_db s d) else sv_db s d)"
    using Cons.prems by (auto simp: s1 fun_eq_iff)
  ultimately show ?case using Cons by (simp add: s1_def [symmetric]) (simp add: s1(2))
qed simp

lemma emptyDb_all:
  "emptyDb s = (int (total_keys s), s\<lparr>sv_db := (\<lambda>d. if d < sv_dbnum s then empty_db (sv_db s d) else sv_db s d)\<rparr>)"
proof -
  have "(\<Sum>j \<leftarrow> [0..<n]. card (dom (db_dict (sv_db s j)))) = (\<Sum>d < n. card (dom (db_dict (sv_db s d))))" for n
    by (induction n) simp_all
  then show ?thesis using emptyDb_step [of "[0..<sv_dbnum s]" 0 s] by (simp add: emptyDb_def total_keys_def)
qed

lemma flush_signal:
  "\<exists>fl. signalFlushedDb dbid s = s\<lparr>sv_client := (\<lambda>w. if fl w then c_flags_update (insert REDIS_DIRTY_CAS) (sv_client s w) else sv_client s w)\<rparr>"
  unfolding signalFlushedDb_def touchWatchedKeysOnFlush_def fold_flush fold_flag
  by (rule exI [of _ "\<lambda>w. w \<in> set (filter (flush_hits dbid s) (sv_clients s))"]) (rule refl)

lemma flushall_effect:
  assumes "0 < saveparamslen s"
  shows "\<exists>s'. flushallCommand c s = Some s' \<and> dirty s' = c_int (dirty s + int (total_keys s)) + 1 \<and>
    repl_log s' = repl_log s \<and> (\<forall>d < sv_dbnum s. \<forall>k. entry s' d k = (None, None)) \<and>
    c_argv (sv_client s' c) = c_argv (sv_client s c) \<and> c_db (sv_client s' c) = c_db (sv_client s c) \<and>
    c_flags (sv_client s' c) \<subseteq> insert REDIS_DIRTY_CAS (c_flags (sv_client s c))"
proof -
  obtain fl where fl: "signalFlushedDb None s =
      s\<lparr>sv_client := (\<lambda>w. if fl w then c_flags_update (insert REDIS_DIRTY_CAS) (sv_client s w) else sv_client s w)\<rparr>"
    using flush_signal by blast
  define s1 where "s1 = signalFlushedDb None s"
  have s1: "sv_db s1 = sv_db s" "sv_dbnum s1 = sv_dbnum s" "dirty s1 = dirty s" "repl_log s1 = repl_log s"
    "c_argv (sv_client s1 c) = c_argv (sv_client s c)" "c_db (sv_client s1 c) = c_db (sv_client s c)"
    "c_flags (sv_client s1 c) \<subseteq> insert REDIS_DIRTY_CAS (c_flags (sv_client s c))" "saveparamslen s1 = saveparamslen s"
    by (auto simp: s1_def fl)
  then have tot: "total_keys s1 = total_keys s" by (simp add: total_keys_def)
  define s2 where "s2 = add_dirty (int (total_keys s)) (s1\<lparr>sv_db := (\<lambda>d. if d < sv_dbnum s then empty_db (sv_db s d) else sv_db s d)\<rparr>)"
  have s2: "sv_db s2 = (\<lambda>d. if d < sv_dbnum s then empty_db (sv_db s d) else sv_db s d)" "dirty s2 = dirty s + int (total_keys s)"
    "repl_log s2 = repl_log s" "sv_client s2 = sv_client s1" "saveparamslen s2 = saveparamslen s"
    by (simp_all add: s2_def add_dirty_def s1)
  define s3 where "s3 = addReply c shared_ok s2"
  have v: "view s3 = view s2" by (simp add: s3_def)
  have s3: "sv_db s3 = sv_db s2" "dirty s3 = dirty s2" "repl_log s3 = repl_log s2"
    "c_flags (sv_client s3 c) = c_flags (sv_client s2 c)" "c_db (sv_client s3 c) = c_db (sv_client s2 c)"
    using viewD [OF v] by simp_all
  have c3: "c_argv (sv_client s3 c) = c_argv (sv_client s2 c)" "saveparamslen s3 = saveparamslen s2"
    using says_object [of c shared_ok s2] unfolding s3_def says_def by (auto simp: upd_client_def)
  have e: "emptyDb s1 = (int (total_keys s), s1\<lparr>sv_db := (\<lambda>d. if d < sv_dbnum s then empty_db (sv_db s d) else sv_db s d)\<rparr>)"
    by (simp add: emptyDb_all tot s1 cong: if_cong)
  have "flushallCommand c s = Some (add_dirty 1 (s3\<lparr>dirty := c_int (dirty s3)\<rparr>))"
    unfolding flushallCommand_def Let_def s1_def [symmetric] e prod.case s2_def [symmetric] s3_def [symmetric]
    using assms by (simp add: c3(2) s2(5))
  then show ?thesis
    using s1(5-7) by (simp add: add_dirty_def entry_def s3 s2 c3 empty_db_def)
qed

lemma c_int_wrap: "0 \<le> x \<Longrightarrow> x < 2 ^ 32 \<Longrightarrow> c_int x = (if x < 2 ^ 31 then x else x - 2 ^ 32)"
proof -
  assume x: "0 \<le> x" "x < 2 ^ 32"
  have "(word_of_int (x - 2 ^ 32) :: u32) = word_of_int x" unfolding word_uint_eq_iff uint_word_of_int by simp
  moreover have "sint (word_of_int i :: u32) = i" if "i = x \<and> x < 2 ^ 31 \<or> i = x - 2 ^ 32 \<and> \<not> x < 2 ^ 31" for i
    by (rule sint_of_int_32) (use that x in auto)
  ultimately show ?thesis unfolding c_int_def by (metis (no_types))
qed


definition counting_server :: server where
  "counting_server = example_server\<lparr>sv_db := stocked_db, dirty := 2147483647,
     sv_client := (\<lambda>_. example_client\<lparr>c_cmd := table_entry ''flushall'' ''flushallCommand'' 1 ''w'' None 0 0 0\<rparr>)\<rparr>"


section \<open>Expiration\<close>

text \<open>The key has no time to live or its time has not come, as \<open>expireIfNeeded\<close> sees it.\<close>

definition alive :: "server \<Rightarrow> nat \<Rightarrow> bytes \<Rightarrow> bool" where
  "alive s d k \<longleftrightarrow>
     (case db_expires (sv_db s d) k of
        None \<Rightarrow> True
      | Some tm \<Rightarrow> tm < 0 \<or> loading s \<or>
          (case lua_start s of Some t \<Rightarrow> t | None \<Rightarrow> clock s (ticks s) div 1000) \<le> tm)"

text \<open>Servers that differ in the number of clock readings and in counters only.\<close>

definition same_but_time :: "server \<Rightarrow> server \<Rightarrow> bool" where
  "same_but_time s s' \<longleftrightarrow>
     fixed s' = fixed s \<and> sv_db s' = sv_db s \<and> sv_client s' = sv_client s \<and> dirty s' = dirty s \<and> repl_log s' = repl_log s"

lemma expire_alive:
  assumes ok: "server_ok s" and a: "alive s d k \<or> masterhost s"
  shows "\<exists>e s'. expireIfNeeded d k s = Some (e, s') \<and> same_but_time s s'"
proof (cases "db_expires (sv_db s d) k")
  case None
  then show ?thesis by (auto simp: expireIfNeeded_def getExpire_def same_but_time_def)
next
  case (Some tm)
  then have dict: "db_dict (sv_db s d) k \<noteq> None" using ok by (auto simp: server_ok_def db_ok_def)
  then show ?thesis
    using a Some
    by (auto simp: expireIfNeeded_def getExpire_def alive_def same_but_time_def fixed_def mstime_def ustime_def Let_def
        split: option.splits)
qed

lemma expire_dead:
  assumes ok: "server_ok s" and a: "\<not> alive s d k" "\<not> masterhost s"
  shows "\<exists>s'. expireIfNeeded d k s = Some (True, s') \<and> sv_client s' = sv_client s \<and> fixed s' = fixed s \<and>
    (\<forall>d' k'. entry s' d' k' = (if d' = d \<and> k' = k then (None, None) else entry s d' k')) \<and>
    repl_log s' = repl_log s @ [(d, [str ''DEL'', k])]"
proof -
  obtain tm where Some: "db_expires (sv_db s d) k = Some tm" using a by (cases "db_expires (sv_db s d) k") (simp_all add: alive_def)
  then have dict: "db_dict (sv_db s d) k \<noteq> None" using ok by (auto simp: server_ok_def db_ok_def)
  obtain now s1 where clk: "(case lua_start s of Some t \<Rightarrow> (t, s) | None \<Rightarrow> mstime s) = (now, s1)" by fastforce
  have s1: "fixed s1 = fixed s" "sv_db s1 = sv_db s" "sv_client s1 = sv_client s" "repl_log s1 = repl_log s"
    "loading s1 = loading s" "masterhost s1 = masterhost s"
    using clk by (auto split: option.splits simp: mstime_def ustime_def fixed_def Let_def)
  have late: "\<not> tm < 0" "\<not> loading s" "\<not> now \<le> tm"
    using a clk Some by (auto simp: alive_def mstime_def ustime_def Let_def split: option.splits)
  define s2 where "s2 = notifyKeyspaceEvent REDIS_NOTIFY_EXPIRED ''expired'' k d
    (propagateExpire d k (s1\<lparr>stat_expiredkeys := Suc (stat_expiredkeys s1)\<rparr>))"
  have "fixed (s1\<lparr>stat_expiredkeys := n\<rparr>) = fixed s1" for n by (simp add: fixed_def)
  then have s2: "fixed s2 = fixed s" "sv_db s2 = sv_db s" "sv_client s2 = sv_client s"
    "repl_log s2 = repl_log s @ [(d, [str ''DEL'', k])]"
    by (simp_all add: s2_def s1, simp add: propagateExpire_def feedAppendOnlyFile_def replicationFeedSlaves_def Let_def s1)
  define s3 where "s3 = snd (dbDelete d k s2)"
  have "fst (dbDelete d k s2)" using dict by (simp add: dbDelete_def upd_db_def s2 Let_def)
  then have "dbDelete d k s2 = (True, s3)" by (simp add: s3_def prod_eq_iff)
  then have "expireIfNeeded d k s = Some (True, s3)"
    using Some dict clk late a(2) s1(5,6) by (simp add: expireIfNeeded_def getExpire_def s2_def [symmetric] Let_def)
  moreover have "entry s3 d' k' = (if d' = d \<and> k' = k then (None, None) else entry s d' k')" for d' k'
    by (simp add: s3_def entry_delete) (simp add: entry_def s2)
  ultimately show ?thesis using s2 by (simp add: s3_def)
qed

text \<open>C15.  Reading a key whose time to live has passed finds nothing, removes the key with its time to
  live, touches no other key and sends one DEL of it to the slaves; a slave changes nothing and
  still returns the value; any other key is returned unchanged.\<close>

theorem lookup_expires:
  assumes "server_ok s"
  shows "\<exists>s'. lookupKeyRead d k s =
      Some (if alive s d k \<or> masterhost s then db_dict (sv_db s d) k else None, s') \<and>
    sv_client s' = sv_client s \<and>
    (\<forall>d' k'. entry s' d' k' =
      (if (d', k') = (d, k) \<and> \<not> alive s d k \<and> \<not> masterhost s then (None, None) else entry s d' k')) \<and>
    repl_log s' = repl_log s @ (if alive s d k \<or> masterhost s then [] else [(d, [str ''DEL'', k])])"
proof (cases "alive s d k \<or> masterhost s")
  case True
  then show ?thesis
    using expire_alive [OF assms True] by (auto simp: lookupKeyRead_def lookupKey_def same_but_time_def entry_def Let_def)
next
  case False
  then obtain s' where s': "expireIfNeeded d k s = Some (True, s')" "sv_client s' = sv_client s"
    "\<And>d' k'. entry s' d' k' = (if d' = d \<and> k' = k then (None, None) else entry s d' k')"
    "repl_log s' = repl_log s @ [(d, [str ''DEL'', k])]"
    using expire_dead [OF assms, of d k] by auto
  have "db_dict (sv_db s' d) k = None" using s'(3) [of d k] by (simp add: entry_def)
  moreover have "entry (s'\<lparr>stat_keyspace_misses := n\<rparr>) = entry s'" for n by (simp add: entry_def fun_eq_iff)
  ultimately show ?thesis using False s' by (simp add: lookupKeyRead_def lookupKey_def Let_def)
qed

text \<open>The example server holding \<open>k\<close> with the time to live \<open>t\<close>, after five seconds.\<close>

definition late_server :: "int option \<Rightarrow> server" where
  "late_server t = example_server\<lparr>ticks := 5, sv_db := (\<lambda>d.
     (stocked_db d)\<lparr>db_expires := (if d = 0 then (\<lambda>k. if k = str ''k'' then t else None) else Map.empty)\<rparr>)\<rparr>"

lemma late_server_ok: "server_ok (late_server t)"
  using example_ready [of "{}"]
  by (auto simp: ready_def server_ok_def late_server_def watch_ok_def db_ok_def stocked_db_def example_server_def
      example_defs split: if_splits)

theorem lookup_expires_witness:
  "\<exists>s'. lookupKeyRead 0 (str ''k'') (late_server (Some 1000)) = Some (None, s') \<and>
     repl_log s' = [(0, [str ''DEL'', str ''k''])] \<and>
   (\<exists>s'. lookupKeyRead 0 (str ''k'') (late_server (Some 5000)) = Some (Some (StringObj (ObjRaw (str ''v''))), s'))"
proof -
  have "\<not> alive (late_server (Some 1000)) 0 (str ''k'')" "alive (late_server (Some 5000)) 0 (str ''k'')"
    "\<not> masterhost (late_server t)" "repl_log (late_server t) = []"
    "db_dict (sv_db (late_server t) 0) (str ''k'') = Some (StringObj (ObjRaw (str ''v'')))" for t
    by (simp_all add: alive_def late_server_def stocked_db_def example_server_def example_defs)
  then show ?thesis
    using lookup_expires [OF late_server_ok, of 0 "str ''k''" "Some 1000"]
      lookup_expires [OF late_server_ok, of 0 "str ''k''" "Some 5000"]
    by auto
qed

section \<open>Moving and renaming keys\<close>

lemma lookupWrite_alive:
  assumes "server_ok s" "alive s d k \<or> masterhost s"
  shows "\<exists>s'. lookupKeyWrite d k s = Some (db_dict (sv_db s d) k, s') \<and> same_but_time s s'"
  using expire_alive [OF assms] by (auto simp: lookupKeyWrite_def lookupKey_def same_but_time_def)

lemma lookupWrite_absent:
  assumes "server_ok s" "db_dict (sv_db s d) k = None"
  shows "lookupKeyWrite d k s = Some (None, s)"
proof -
  have "db_expires (sv_db s d) k = None" using assms by (auto simp: server_ok_def db_ok_def)
  then show ?thesis using assms(2) by (simp add: lookupKeyWrite_def lookupKey_def expireIfNeeded_def getExpire_def)
qed

lemma same_but_time_ok: "same_but_time s s' \<Longrightarrow> server_ok s \<Longrightarrow> server_ok s'"
  by (simp add: same_but_time_def server_ok_def fixed_def)

text \<open>C19.  MOVE of a live key to a database without it takes the value there, without its time to
  live, and marks no client, so that a transaction watching the key still executes.\<close>

theorem moveCommand_moves:
  assumes "server_ok s" and "getLongLongFromObject (Some (argv s c 2)) = Some (int dst)" and "dst < sv_dbnum s"
    and "dst < 2 ^ 31" and "client_db s c \<noteq> dst"
    and "alive s (client_db s c) (arg s c 1)" and "db_dict (sv_db s (client_db s c)) (arg s c 1) = Some v"
    and "db_dict (sv_db s dst) (arg s c 1) = None"
  shows "\<exists>s'. moveCommand c s = Some s' \<and>
    (\<forall>d k. entry s' d k = (if (d, k) = (client_db s c, arg s c 1) then (None, None)
       else if (d, k) = (dst, arg s c 1) then (Some v, None) else entry s d k)) \<and>
    (\<forall>w. c_flags (sv_client s' w) = c_flags (sv_client s w))"
proof -
  define src k where "src = client_db s c" and "k = arg s c 1"
  have src: "src < sv_dbnum s" using assms(1) by (simp add: server_ok_def src_def client_db_def)
  define s1 where "s1 = upd_client c (c_db_update (\<lambda>_. src)) (upd_client c (c_db_update (\<lambda>_. dst)) s)"
  have s1_s: "s1 = s"
    by (simp add: s1_def upd_client_def src_def client_db_def)
  have "move_target c s = Some (dst, s1)"
    using assms(2-4) src
    by (simp add: move_target_def selectDb_def Let_def s1_def client_db_def src_def upd_client_def)
  then have m: "moveCommand c s = move_key c src dst k s"
    using assms(5) by (simp add: moveCommand_def s1_s src_def k_def)
  have a: "alive s src k" "db_dict (sv_db s src) k = Some v" "db_dict (sv_db s dst) k = None" "src \<noteq> dst"
    using assms by (simp_all add: src_def k_def)
  obtain s2 where s2: "lookupKeyWrite src k s = Some (Some v, s2)" "same_but_time s s2"
    using lookupWrite_alive [OF assms(1), of src k] a by auto
  have ok2: "server_ok s2" by (rule same_but_time_ok [OF s2(2) assms(1)])
  have e2: "sv_db s2 = sv_db s" "sv_client s2 = sv_client s" using s2(2) by (simp_all add: same_but_time_def)
  define s4 where "s4 = addReply c shared_cone (add_dirty 1 (snd (dbDelete src k (db_put dst k v s2))))"
  have "moveCommand c s = Some s4"
    using a e2 lookupWrite_absent [OF ok2, of dst k]
    by (simp add: m move_key_def s2(1) dbAdd_def s4_def Let_def)
  moreover have "entry s4 d q = (if (d, q) = (src, k) then (None, None) else if (d, q) = (dst, k) then (Some v, None) else entry s d q)"
    for d q
  proof -
    have "db_expires (sv_db s dst) k = None" using a(3) assms(1) by (auto simp: server_ok_def db_ok_def)
    then show ?thesis
      using a(4) viewD(5) [OF view_reply(2) [of c shared_cone]]
      by (simp add: s4_def entry_def add_dirty_def dbDelete_upd upd_db_def db_put_def e2)
  qed
  moreover have "c_flags (sv_client s4 w) = c_flags (sv_client s w)" for w
    using viewD(3) [OF view_reply(2) [of c shared_cone]]
    by (simp add: s4_def add_dirty_def dbDelete_upd upd_db_def db_put_def e2)
  ultimately show ?thesis unfolding src_def k_def by blast
qed

definition asking_server :: "strobj list \<Rightarrow> int option \<Rightarrow> server" where
  "asking_server av t = receive 1 av (late_server t)"

lemma asking_server_ok: "server_ok (asking_server av t)"
proof -
  have "serves {} 1 (late_server t) (asking_server av t)"
    unfolding asking_server_def receive_def by (rule serves_client [OF late_server_ok]) simp_all
  then show ?thesis by (rule serves_ok)
qed

lemma asking_server:
  "sv_db (asking_server av t) = sv_db (late_server t)" "c_argv (sv_client (asking_server av t) 1) = av"
  "client_db (asking_server av t) 1 = 0" "sv_dbnum (asking_server av t) = 16"
  "alive (asking_server av None) d k" "can_write (asking_server av t) 1"
  by (simp_all add: asking_server_def receive_def upd_client_def late_server_def example_server_def example_defs
      client_db_def alive_def stocked_db_def can_write_def writes_def prepareClientToWrite_def)

lemma late_dict:
  "db_dict (sv_db (late_server t) d) = (if d = 0 then [str ''k'' \<mapsto> StringObj (ObjRaw (str ''v''))] else Map.empty)"
  "db_expires (sv_db (late_server t) d) k = (if d = 0 \<and> k = str ''k'' then t else None)"
  by (auto simp: late_server_def stocked_db_def)

lemma strtoll_3: "getLongLongFromObject (Some (ObjRaw (str ''3''))) = Some 3"
  by code_simp

theorem moveCommand_moves_witness:
  "\<exists>s'. moveCommand 1 (asking_server (req [''move'', ''k'', ''3'']) None) = Some s' \<and>
     entry s' 3 (str ''k'') = (Some (StringObj (ObjRaw (str ''v''))), None) \<and> entry s' 0 (str ''k'') = (None, None)"
proof -
  define s where "s = asking_server (req [''move'', ''k'', ''3'']) None"
  have a: "argv s 1 2 = ObjRaw (str ''3'')" "arg s 1 1 = str ''k''"
    by (simp_all add: s_def arg_def argv_def asking_server req_def)
  have "\<exists>s'. moveCommand 1 s = Some s' \<and>
    (\<forall>d k. entry s' d k = (if (d, k) = (client_db s 1, arg s 1 1) then (None, None)
       else if (d, k) = (3, arg s 1 1) then (Some (StringObj (ObjRaw (str ''v''))), None) else entry s d k)) \<and>
    (\<forall>w. c_flags (sv_client s' w) = c_flags (sv_client s w))"
    by (rule moveCommand_moves)
      (use asking_server_ok strtoll_3 in \<open>simp_all add: a\<close>, use asking_server_ok in \<open>simp_all add: s_def asking_server late_dict\<close>)
  then show ?thesis unfolding a by (auto simp: s_def asking_server)
qed

text \<open>C18.  RENAME to another name moves the value and its time to live, whatever the target held, and
  touches no other key.\<close>

theorem renameCommand_renames:
  assumes "server_ok s" and "arg s c 1 \<noteq> arg s c 2" and "alive s (client_db s c) (arg s c 1)"
    and "entry s (client_db s c) (arg s c 1) = (Some v, t)" and "t \<noteq> Some (- 1)"
  shows "\<exists>s'. renameCommand c s = Some s' \<and>
    (\<forall>d k. entry s' d k = (if (d, k) = (client_db s c, arg s c 1) then (None, None)
       else if (d, k) = (client_db s c, arg s c 2) then (Some v, t) else entry s d k))"
proof -
  define d k q where "d = client_db s c" and "k = arg s c 1" and "q = arg s c 2"
  have kq: "k \<noteq> q" and a: "alive s d k" "db_dict (sv_db s d) k = Some v" "db_expires (sv_db s d) k = t"
    using assms by (simp_all add: d_def k_def q_def entry_def)
  obtain s1 where s1: "lookupKeyWrite d k s = Some (Some v, s1)" "same_but_time s s1"
    using lookupWrite_alive [OF assms(1), of d k] a by auto
  have ok1: "server_ok s1" by (rule same_but_time_ok [OF s1(2) assms(1)])
  have e1: "sv_db s1 = sv_db s" "sv_client s1 = sv_client s" using s1(2) by (simp_all add: same_but_time_def)
  have cd: "client_db s1 c = d" by (simp add: client_db_def e1 d_def)
  define tm where "tm = (case t of None \<Rightarrow> - 1 | Some tm \<Rightarrow> tm)"
  have tm: "getExpire s1 d k = Some tm" "tm \<noteq> - 1 \<longleftrightarrow> t \<noteq> None" "t \<noteq> None \<longrightarrow> t = Some tm"
    using a assms(5) by (auto simp: getExpire_def e1 tm_def split: option.splits)
  have "wp (lookupKeyWrite d q s1) (\<lambda>(old, s2). old = db_dict (sv_db s2 d) q \<and> lapse d q s1 s2 \<and> server_ok s2)"
    by (rule wp_lookupWrite [OF good_refl [OF ok1]]) (auto dest: good_ok)
  then obtain old s2 where s2: "lookupKeyWrite d q s1 = Some (old, s2)" "old = db_dict (sv_db s2 d) q"
    "lapse d q s1 s2" "server_ok s2"
    by (cases "lookupKeyWrite d q s1") auto
  have e2: "(d', k') \<noteq> (d, q) \<Longrightarrow> entry s2 d' k' = entry s d' k'" for d' k'
    using s2(3) by (simp add: lapse_def entry_def e1)
  define s3 where "s3 = (if old \<noteq> None then snd (dbDelete d q s2) else s2)"
  have "old = None \<Longrightarrow> entry s2 d q = (None, None)"
    using s2(2,4) by (auto simp: server_ok_def db_ok_def entry_def)
  then have e3: "entry s3 d' k' = (if (d', k') = (d, q) then (None, None) else entry s d' k')" for d' k'
    using e2 [of d' k'] by (auto simp: s3_def entry_delete)
  define s4 where "s4 = db_put d q v s3"
  have e4: "entry s4 d' k' = (if (d', k') = (d, q) then (Some v, None) else entry s d' k')" for d' k'
    using e3 [of d' k'] by (auto simp: s4_def db_put_def upd_db_def entry_def)
  define s5 where "s5 = (if tm \<noteq> - 1 then upd_db d (db_expires_update (\<lambda>m. m(q \<mapsto> tm))) s4 else s4)"
  have e5: "entry s5 d' k' = (if (d', k') = (d, q) then (Some v, t) else entry s d' k')" for d' k'
    using e4 [of d' k'] tm(2,3) by (auto simp: s5_def upd_db_def entry_def)
  define s6 where "s6 = snd (dbDelete d k s5)"
  have e6: "entry s6 d' k' = (if (d', k') = (d, k) then (None, None) else if (d', k') = (d, q) then (Some v, t)
      else entry s d' k')" for d' k'
    using e5 [of d' k'] kq by (auto simp: s6_def entry_delete)
  define s7 where "s7 = addReply c shared_ok (add_dirty 1 (notifyKeyspaceEvent REDIS_NOTIFY_GENERIC ''rename_to'' q d
    (notifyKeyspaceEvent REDIS_NOTIFY_GENERIC ''rename_from'' k d (signalModifiedKey d q (signalModifiedKey d k s6)))))"
  have "sv_db s7 = sv_db s6"
    using viewD(5) [OF view_reply(2) [of c shared_ok]] by (simp add: s7_def add_dirty_def sv_signal)
  then have e7: "entry s7 = entry s6" by (simp add: entry_def fun_eq_iff)
  have "db_dict (sv_db s3 d) q = None" "db_dict (sv_db s4 d) q \<noteq> None"
    using e3 [of d q] e4 [of d q] by (simp_all add: entry_def)
  then have steps: "dbAdd d q v s3 = Some s4" "(if tm \<noteq> - 1 then setExpire d q tm s4 else Some s4) = Some s5"
    by (auto simp: dbAdd_def s4_def setExpire_def s5_def)
  have "rename_found c False d k q v s1 = Some s7"
    unfolding rename_found_def tm(1) Let_def
    by (simp only: s2(1) Option.bind.simps prod.case simp_thms if_False s3_def [symmetric] steps s6_def [symmetric]
        s7_def [symmetric])
  then have "renameCommand c s = Some s7"
    using kq s1(1) by (simp add: renameCommand_def renameGenericCommand_def k_def [symmetric] q_def [symmetric]
        lookupKeyWriteOrReply_def d_def [symmetric] cd Let_def)
  then show ?thesis using e6 by (intro exI [of _ s7]) (simp add: e7 d_def k_def q_def)
qed

theorem renameCommand_renames_witness:
  "\<exists>s'. renameCommand 1 (asking_server (req [''rename'', ''k'', ''q'']) (Some 9000)) = Some s' \<and>
     entry s' 0 (str ''q'') = (Some (StringObj (ObjRaw (str ''v''))), Some 9000) \<and> entry s' 0 (str ''k'') = (None, None)"
proof -
  define s where "s = asking_server (req [''rename'', ''k'', ''q'']) (Some 9000)"
  have a: "arg s 1 1 = str ''k''" "arg s 1 2 = str ''q''"
    by (simp_all add: s_def arg_def argv_def asking_server req_def)
  have "alive s 0 (str ''k'')"
    by (simp add: s_def alive_def asking_server_def receive_def upd_client_def late_dict) (simp add: late_server_def example_server_def example_defs)
  then have "\<exists>s'. renameCommand 1 s = Some s' \<and>
    (\<forall>d k. entry s' d k = (if (d, k) = (client_db s 1, arg s 1 1) then (None, None)
       else if (d, k) = (client_db s 1, arg s 1 2) then (Some (StringObj (ObjRaw (str ''v''))), Some 9000) else entry s d k))"
    by (intro renameCommand_renames) (use asking_server_ok in \<open>simp_all add: a, simp_all add: s_def asking_server entry_def late_dict\<close>)
  then show ?thesis unfolding a by (auto simp: s_def asking_server)
qed

section \<open>Strings\<close>

lemma lookup_client:
  assumes "lookupKeyWrite d k s = Some (v, s')"
  shows "sv_client s' = sv_client s"
proof -
  obtain e where e: "expireIfNeeded d k s = Some (e, s')"
    using assms by (cases "expireIfNeeded d k s") (auto simp: lookupKeyWrite_def)
  obtain tm where tm: "getExpire s d k = Some tm" using e by (cases "getExpire s d k") (simp_all add: expireIfNeeded_def)
  obtain now s1 where clk: "(case lua_start s of Some t \<Rightarrow> (t, s) | None \<Rightarrow> mstime s) = (now, s1)" by fastforce
  have s1: "sv_client s1 = sv_client s"
    using clk by (cases "lua_start s") (simp_all add: mstime_def ustime_def Let_def, auto)
  define s2 where "s2 = notifyKeyspaceEvent REDIS_NOTIFY_EXPIRED ''expired'' k d
    (propagateExpire d k (s1\<lparr>stat_expiredkeys := Suc (stat_expiredkeys s1)\<rparr>))"
  have s2: "sv_client s2 = sv_client s" by (simp add: s2_def s1)
  have "s' \<in> {s, s1, snd (dbDelete d k s2)}"
    using e unfolding expireIfNeeded_def tm Option.bind.simps clk Let_def prod.case s2_def [symmetric]
    by (cases "dbDelete d k s2") (simp split: if_splits)
  then show ?thesis using s1 s2 by auto
qed

lemma setKey_out: "setKey d k v s = Some s' \<Longrightarrow> out s' c = out s c \<and> can_write s' c = can_write s c"
proof -
  assume s': "setKey d k v s = Some s'"
  then obtain old s1 where s1: "lookupKeyWrite d k s = Some (old, s1)"
    by (cases "lookupKeyWrite d k s") (auto simp: setKey_def)
  define s2 where "s2 = upd_db d (db_expires_update (\<lambda>m. m(k := None))) (db_put d k v s1)"
  have "s' = signalModifiedKey d k s2"
    using s' by (auto simp: setKey_def s1 dbAdd_def dbOverwrite_def removeExpire_def s2_def split: if_splits)
  moreover have "sv_client s2 = sv_client s" using lookup_client [OF s1] by (simp add: s2_def db_put_def upd_db_def)
  ultimately show ?thesis using out_same [of s2 s c] by simp
qed

lemma lookupRead_persistent:
  "db_expires (sv_db s d) k = None \<Longrightarrow> db_dict (sv_db s d) k = Some v \<Longrightarrow>
   lookupKeyRead d k s = Some (Some v, s\<lparr>stat_keyspace_hits := Suc (stat_keyspace_hits s)\<rparr>)"
  by (simp add: lookupKeyRead_def expireIfNeeded_def getExpire_def lookupKey_def)

lemma setCommand_plain:
  assumes ok: "server_ok s" and av: "c_argv (sv_client s c) = [e0, e1, v]"
  shows "\<exists>s'. setCommand c s = Some s' \<and> c_db (sv_client s' c) = c_db (sv_client s c) \<and>
    out s' c = out s c @ (if can_write s c then str ''+OK'' @ crlf else []) \<and> can_write s' c = can_write s c \<and>
    (\<forall>d k. entry s' d k = (if (d, k) = (client_db s c, getDecodedObject e1)
       then (Some (StringObj (tryObjectEncoding v)), None) else entry s d k))"
proof -
  define d k where "d = client_db s c" and "k = getDecodedObject e1"
  define s0 where "s0 = encode_arg c 2 s"
  have s0: "sv_db s0 = sv_db s" "client_db s0 c = d" "arg s0 c 1 = k" "argv s0 c 2 = tryObjectEncoding v"
    "out s0 c = out s c" "can_write s0 c = can_write s c" "c_db (sv_client s0 c) = c_db (sv_client s c)"
    by (simp_all add: s0_def encode_arg_def set_argv_def upd_client_def client_db_def d_def k_def arg_def argv_def av
        out_def can_write_def client_out_def writes_def prepareClientToWrite_def numeral_2_eq_2)
  have ok0: "server_ok s0" using serves_ok [OF serves_view [OF view_encode ok, where W = "{}"]] by (simp add: s0_def)
  have "wp (setKey d k (StringObj (tryObjectEncoding v)) s0)
      (\<lambda>s1. wrote d k (Some (StringObj (tryObjectEncoding v)), None) s0 s1)"
    by (rule wp_setKey [OF good_refl [OF ok0]]) simp_all
  then obtain s1 where s1: "setKey d k (StringObj (tryObjectEncoding v)) s0 = Some s1"
    "wrote d k (Some (StringObj (tryObjectEncoding v)), None) s0 s1"
    by (cases "setKey d k (StringObj (tryObjectEncoding v)) s0") auto
  note o1 = setKey_out [OF s1(1), of c]
  define s2 where "s2 = notifyKeyspaceEvent REDIS_NOTIFY_STRING ''set'' k d (add_dirty 1 s1)"
  have s2: "sv_db s2 = sv_db s1" "sv_client s2 = sv_client s1" by (simp_all add: s2_def add_dirty_def)
  define s3 where "s3 = addReply c shared_ok s2"
  have run: "setCommand c s = Some s3"
    using s1(1)
    by (simp add: setCommand_def av s0_def [symmetric] s0 setGenericCommand_def set_milliseconds_def set_refused_def
        s2_def [symmetric] s3_def Let_def)
  have "out s3 c = out s c @ (if can_write s c then str ''+OK'' @ crlf else [])" "can_write s3 c = can_write s c"
    using o1 out_same [OF s2(2), of c] s0(5,6) by (simp_all add: s3_def shared_ok_def)
  moreover have "entry s3 d' k' = (if (d', k') = (d, k) then (Some (StringObj (tryObjectEncoding v)), None) else entry s d' k')"
    for d' k'
    using s1(2) viewD(5) [OF view_reply(2) [of c shared_ok s2]] by (simp add: s3_def entry_def wrote_def s2 s0)
  moreover have "c_db (sv_client s3 c) = c_db (sv_client s c)"
    using s1(2) viewD(4) [OF view_reply(2) [of c shared_ok s2]] by (simp add: s3_def wrote_def s2 s0)
  ultimately show ?thesis using run unfolding d_def k_def by blast
qed

lemma getCommand_persistent:
  assumes "db_expires (sv_db s (client_db s c)) (arg s c 1) = None"
    and "db_dict (sv_db s (client_db s c)) (arg s c 1) = Some (StringObj ob)" and "length (getDecodedObject ob) < 2 ^ 63"
  shows "\<exists>s'. getCommand c s = Some s' \<and> sv_db s' = sv_db s \<and>
    out s' c = out s c @ (if can_write s c then bulk (getDecodedObject ob) else [])"
proof -
  define s1 where "s1 = s\<lparr>stat_keyspace_hits := Suc (stat_keyspace_hits s)\<rparr>"
  have "getCommand c s = Some (addReplyBulk c ob s1)"
    by (simp add: getCommand_def getGenericCommand_def lookupKeyReadOrReply_def lookupRead_persistent [OF assms(1,2)] s1_def Let_def)
  moreover have "out (addReplyBulk c ob s1) c = out s1 c @ (if can_write s1 c then bulk (getDecodedObject ob) else [])"
    using out_add(1) [OF says_bulk [OF assms(3), of c s1]] .
  moreover have "out s1 c = out s c" "can_write s1 c = can_write s c" "sv_db s1 = sv_db s"
    by (simp_all add: s1_def out_def can_write_def)
  ultimately show ?thesis using viewD(5) [OF view_replies(6) [of c ob s1]] by simp
qed

text \<open>C16.  After SET of any text under any key, GET of the key answers that very text, however it was encoded
  and whatever was stored before; the key has no time to live and no other key changed.\<close>

theorem set_then_get:
  assumes "server_ok s" and "c_argv (sv_client s c) = [e0, e1, v]" and "length (getDecodedObject v) < 2 ^ 63"
  shows "\<exists>s1 s2. setCommand c s = Some s1 \<and> getCommand c (receive c [g, e1] s1) = Some s2 \<and>
    out s2 c = out s c @ (if can_write s c then str ''+OK'' @ crlf @ bulk (getDecodedObject v) else []) \<and>
    (\<forall>d k. entry s2 d k = (if (d, k) = (client_db s c, getDecodedObject e1)
       then (Some (StringObj (tryObjectEncoding v)), None) else entry s d k))"
proof -
  obtain s1 where s1: "setCommand c s = Some s1" "c_db (sv_client s1 c) = c_db (sv_client s c)"
    "out s1 c = out s c @ (if can_write s c then str ''+OK'' @ crlf else [])" "can_write s1 c = can_write s c"
    "\<And>d k. entry s1 d k = (if (d, k) = (client_db s c, getDecodedObject e1)
       then (Some (StringObj (tryObjectEncoding v)), None) else entry s d k)"
    using setCommand_plain [OF assms(1,2)] by auto
  define t where "t = receive c [g, e1] s1"
  have t: "sv_db t = sv_db s1" "client_db t c = client_db s c" "arg t c 1 = getDecodedObject e1" "out t c = out s1 c"
    "can_write t c = can_write s1 c"
    using s1(2) by (simp_all add: t_def receive_def upd_client_def client_db_def arg_def argv_def out_def can_write_def
        client_out_def writes_def prepareClientToWrite_def)
  have "entry t (client_db s c) (getDecodedObject e1) = (Some (StringObj (tryObjectEncoding v)), None)"
    using s1(5) by (simp add: entry_def t)
  then obtain s2 where s2: "getCommand c t = Some s2" "sv_db s2 = sv_db t"
    "out s2 c = out t c @ (if can_write t c then bulk (getDecodedObject v) else [])"
    using getCommand_persistent [of t c "tryObjectEncoding v"] assms(3) by (auto simp: t entry_def decoded_encoding)
  have "out s2 c = out s c @ (if can_write s c then str ''+OK'' @ crlf @ bulk (getDecodedObject v) else [])"
    using s2(3) s1(3,4) by (simp add: t)
  moreover have "entry s2 = entry s1" by (simp add: entry_def fun_eq_iff s2(2) t)
  ultimately show ?thesis
    by - (rule exI [of _ s1], rule exI [of _ s2], simp only: t_def [symmetric] s1(1,5) s2(1) simp_thms)
qed

theorem set_then_get_witness:
  "\<exists>s1 s2. setCommand 1 (asking_server (req [''set'', ''k'', ''42'']) (Some 1000)) = Some s1 \<and>
     getCommand 1 (receive 1 (req [''get'', ''k'']) s1) = Some s2 \<and>
     out s2 1 = str ''+OK'' @ crlf @ str ''$2'' @ crlf @ str ''42'' @ crlf"
proof -
  define s where "s = asking_server (req [''set'', ''k'', ''42'']) (Some 1000)"
  have "out s 1 = []" "can_write s 1"
    by (simp_all add: s_def asking_server) (simp add: out_def client_out_def asking_server_def receive_def upd_client_def
      late_server_def example_server_def example_defs)
  moreover have "bulk (str ''42'') = str ''$2'' @ crlf @ str ''42'' @ crlf" by code_simp
  moreover have "\<exists>s1 s2. setCommand 1 s = Some s1 \<and> getCommand 1 (receive 1 [ObjRaw (str ''get''), ObjRaw (str ''k'')] s1) = Some s2 \<and>
    out s2 1 = out s 1 @ (if can_write s 1 then str ''+OK'' @ crlf @ bulk (getDecodedObject (ObjRaw (str ''42''))) else []) \<and>
    (\<forall>d k. entry s2 d k = (if (d, k) = (client_db s 1, getDecodedObject (ObjRaw (str ''k'')))
       then (Some (StringObj (tryObjectEncoding (ObjRaw (str ''42'')))), None) else entry s d k))"
    by (rule set_then_get [where ?e0.0 = "ObjRaw (str ''set'')"]) (simp_all add: s_def asking_server_ok asking_server req_def)
  ultimately show ?thesis by (auto simp: s_def req_def)
qed

text \<open>The integer a value stands for: none for other types.\<close>

definition number :: "robj option \<Rightarrow> int option" where
  "number v = (case v of None \<Rightarrow> Some 0 | Some (StringObj ob) \<Rightarrow> getLongLongFromObject (Some ob) | _ \<Rightarrow> None)"

lemma number_range:
  assumes "number v = Some n"
  shows "- (2 ^ 63) \<le> n" "n < 2 ^ 63"
proof -
  have "- (2 ^ 63) \<le> n \<and> n < 2 ^ 63"
  proof (cases v)
    case None
    with assms show ?thesis by (simp add: number_def)
  next
    case (Some r)
    with assms obtain ob where "r = StringObj ob" "getLongLongFromObject (Some ob) = Some n"
      by (cases r) (auto simp: number_def)
    then show ?thesis
      using sint_greater_eq [where 'a = 64] sint_less [where 'a = 64]
      by (cases ob) (auto simp: getLongLongFromObject_def [of "Some (ObjInt _)"] getLongLong_iff)
  qed
  then show "- (2 ^ 63) \<le> n" "n < 2 ^ 63" by simp_all
qed



end
