(* ===== verification/Set_Properties.thy ===== *)
theory Set_Properties
  imports Example_Server Dict_Scan
begin

text \<open>
  Results of the set commands on keys without a time to live, of the set type, and of the iterator
  they read sets with.  The keys of a request may coincide and the destination may be an operand.
\<close>

declare One_nat_def [simp del]

section \<open>Keys without a time to live\<close>

lemma lapses_persistent:
  assumes "lapses d K s s1" and "\<forall>k \<in> K. db_expires (sv_db s d) k = None"
  shows "entry s1 d' k = entry s d' k"
  using assms unfolding lapses_def by blast

lemma persistent_same:
  assumes l: "lapses d K s s1" and k: "\<forall>k \<in> K. db_expires (sv_db s d) k = None"
  shows "content s1 d' j = content s d' j" "members s1 d' j = members s d' j" "set_at s1 d' j = set_at s d' j"
    "wrong_type s1 d' j = wrong_type s d' j" "db_expires (sv_db s1 d') j = db_expires (sv_db s d') j"
proof -
  have e: "entry s1 d' j = entry s d' j" by (rule lapses_persistent [OF l k])
  then have d: "db_dict (sv_db s1 d') j = db_dict (sv_db s d') j" and x: "db_expires (sv_db s1 d') j = db_expires (sv_db s d') j"
    by (simp_all add: entry_def)
  show "content s1 d' j = content s d' j" by (rule content_entry [OF e])
  show "members s1 d' j = members s d' j" by (simp add: members_def d)
  show "set_at s1 d' j = set_at s d' j" by (simp add: set_at_def d)
  then show "wrong_type s1 d' j = wrong_type s d' j" by (simp add: wrong_type_def d)
  show "db_expires (sv_db s1 d') j = db_expires (sv_db s d') j" by (rule x)
qed

lemma persistent_lapse:
  assumes "lapse d k s s1" and "db_expires (sv_db s d) k = None"
  shows "lapses d {k} s s1" "\<forall>j \<in> {k}. db_expires (sv_db s d) j = None"
  using lapses_one [OF assms(1), of "{}"] assms(2) by simp_all

lemma result: "wp x (\<lambda>s'. P s') \<Longrightarrow> \<exists>s'. x = Some s' \<and> P s'"
  by (rule wp_not_None)

section \<open>A server with sets\<close>

definition example_ints :: "u64 \<Rightarrow> u64 \<Rightarrow> setobj" where
  "example_ints a b = SetIntset (fst (intsetAdd (fst (intsetAdd intsetNew a)) b))"

lemma example_ints:
  assumes "set_max_intset_entries s < intset_cap"
  shows "set_inv s (example_ints a b)" "set_elems (example_ints a b) = {dec_int (sint a), dec_int (sint b)}"
proof -
  define i1 where "i1 = fst (intsetAdd intsetNew a)"
  define i2 where "i2 = fst (intsetAdd i1 b)"
  have c0: "card (intset_set intsetNew) < intset_cap" by (simp add: intset.abs_empty intset_cap_def)
  obtain r1 where r1: "intsetAdd intsetNew a = (i1, r1)" by (simp add: i1_def prod_eq_iff)
  note l1 = intset.add_law [OF intset.inv_empty c0 r1]
  have c1: "card (intset_set i1) < intset_cap" using l1 by (simp add: intset.abs_empty intset_cap_def)
  obtain r2 where r2: "intsetAdd i1 b = (i2, r2)" by (simp add: i2_def prod_eq_iff)
  have l2: "intset_inv i2" "intset_set i2 = insert b (intset_set i1)"
    using intset.add_law [OF _ c1 r2] l1 by simp_all
  have s2: "intset_set i2 = {b, a}" using l2(2) l1 by (simp add: intset.abs_empty)
  then have "card (intset_set i2) \<le> 2" using card_insert_le_m1 [of 2 "{a}" b] by simp
  then have "card (intset_set i2) < intset_cap" by (simp add: intset_cap_def)
  then show "set_inv s (example_ints a b)" "set_elems (example_ints a b) = {dec_int (sint a), dec_int (sint b)}"
    using assms l2(1) s2 by (auto simp: example_ints_def i1_def [symmetric] i2_def [symmetric] set_inv_def setobj_ok_def set_elems_def)
qed

definition sets_db :: "nat \<Rightarrow> redisDb" where
  "sets_db d = (example_db d)\<lparr>db_dict := (if d = 0 then
     [str ''k'' \<mapsto> StringObj (ObjRaw (str ''v'')), str ''a'' \<mapsto> SetObj (example_ints 1 2), str ''b'' \<mapsto> SetObj (example_ints 2 3)]
     else Map.empty)\<rparr>"

definition sets_server :: "string list \<Rightarrow> server" where
  "sets_server ws = receive 1 (req ws) (example_server\<lparr>sv_db := sets_db\<rparr>)"

lemma sets_server_ok: "server_ok (sets_server ws)"
proof -
  have ok: "server_ok example_server" using example_ready [of "{}"] by (simp add: ready_def)
  have lim: "set_max_intset_entries example_server < intset_cap" using ok by (simp add: server_ok_def)
  note i = example_ints [OF lim]
  have v: "val_ok (hash_seed example_server) (SetObj (example_ints a b))" for a b
    using i [of a b] by (simp add: set_inv_def)
  have "db_ok (hash_seed example_server) (sets_db d)" for d
    using v by (auto simp: sets_db_def db_ok_def example_defs split: if_splits)
  then have "server_ok (example_server\<lparr>sv_db := sets_db\<rparr>)"
    using ok by (auto simp: server_ok_def watch_ok_def sets_db_def example_server_def example_defs)
  then have "serves {} 1 (example_server\<lparr>sv_db := sets_db\<rparr>) (sets_server ws)"
    unfolding sets_server_def receive_def by (intro serves_client) simp_all
  then show ?thesis by (rule serves_ok)
qed

lemma sets_server:
  "sv_db (sets_server ws) = sets_db" "argc (sets_server ws) 1 = length ws" "client_db (sets_server ws) 1 = 0"
  "can_write (sets_server ws) 1" "out (sets_server ws) 1 = []"
  by (simp_all add: sets_server_def receive_def upd_client_def example_server_def example_defs argc_def req_def
      client_db_def can_write_def writes_def prepareClientToWrite_def out_def client_out_def)

lemma sets_server_arg: "i < length ws \<Longrightarrow> arg (sets_server ws) 1 i = str (ws ! i)"
  by (simp add: arg_def argv_def sets_server_def receive_def upd_client_def req_def)

lemma sets_args:
  "arg (sets_server [u, v, w]) 1 ` {1..<argc (sets_server [u, v, w]) 1} = {str v, str w}"
  "arg (sets_server [u, v, w, x]) 1 ` {2..<argc (sets_server [u, v, w, x]) 1} = {str w, str x}"
proof -
  have "{1..<Suc (Suc (Suc 0))} = {1, 2}" "{2..<Suc (Suc (Suc (Suc 0)))} = {2, 3 :: nat}" by auto
  then show "arg (sets_server [u, v, w]) 1 ` {1..<argc (sets_server [u, v, w]) 1} = {str v, str w}"
    "arg (sets_server [u, v, w, x]) 1 ` {2..<argc (sets_server [u, v, w, x]) 1} = {str w, str x}"
    by (simp_all add: sets_server sets_server_arg)
qed

lemma sets_server_keys:
  "members (sets_server ws) 0 (str ''a'') = {str ''1'', str ''2''}" "members (sets_server ws) 0 (str ''b'') = {str ''2'', str ''3''}"
  "\<not> wrong_type (sets_server ws) 0 (str ''a'')" "\<not> wrong_type (sets_server ws) 0 (str ''b'')"
  "wrong_type (sets_server ws) 0 (str ''k'')" "db_expires (sets_db 0) k = None"
  "members (sets_server ws) 0 (str ''x'') = {}" "\<not> wrong_type (sets_server ws) 0 (str ''x'')"
proof -
  have "set_max_intset_entries example_server < intset_cap" by (simp add: example_server_def intset_cap_def)
  note i = example_ints(2) [OF this]
  show "members (sets_server ws) 0 (str ''a'') = {str ''1'', str ''2''}" "members (sets_server ws) 0 (str ''b'') = {str ''2'', str ''3''}"
    by (simp_all add: members_def sets_server sets_db_def i dec_int_def dec_nat_small)
  show "\<not> wrong_type (sets_server ws) 0 (str ''a'')" "\<not> wrong_type (sets_server ws) 0 (str ''b'')"
    "wrong_type (sets_server ws) 0 (str ''k'')" "db_expires (sets_db 0) k = None"
    "members (sets_server ws) 0 (str ''x'') = {}" "\<not> wrong_type (sets_server ws) 0 (str ''x'')"
    by (simp_all add: wrong_type_def set_at_def members_def sets_server sets_db_def example_defs)
qed

lemmas sets_keys = sets_server_keys [simplified]

section \<open>Algebra of sets\<close>









section \<open>Elements\<close>







section \<open>Types\<close>



section \<open>A key that expires between two lookups\<close>

definition expiring_db :: "nat \<Rightarrow> redisDb" where
  "expiring_db d =
     (if d = 0 then \<lparr>db_dict = [str ''k'' \<mapsto> SetObj (example_ints 1 2)], db_expires = [str ''k'' \<mapsto> 5000], db_watched = Map.empty\<rparr>
      else example_db d)"

definition expiring_server :: "string list \<Rightarrow> server" where
  "expiring_server ws = receive 1 (req ws) (example_server\<lparr>ticks := 5, sv_db := expiring_db\<rparr>)"

lemma expiring_server_ok: "server_ok (expiring_server ws)"
proof -
  let ?s = "example_server\<lparr>ticks := 5, sv_db := expiring_db\<rparr>"
  have ok: "server_ok example_server" using example_ready [of "{}"] by (simp add: ready_def)
  then have lim: "set_max_intset_entries example_server < intset_cap" by (simp add: server_ok_def)
  have "val_ok (hash_seed example_server) (SetObj (example_ints 1 2))"
    using example_ints [OF lim, of 1 2] by (simp add: set_inv_def)
  then have "db_ok (hash_seed example_server) (expiring_db d)" for d
    by (auto simp: expiring_db_def db_ok_def example_defs split: if_splits)
  then have "server_ok ?s"
    using ok by (auto simp: server_ok_def watch_ok_def expiring_db_def example_server_def example_defs)
  then have "serves {} 1 ?s (expiring_server ws)"
    unfolding expiring_server_def receive_def by (intro serves_client) simp_all
  then show ?thesis by (rule serves_ok)
qed


text \<open>With one key for both, and no time to live, SMOVE answers 1 whatever the element is.\<close>

theorem smoveCommand_same_key:
  assumes "server_ok s" and d: "d = client_db s c" and args: "key = arg s c 1" "key = arg s c 2"
    and k: "db_expires (sv_db s d) key = None" and at: "set_at s d key \<noteq> None"
  shows "\<exists>s'. smoveCommand c s = Some s' \<and> (\<forall>d' k. content s' d' k = content s d' k) \<and>
    out s' c = out s c @ (if can_write s c then str '':1'' @ crlf else [])"
proof (rule result, rule wp_smove [OF good_refl [OF assms(1), of "{}" False]])
  fix s1 s' moved
  assume l: "lapses (client_db s c) {arg s c 1, arg s c 2} s s1"
  have "\<forall>j \<in> {key, key}. db_expires (sv_db s d) j = None" using k by simp
  note same = persistent_same [OF l [folded d args] this]
  assume "moved \<longleftrightarrow> arg s c 3 \<in> members s1 (client_db s c) (arg s c 1) \<and> arg s c 1 \<noteq> arg s c 2"
    "\<And>d k. content s' d k = smove_content s1 (client_db s c) (arg s c 1) (arg s c 2) (arg s c 3) moved d k"
    "out s' c = out s c @ (if can_write s c
      then (if moved \<or> set_at s1 (client_db s c) (arg s c 1) \<noteq> None \<and> arg s c 1 = arg s c 2
            then str '':1'' @ crlf else str '':0'' @ crlf) else [])"
  then show "(\<forall>d' k. content s' d' k = content s d' k) \<and> out s' c = out s c @ (if can_write s c then str '':1'' @ crlf else [])"
    using at unfolding d [symmetric] args [symmetric] by (simp add: same smove_content_def)
next
  fix s1 t
  assume "wrong_type s (client_db s c) (arg s c 1) \<or> wrong_type s (client_db s c) (arg s c 2)"
  then have False using at unfolding d [symmetric] args [symmetric] by (simp add: wrong_type_def)
  then show "(\<forall>d' k. content (addReply c shared_wrongtypeerr t) d' k = content s d' k) \<and>
    out (addReply c shared_wrongtypeerr t) c = out s c @ (if can_write s c then str '':1'' @ crlf else [])" ..
qed (use k args in \<open>simp add: d\<close>)

section \<open>The set type and its iterator\<close>


text \<open>
  C40. Calling the iterator until it returns nothing ends, leaves the dictionary as it was, and returns
  every key exactly once with its value, also while a rehash is going on and the entries are spread
  over two tables.
\<close>

theorem iteration_complete:
  assumes "dict_inv ty cn d"
  shows "\<exists>es. dict_drain d dictGetIterator [] = Some (d, es) \<and> distinct (map (\<lambda>e. cn (de_key e)) es) \<and>
    map_of (map (\<lambda>e. (cn (de_key e), de_val e)) es) = dict_map cn d"
proof -
  have "distinct (map (\<lambda>e. cn (de_key e)) (dict_entries d))" using dict_inv_distinct [OF assms] by simp
  then show ?thesis using drain_entries [OF assms] by (auto simp: dict_map_def)
qed

theorem iteration_complete_witness:
  "dictIsRehashing shrinking_dict \<and>
   (\<exists>es. dict_drain shrinking_dict dictGetIterator [] = Some (shrinking_dict, es) \<and> 4 \<in> de_key ` set es)"
proof -
  obtain es where es: "dict_drain shrinking_dict dictGetIterator [] = Some (shrinking_dict, es)"
    "map_of (map (\<lambda>e. (id (de_key e), de_val e)) es) = dict_map id shrinking_dict"
    using iteration_complete [OF shrinking_inv] by blast
  have "dict_map id shrinking_dict 4 = Some ()"
    by (simp add: dict_map_def dict_entries_def wide_eval shrink_eval dict_reset_ht_def)
  then have "(4, ()) \<in> set (map (\<lambda>e. (id (de_key e), de_val e)) es)" using es(2) by (metis map_of_SomeD)
  then show ?thesis using es(1) shrinking_rehashing by force
qed

end
