(* ===== verification/Spec2Isabelle.thy ===== *)
theory Spec2Isabelle
  imports Dict_Scan Dict_Types Glob Intset Numbers Sds Table_Properties Session_Properties Command_Properties Set_Properties
begin

text \<open>
  Verification of the Redis server, version 2.8 (\<^verbatim>\<open>src/redis-2.8/src\<close>): the data structures it is
  built from, and the path of a request from its arguments to the reply, the key space, the
  transactions of other clients and the slaves.

  \<^bold>\<open>The program.\<close>  A server holds numbered databases, each a dictionary (\<^verbatim>\<open>dict.c\<close>) from
  byte strings (\<^verbatim>\<open>sds.c\<close>) to objects, a second dictionary with expiration times, and a third with
  the clients that watch a key.  Objects are strings, which are stored as integers where they are
  canonical decimal numbers (\<^verbatim>\<open>object.c\<close>, \<^verbatim>\<open>util.c\<close>), and sets, lists, hashes and sorted sets;
  sets of integers are sorted byte arrays (\<^verbatim>\<open>intset.c\<close>).  \<^verbatim>\<open>processCommand\<close> (\<^verbatim>\<open>redis.c\<close>) looks
  up the name of a request in the command table, makes its checks, and queues the command or runs it
  through \<^verbatim>\<open>call\<close>; the command works on the key space through \<^verbatim>\<open>db.c\<close>, which expires keys as
  they are met, signals changed keys to \<^verbatim>\<open>multi.c\<close> and publishes events; \<^verbatim>\<open>call\<close> sends the
  command to the slaves and the append-only file if it counted a change; replies collect in the
  buffers of the client (\<^verbatim>\<open>networking.c\<close>).

  \<^bold>\<open>Data structures.\<close>  \<^verbatim>\<open>Dict\<close> has the hash table of \<^verbatim>\<open>dict.c\<close>, function by function: two
  tables of chained buckets during a rehash, growth and shrinking, incremental rehashing.
  \<^verbatim>\<open>Dict_Refine\<close> has its invariant and what each operation does to the finite map it stands for,
  \<^verbatim>\<open>Dict_Map\<close> the simulation of any sequence of operations and its interpretation of the interface of
  \<^verbatim>\<open>Interfaces\<close>; \<^verbatim>\<open>Dict_Iter\<close> the iterator, \<^verbatim>\<open>Dict_Scan\<close> the reverse-binary cursor of \<^verbatim>\<open>dictScan\<close>; \<^verbatim>\<open>Dict_Types\<close> the hash
  functions and key comparisons of \<^verbatim>\<open>dict.c\<close> and \<^verbatim>\<open>redis.c\<close>.  \<^verbatim>\<open>Intset\<close> has \<^verbatim>\<open>intset.c\<close> on its
  bytes (\<^verbatim>\<open>Bytes\<close>), \<^verbatim>\<open>Sds\<close> the dynamic strings with their length and free fields, \<^verbatim>\<open>Numbers\<close>
  the printing and parsing of integers and \<^verbatim>\<open>Glob\<close> the pattern matcher of \<^verbatim>\<open>util.c\<close>.

  \<^bold>\<open>The server.\<close>  \<^verbatim>\<open>Server\<close> has the state as records: clients, databases, commands, and the
  fields of \<^verbatim>\<open>struct redisServer\<close> that request processing reads or writes.  Dictionaries are finite
  maps here, which the refinement of \<^verbatim>\<open>Dict_Map\<close> justifies.  \<^verbatim>\<open>Reply\<close> has the output functions of
  \<^verbatim>\<open>networking.c\<close> down to the static buffer and the reply list; \<^verbatim>\<open>Objects\<close> the string objects of
  \<^verbatim>\<open>object.c\<close>; \<^verbatim>\<open>Set_Type\<close> the set objects of \<^verbatim>\<open>t_set.c\<close>, integer sets or hash tables that keep
  their organisation in the database; \<^verbatim>\<open>Watch\<close> watched keys and the signals of \<^verbatim>\<open>multi.c\<close> and \<^verbatim>\<open>notify.c\<close>; \<^verbatim>\<open>Db\<close> the
  key space of \<^verbatim>\<open>db.c\<close> with expiration; \<^verbatim>\<open>Db_Commands\<close> the key space commands, \<^verbatim>\<open>T_String\<close> the
  commands of \<^verbatim>\<open>t_string.c\<close>, \<^verbatim>\<open>T_Set\<close> those of \<^verbatim>\<open>t_set.c\<close> (their loops in \<^verbatim>\<open>Set_Algebra\<close>, the
  commands as a whole in \<^verbatim>\<open>Set_Commands\<close>); \<^verbatim>\<open>Multi\<close> MULTI, EXEC and the execution of a command (\<^verbatim>\<open>call\<close>);
  \<^verbatim>\<open>Process\<close> AUTH and \<^verbatim>\<open>processCommand\<close>; \<^verbatim>\<open>Command_Table\<close> the table and its key positions.

  A handler takes the number of the client and the server state and returns the new state, or
  \<open>None\<close> where the process aborts: a failed assertion, a panic, an allocation that cannot succeed.
  The clock is a function of the number of readings made so far, so that time may pass between any
  two of them.  Everything fed to slaves, the append-only file, monitors and subscribers is recorded
  in logs of the state in its order.

  \<^bold>\<open>What is shown.\<close>  For the data structures: refinement of finite maps and sets by arbitrary
  sequences of operations; termination and completeness of the cursor, with the case in which it misses
  keys; exactness of the number formats at the limits of 64 bits; the language of the matcher.  For the
  server: \<^verbatim>\<open>Serving\<close> has triples of total correctness for every handler, and \<^verbatim>\<open>Sessions\<close> follows
  whole sessions of many clients.  \<^verbatim>\<open>Session_Properties\<close> states their results: no sequence of requests aborts
  a well-formed server, EXEC runs no transaction whose watched keys have changed, every change is sent
  to the slaves; and what integers at the ends of their ranges do.  \<^verbatim>\<open>Command_Properties\<close> has results
  of single commands: expiration, SET and GET, INCR, RENAME, MOVE, FLUSHALL, authentication and refusals;
  \<^verbatim>\<open>Set_Properties\<close> those of the set commands: which set is stored or sent, and what a key that expires
  between two lookups does; \<^verbatim>\<open>Table_Properties\<close> the registration of the table.  \<^verbatim>\<open>Example_Server\<close> is a server on which hypotheses
  are exercised and requests evaluated.

  \<^bold>\<open>Bounds.\<close>  C integers keep their width: words where the code works on bits or lets values
  wrap, otherwise integers with the conversion written out (\<open>c_int\<close>, \<open>llong\<close>).  \<open>long\<close> and pointers have
  64 bits, \<open>char\<close> is signed.  There is no fuel: loops are structural, have a measure, or are partial
  functions with \<open>None\<close> for no result, and then shown to return.  Requests are followed with fewer than
  \<open>2 ^ 63\<close> arguments and, for the set commands, with no key looked up twice by one command
  (\<open>set_fits\<close> in \<^verbatim>\<open>Serving\<close>).

  \<^bold>\<open>Not modelled.\<close>  Memory release and reference counts (values are immutable here; where the
  code modifies a string in place it has made it unshared); LRU times; the slow log, latency monitor
  and statistics per command; the memory limit (\<^verbatim>\<open>freeMemoryIfNeeded\<close> depends on the allocator:
  with \<^verbatim>\<open>maxmemory\<close> set, \<^verbatim>\<open>processCommand\<close> has no result here and the theorems assume it is not);
  clients blocked on lists; the Lua client; KEYS, SCAN, RANDOMKEY and SHUTDOWN; INCRBYFLOAT (floating
  point); SPOP, SRANDMEMBER and SSCAN; the commands on lists, hashes and sorted sets, whose values only
  travel through the key space here; \<^verbatim>\<open>also_propagate\<close>, which no command of this version uses; sockets, the
  event loop, persistence, replication and cluster protocols, which are input and output.  The further
  programs in the repository (PHP, memcached, libevent and others) are systems of their own.
\<close>

end
